(* ===== verification/Prelude.thy ===== *)
theory Prelude
  imports Main "HOL-Library.Word" "HOL-Library.List_Lexorder" "HOL-Library.Sublist"
begin

text \<open>
  What every component shares: the machine types of the C++ code, the faults a C++ operation
  can end in (the behaviours the language leaves undefined and the exceptions that escape),
  the result type that carries them, memory reads through a slice, \<^verbatim>\<open>memcmp\<close> and
  \<^verbatim>\<open>std::to_string\<close>.

  Byte strings are lists of 8-bit words.  With \<^theory_text>\<open>HOL-Library.List_Lexorder\<close> the order
  \<open><\<close> on them is the lexicographic order on unsigned bytes, shorter strings first: the order
  of \<^verbatim>\<open>leveldb::BytewiseComparator()\<close> (ndb.cc, \<^verbatim>\<open>COMPARATOR\<close>).
\<close>

unbundle bit_operations_syntax

section \<open>Machine types\<close>

type_synonym u8 = "8 word"
type_synonym u16 = "16 word"
type_synonym u32 = "32 word"
type_synonym u64 = "64 word"
type_synonym bytes = "u8 list"

section \<open>Faults and results\<close>

text \<open>
  \<^item> \<open>OobRead\<close>: a read outside the slice, array or vector it indexes;
  \<^item> \<open>OobWrite\<close>: a write outside the memory it goes to;
  \<^item> \<open>BadUnion\<close>: a union member read that is not the one the tag says is stored;
  \<^item> \<open>NullDeref\<close>: a call through a null pointer;
  \<^item> \<open>UseAfterFree\<close>: a read of storage whose owner is gone or has changed it;
  \<^item> \<open>StaleDb\<close>: a use of a database that its owner does not have;
  \<^item> \<open>Uninit\<close>: a read of a variable nothing was stored in;
  \<^item> \<open>IntOverflow\<close>: signed arithmetic out of range;
  \<^item> \<open>StdException\<close>: a standard library exception nobody catches, by its class.
\<close>

datatype fault =
    OobRead
  | OobWrite
  | BadUnion
  | NullDeref
  | UseAfterFree
  | StaleDb
  | Uninit
  | IntOverflow
  | StdException string

type_synonym 'a res = "fault + 'a"

definition res_bind :: "'a res \<Rightarrow> ('a \<Rightarrow> 'b res) \<Rightarrow> 'b res" where
  "res_bind m f = (case m of Inl e \<Rightarrow> Inl e | Inr x \<Rightarrow> f x)"

named_theorems res_simps \<open>evaluation and inversion of results\<close>

lemma res_bind_simps [simp, res_simps]:
  "res_bind (Inl e) f = Inl e"
  "res_bind (Inr x) f = f x"
  by (simp_all add: res_bind_def)

lemma res_bind_Inr_iff [res_simps]:
  "res_bind m f = Inr y \<longleftrightarrow> (\<exists>x. m = Inr x \<and> f x = Inr y)"
  by (cases m) auto

lemma res_bind_Inl_iff [res_simps]:
  "res_bind m f = Inl e \<longleftrightarrow> m = Inl e \<or> (\<exists>x. m = Inr x \<and> f x = Inl e)"
  by (cases m) auto

lemma res_bind_assoc: "res_bind (res_bind m f) g = res_bind m (\<lambda>x. res_bind (f x) g)"
  by (cases m) simp_all

text \<open>
  What a computation may do: \<open>safe F P r\<close> says that a fault of \<open>r\<close> is one of \<open>F\<close> and a value
  satisfies \<open>P\<close>.
\<close>

definition safe :: "fault set \<Rightarrow> ('a \<Rightarrow> bool) \<Rightarrow> 'a res \<Rightarrow> bool" where
  "safe F P r = (case r of Inl f \<Rightarrow> f \<in> F | Inr x \<Rightarrow> P x)"

lemma safe_simps [simp]: "safe F P (Inl f) \<longleftrightarrow> f \<in> F" "safe F P (Inr x) \<longleftrightarrow> P x"
  by (simp_all add: safe_def)

lemma safe_bind: "safe F P m \<Longrightarrow> (\<And>x. P x \<Longrightarrow> safe F Q (f x)) \<Longrightarrow> safe F Q (res_bind m f)"
  by (cases m) auto

lemma safe_mono: "safe F P r \<Longrightarrow> F \<subseteq> G \<Longrightarrow> (\<And>x. P x \<Longrightarrow> Q x) \<Longrightarrow> safe G Q r"
  by (cases r) auto

text \<open>
  Computations that may also not return: \<open>None\<close>.
\<close>

definition run_bind :: "'a res option \<Rightarrow> ('a \<Rightarrow> 'b res option) \<Rightarrow> 'b res option" where
  "run_bind m f = (case m of None \<Rightarrow> None | Some (Inl e) \<Rightarrow> Some (Inl e) | Some (Inr x) \<Rightarrow> f x)"

lemma run_bind_simps [simp]:
  "run_bind None f = None" "run_bind (Some (Inl e)) f = Some (Inl e)" "run_bind (Some (Inr x)) f = f x"
  by (simp_all add: run_bind_def)

lemma run_bind_Inr_iff:
  "run_bind m f = Some (Inr y) \<longleftrightarrow> (\<exists>x. m = Some (Inr x) \<and> f x = Some (Inr y))"
  by (auto simp: run_bind_def split: option.split sum.split)

section \<open>Reads through a slice\<close>

text \<open>
  \<^verbatim>\<open>p[i]\<close> for a slice \<open>p\<close>.  The index is an integer, so that an index below zero (the
  wrapped \<^verbatim>\<open>sz-2\<close> of a one-byte key) is outside the slice as well.
\<close>

definition rd :: "'a list \<Rightarrow> int \<Rightarrow> 'a res" where
  "rd b i = (if 0 \<le> i \<and> i < int (length b) then Inr (b ! nat i) else Inl OobRead)"

lemma rd_Inr_iff [res_simps]:
  "rd b i = Inr x \<longleftrightarrow> 0 \<le> i \<and> i < int (length b) \<and> x = b ! nat i"
  by (auto simp: rd_def)

lemma rd_in [simp]: "0 \<le> i \<Longrightarrow> i < int (length b) \<Longrightarrow> rd b i = Inr (b ! nat i)"
  by (simp add: rd_def)

lemma rd_out [simp]: "int (length b) \<le> i \<Longrightarrow> rd b i = Inl OobRead"
  by (simp add: rd_def)

lemma rd_neg [simp]: "i < 0 \<Longrightarrow> rd b i = Inl OobRead"
  by (simp add: rd_def)

lemma rd_Nil [simp]: "rd [] i = Inl OobRead"
  by (simp add: rd_def)

lemma rd_first [simp]: "rd (x # xs) 0 = Inr x"
  by (simp add: rd_def)

lemma rd_nonempty: "b \<noteq> [] \<Longrightarrow> rd b 0 = Inr (hd b)"
  by (cases b) simp_all

lemma safe_rd: "OobRead \<in> F \<Longrightarrow> safe F (\<lambda>x. x \<in> set b) (rd b i)"
  by (auto simp: rd_def intro!: nth_mem)

text \<open>Conversion of a \<^verbatim>\<open>size_t\<close> value to \<^verbatim>\<open>int\<close>: the low 32 bits, read as signed.\<close>

definition int_of_size :: "int \<Rightarrow> int" where
  "int_of_size n = sint (word_of_int n :: 32 word)"

lemma int_of_size_id: "- (2 ^ 31) \<le> n \<Longrightarrow> n < 2 ^ 31 \<Longrightarrow> int_of_size n = n"
  by (simp add: int_of_size_def int_word_sint)

section \<open>memcmp\<close>

fun memcmp_bytes :: "bytes \<Rightarrow> bytes \<Rightarrow> int" where
  "memcmp_bytes (x # xs) (y # ys) =
     (if x < y then -1 else if y < x then 1 else memcmp_bytes xs ys)"
| "memcmp_bytes _ _ = 0"

text \<open>\<^verbatim>\<open>memcmp(a, b, n)\<close>: both arguments must provide \<open>n\<close> bytes.\<close>

definition memcmp :: "bytes \<Rightarrow> bytes \<Rightarrow> nat \<Rightarrow> int res" where
  "memcmp a b n =
     (if length a < n \<or> length b < n then Inl OobRead
      else Inr (memcmp_bytes (take n a) (take n b)))"

lemma memcmp_bytes_zero: "length a = length b \<Longrightarrow> memcmp_bytes a b = 0 \<longleftrightarrow> a = b"
  by (induction a b rule: memcmp_bytes.induct) auto

lemma memcmp_bytes_neg: "length a = length b \<Longrightarrow> memcmp_bytes a b < 0 \<longleftrightarrow> a < b"
  by (induction a b rule: memcmp_bytes.induct) auto

lemma memcmp_bytes_pos: "length a = length b \<Longrightarrow> 0 < memcmp_bytes a b \<longleftrightarrow> b < a"
  by (induction a b rule: memcmp_bytes.induct) auto

lemma memcmp_Inr [simp]:
  "n \<le> length a \<Longrightarrow> n \<le> length b \<Longrightarrow> memcmp a b n = Inr (memcmp_bytes (take n a) (take n b))"
  by (simp add: memcmp_def)

lemma memcmp_short [simp]: "length b < n \<Longrightarrow> memcmp a b n = Inl OobRead"
  by (simp add: memcmp_def)

section \<open>std::to_string\<close>

fun dec_digits :: "nat \<Rightarrow> string" where
  "dec_digits n =
     (if n < 10 then [char_of (48 + n)] else dec_digits (n div 10) @ [char_of (48 + n mod 10)])"

declare dec_digits.simps [simp del]

definition to_string :: "int \<Rightarrow> string" where
  "to_string i = (if i < 0 then CHR ''-'' # dec_digits (nat (- i)) else dec_digits (nat i))"

lemma dec_digits_nonempty [simp]: "dec_digits n \<noteq> []"
  by (subst dec_digits.simps) simp

lemma to_string_nonempty [simp]: "to_string i \<noteq> []"
  by (simp add: to_string_def)

text \<open>Reading the digits back: \<open>dec_digits\<close> is injective.\<close>

definition digits_val :: "string \<Rightarrow> nat" where
  "digits_val s = foldl (\<lambda>a c. 10 * a + (of_char c - 48)) 0 s"

lemma digits_val_snoc: "digits_val (s @ [c]) = 10 * digits_val s + (of_char c - 48)"
  by (simp add: digits_val_def)

lemma digit_char: "d < 10 \<Longrightarrow> of_char (char_of (48 + d) :: char) = (48 + d :: nat)"
  by simp

lemma digits_val_dec_digits [simp]: "digits_val (dec_digits n) = n"
proof (induction n rule: dec_digits.induct)
  case (1 n)
  show ?case
  proof (cases "n < 10")
    case True
    then show ?thesis
      by (subst dec_digits.simps) (simp add: digits_val_def)
  next
    case False
    have "dec_digits n = dec_digits (n div 10) @ [char_of (48 + n mod 10)]"
      using False by (subst dec_digits.simps) simp
    moreover have "digits_val (dec_digits (n div 10)) = n div 10"
      using "1" False by blast
    ultimately show ?thesis
      by (simp add: digits_val_snoc)
  qed
qed

lemma dec_digits_inject: "dec_digits m = dec_digits n \<longleftrightarrow> m = n"
  by (metis digits_val_dec_digits)

lemma dec_digits_chars: "c \<in> set (dec_digits n) \<Longrightarrow> 48 \<le> (of_char c :: nat) \<and> (of_char c :: nat) < 58"
proof (induction n rule: dec_digits.induct)
  case (1 n)
  show ?case
  proof (cases "n < 10")
    case True
    then show ?thesis
      using "1.prems" by (subst (asm) dec_digits.simps) simp
  next
    case False
    have "n mod 10 < 10" by simp
    then show ?thesis
      using "1" False by (subst (asm) (2) dec_digits.simps) auto
  qed
qed

section \<open>Generic facts on lists\<close>

lemma take_eq_prefix: "take (length p) k = p \<longleftrightarrow> prefix p k"
  by (metis append_take_drop_id prefixI prefixE append_eq_conv_conj)

lemma takeWhile_append_all: "\<forall>x \<in> set xs. P x \<Longrightarrow> takeWhile P (xs @ ys) = xs @ takeWhile P ys"
  by (induction xs) auto

lemma tl_drop_Suc: "tl (drop n xs) = drop (Suc n) xs"
  by (simp add: drop_Suc tl_drop)

lemma rev_take_Suc: "i < length xs \<Longrightarrow> rev (take (Suc i) xs) = xs ! i # rev (take i xs)"
  by (simp add: take_Suc_conv_app_nth)

end
