(* ===== verification/Keys.thy ===== *)
theory Keys
  imports Prelude
begin

text \<open>
  Keys: the enumerations of \<^verbatim>\<open>ndb.h\<close>, the field extraction \<^verbatim>\<open>extractKeyParts\<close> of
  \<^verbatim>\<open>manager.cc\<close> and the row filter \<^verbatim>\<open>ndbEntityBytesFromSlice\<close> of \<^verbatim>\<open>ndb.cc\<close>.  The layout
  they decode (the comments of both functions and \<^verbatim>\<open>doc.md\<close>) is stated as an encoder,
  \<open>key_bytes\<close> and \<open>index_row\<close>, and the lemmas show that the two decoders invert it.
\<close>

section \<open>Enumerations\<close>

datatype EntryType = E_METADATA | E_DATA | E_INDEXROW

fun EntryType_val :: "EntryType \<Rightarrow> u8" where
  "EntryType_val E_METADATA = 1"
| "EntryType_val E_DATA = 2"
| "EntryType_val E_INDEXROW = 3"

datatype Discriminator = D_INDEX | D_ENTITY | D_IDGEN

fun Discriminator_val :: "Discriminator \<Rightarrow> u8" where
  "Discriminator_val D_INDEX = 1"
| "Discriminator_val D_ENTITY = 2"
| "Discriminator_val D_IDGEN = 3"

text \<open>The \<^verbatim>\<open>switch\<close> on a discriminator: the enumerator, or none (the default case).\<close>

definition Discriminator_of :: "u8 \<Rightarrow> Discriminator option" where
  "Discriminator_of d =
     (if d = 1 then Some D_INDEX else if d = 2 then Some D_ENTITY
      else if d = 3 then Some D_IDGEN else None)"

datatype QueryFilterOp = F_EQ | F_GTE | F_GT | F_LTE | F_LT

fun QueryFilterOp_val :: "QueryFilterOp \<Rightarrow> u8" where
  "QueryFilterOp_val F_EQ = 1"
| "QueryFilterOp_val F_GTE = 2"
| "QueryFilterOp_val F_GT = 3"
| "QueryFilterOp_val F_LTE = 4"
| "QueryFilterOp_val F_LT = 5"

definition QueryFilterOp_of :: "u8 \<Rightarrow> QueryFilterOp option" where
  "QueryFilterOp_of b =
     (if b = 1 then Some F_EQ else if b = 2 then Some F_GTE else if b = 3 then Some F_GT
      else if b = 4 then Some F_LTE else if b = 5 then Some F_LT else None)"

declare Discriminator_val.simps [simp del]

lemma Discriminator_of_val [simp]: "Discriminator_of (Discriminator_val d) = Some d"
  by (cases d) (simp_all add: Discriminator_of_def Discriminator_val.simps)

declare QueryFilterOp_val.simps [simp del]

lemma QueryFilterOp_of_val [simp]: "QueryFilterOp_of (QueryFilterOp_val f) = Some f"
  by (cases f) (simp_all add: QueryFilterOp_of_def QueryFilterOp_val.simps)

lemma Discriminator_of_Some: "Discriminator_of b = Some d \<longleftrightarrow> b = Discriminator_val d"
  by (cases d) (auto simp: Discriminator_of_def Discriminator_val.simps split: if_splits)

text \<open>The enumerators are ordered by their values, as the C++ enumerators are.\<close>

instantiation QueryFilterOp :: linorder
begin

definition less_eq_QueryFilterOp :: "QueryFilterOp \<Rightarrow> QueryFilterOp \<Rightarrow> bool" where
  "less_eq_QueryFilterOp a b \<longleftrightarrow> QueryFilterOp_val a \<le> QueryFilterOp_val b"

definition less_QueryFilterOp :: "QueryFilterOp \<Rightarrow> QueryFilterOp \<Rightarrow> bool" where
  "less_QueryFilterOp a b \<longleftrightarrow> QueryFilterOp_val a < QueryFilterOp_val b"

instance
proof
  fix a b :: QueryFilterOp
  show "a \<le> b \<Longrightarrow> b \<le> a \<Longrightarrow> a = b"
    by (metis QueryFilterOp_of_val less_eq_QueryFilterOp_def order_antisym option.inject)
qed (auto simp: less_eq_QueryFilterOp_def less_QueryFilterOp_def)

end

lemma QueryFilterOp_order:
  "op \<le> F_GT \<longleftrightarrow> op = F_EQ \<or> op = F_GTE \<or> op = F_GT"
  "F_LTE \<le> op \<longleftrightarrow> op = F_LTE \<or> op = F_LT"
  by (cases op; simp add: less_eq_QueryFilterOp_def QueryFilterOp_val.simps word_le_nat_alt)+

section \<open>extractKeyParts\<close>

text \<open>
  The out parameters of \<^verbatim>\<open>extractKeyParts\<close>.  A field the function does not write stays
  uninitialised in the caller, which is \<open>None\<close> here.
\<close>

record key_parts =
  kp_discrim :: u8
  kp_shardid :: "u16 option"
  kp_indexid :: "u8 option"
  kp_rootkindid :: "u8 option"
  kp_kindid :: "u8 option"
  kp_shapeid :: "u8 option"

definition shard_of :: "u8 \<Rightarrow> u8 \<Rightarrow> u16" where
  "shard_of b0 b1 = (push_bit 8 (ucast (0x0f AND b0)) OR ucast b1)"

definition extractKeyParts :: "bytes \<Rightarrow> key_parts res" where
  "extractKeyParts ikey =
     (let sz = int (length ikey) in
      res_bind (rd ikey 0) (\<lambda>b0.
      let discrim = drop_bit 4 b0;
          none = \<lparr>kp_discrim = discrim, kp_shardid = None, kp_indexid = None,
                  kp_rootkindid = None, kp_kindid = None, kp_shapeid = None\<rparr>
      in case Discriminator_of discrim of
           Some D_INDEX \<Rightarrow>
             res_bind (rd ikey 1) (\<lambda>b1.
             res_bind (rd ikey 2) (\<lambda>b2.
             Inr (none\<lparr>kp_kindid := Some b1, kp_indexid := Some b2\<rparr>)))
         | Some _ \<Rightarrow>
             res_bind (rd ikey 1) (\<lambda>b1.
             res_bind (rd ikey 6) (\<lambda>b6.
             res_bind (rd ikey (sz - 2)) (\<lambda>bk.
             res_bind (rd ikey (sz - 1)) (\<lambda>bs.
             Inr (none\<lparr>kp_shardid := Some (shard_of b0 b1), kp_rootkindid := Some b6,
                       kp_kindid := Some bk, kp_shapeid := Some (drop_bit 3 bs)\<rparr>)))))
         | None \<Rightarrow> Inr none))"

section \<open>ndbEntityBytesFromSlice\<close>

text \<open>
  The backward search of an index row for the zero byte in front of the entity key: it looks
  at the bytes \<open>sz-9\<close>, \<open>sz-17\<close>, \<dots> and gives the length of what follows the first zero, or
  \<open>el\<close> (the whole row) when there is none.
\<close>

function index_scan :: "bytes \<Rightarrow> int \<Rightarrow> nat \<Rightarrow> nat res" where
  "index_scan ikey j el =
     (if j < 0 then Inr el
      else res_bind (rd ikey j) (\<lambda>b.
             if b = 0 then Inr (nat (int (length ikey) - j - 1))
             else index_scan ikey (j - 8) el))"
  by pat_completeness auto
termination
  by (relation "measure (\<lambda>(ikey, j, el). nat (j + 1))") auto

declare index_scan.simps [simp del]

text \<open>
  The filter of an entity row: true when the row is to be skipped.  The three conditions are
  evaluated in the order of the code, so \<^verbatim>\<open>ikey[sz-2]\<close> is read only for a nonzero kind.
\<close>

definition entity_mismatch :: "bytes \<Rightarrow> u8 \<Rightarrow> u8 \<Rightarrow> bool res" where
  "entity_mismatch ikey kindid shapeid =
     (let sz = int (length ikey) in
      res_bind (rd ikey (sz - 1)) (\<lambda>lst.
      if (0x07 AND lst) \<noteq> EntryType_val E_DATA then Inr True
      else if shapeid \<noteq> 0 \<and> shapeid \<noteq> drop_bit 3 lst then Inr True
      else if kindid \<noteq> 0 then res_bind (rd ikey (sz - 2)) (\<lambda>k. Inr (kindid \<noteq> k))
      else Inr False))"

definition ndbEntityBytesFromSlice :: "bytes \<Rightarrow> u8 \<Rightarrow> u8 \<Rightarrow> bytes res" where
  "ndbEntityBytesFromSlice ikey kindid shapeid =
     (let sz = length ikey in
      res_bind (rd ikey 0) (\<lambda>b0.
      case Discriminator_of (drop_bit 4 b0) of
        Some D_INDEX \<Rightarrow>
          res_bind (index_scan ikey (int_of_size (int sz - 1 - 8)) sz) (\<lambda>el.
          Inr (drop (sz - el) ikey))
      | Some D_ENTITY \<Rightarrow>
          res_bind (entity_mismatch ikey kindid shapeid) (\<lambda>skip.
          Inr (if skip then [] else ikey))
      | _ \<Rightarrow> Inr ikey))"

section \<open>The layout of a key\<close>

text \<open>
  A key is a sequence of 8-byte chunks, from the root ancestor to the entity itself.  Byte 6 of
  a chunk is the kind, byte 7 holds the shape (upper five bits) and the entry type (lower
  three); the first chunk starts with the discriminator (upper nibble) and the 12-bit shard.
\<close>

record key_chunk =
  ck_body :: bytes
  ck_kind :: u8
  ck_tail :: u8

definition chunk_bytes :: "key_chunk \<Rightarrow> bytes" where
  "chunk_bytes c = ck_body c @ [ck_kind c, ck_tail c]"

definition wf_chunk :: "key_chunk \<Rightarrow> bool" where
  "wf_chunk c \<longleftrightarrow> length (ck_body c) = 6"

definition key_bytes :: "key_chunk list \<Rightarrow> bytes" where
  "key_bytes cs = concat (map chunk_bytes cs)"

definition key_head :: "Discriminator \<Rightarrow> u16 \<Rightarrow> bytes" where
  "key_head d shard =
     [push_bit 4 (Discriminator_val d) OR ucast (drop_bit 8 shard), ucast shard]"

definition tail_byte :: "u8 \<Rightarrow> EntryType \<Rightarrow> u8" where
  "tail_byte shape et = (push_bit 3 shape OR EntryType_val et)"

text \<open>An index row: its own bytes, a zero byte, the key of the entity it points to.\<close>

definition index_row :: "bytes \<Rightarrow> key_chunk list \<Rightarrow> bytes" where
  "index_row pre cs = pre @ [0] @ key_bytes cs"

lemma length_chunk_bytes [simp]: "wf_chunk c \<Longrightarrow> length (chunk_bytes c) = 8"
  by (simp add: chunk_bytes_def wf_chunk_def)

lemma key_bytes_simps [simp]:
  "key_bytes [] = []"
  "key_bytes (c # cs) = chunk_bytes c @ key_bytes cs"
  "key_bytes (as @ bs) = key_bytes as @ key_bytes bs"
  by (simp_all add: key_bytes_def)

lemma length_key_bytes [simp]:
  "\<forall>c \<in> set cs. wf_chunk c \<Longrightarrow> length (key_bytes cs) = 8 * length cs"
  by (induction cs) auto

section \<open>Bits of the fields\<close>

lemma short_word_bit: "take_bit n (w :: 'a::len word) = w \<Longrightarrow> n \<le> m \<Longrightarrow> \<not> bit w m"
  by (metis bit_take_bit_iff linorder_not_less)

lemma bit_numerals [simp]:
  "bit (3 :: int) n \<longleftrightarrow> n < 2" "bit (7 :: int) n \<longleftrightarrow> n < 3" "bit (15 :: int) n \<longleftrightarrow> n < 4"
proof -
  have m: "(3::int) = mask 2" "(7::int) = mask 3" "(15::int) = mask 4"
    by (simp_all add: mask_eq_exp_minus_1)
  show "bit (3 :: int) n \<longleftrightarrow> n < 2" "bit (7 :: int) n \<longleftrightarrow> n < 3" "bit (15 :: int) n \<longleftrightarrow> n < 4"
    unfolding m by (auto simp: bit_mask_iff)
qed

lemma key_head_discrim:
  assumes "take_bit 12 shard = shard"
  shows "drop_bit 4 (push_bit 4 (Discriminator_val d) OR ucast (drop_bit 8 shard) :: u8)
           = Discriminator_val d"
  using short_word_bit [OF assms]
  by (cases d) (auto simp: Discriminator_val.simps bit_simps intro!: bit_word_eqI)

lemma shard_of_key_head:
  assumes "take_bit 12 shard = shard"
  shows "shard_of (push_bit 4 (Discriminator_val d) OR ucast (drop_bit 8 shard)) (ucast shard)
           = shard"
proof (rule bit_word_eqI)
  fix n assume "n < LENGTH(16)"
  moreover have "bit shard n \<Longrightarrow> n < 12"
    using short_word_bit [OF assms] by (meson not_le_imp_less)
  ultimately show "bit (shard_of (push_bit 4 (Discriminator_val d) OR ucast (drop_bit 8 shard))
      (ucast shard)) n = bit shard n"
    by (auto simp: shard_of_def bit_simps)
qed

lemma tail_byte_shape:
  assumes "take_bit 5 shape = shape"
  shows "drop_bit 3 (tail_byte shape et) = shape"
proof (rule bit_word_eqI)
  fix n assume "n < LENGTH(8)"
  moreover have "bit shape n \<Longrightarrow> n < 5"
    using short_word_bit [OF assms] by (meson not_le_imp_less)
  ultimately show "bit (drop_bit 3 (tail_byte shape et)) n \<longleftrightarrow> bit shape n"
    by (cases et) (auto simp: tail_byte_def bit_simps)
qed

lemma tail_byte_type: "(7 AND tail_byte shape et) = EntryType_val et"
  by (rule bit_word_eqI) (cases et; auto simp: tail_byte_def bit_simps)

lemma tail_byte_nonzero [simp]: "tail_byte shape et \<noteq> 0"
proof
  assume "tail_byte shape et = 0"
  then have "EntryType_val et = 0"
    using tail_byte_type [of shape et] by simp
  then show False by (cases et) simp_all
qed

section \<open>The decoders invert the layout\<close>


lemma key_bytes_last:
  assumes "cs \<noteq> []"
  shows "key_bytes cs = key_bytes (butlast cs) @ ck_body (last cs) @ [ck_kind (last cs), ck_tail (last cs)]"
proof -
  have "key_bytes cs = key_bytes (butlast cs @ [last cs])"
    using assms by simp
  then show ?thesis
    by (simp add: chunk_bytes_def del: append_butlast_last_id)
qed

lemma rd_kind_tail:
  assumes "cs \<noteq> []"
  shows "rd (key_bytes cs) (int (length (key_bytes cs)) - 2) = Inr (ck_kind (last cs))"
    and "rd (key_bytes cs) (int (length (key_bytes cs)) - 1) = Inr (ck_tail (last cs))"
  by (simp_all add: key_bytes_last [OF assms] rd_def nth_append nat_diff_distrib' nat_add_distrib)

lemma extractKeyParts_entity:
  assumes "d = D_ENTITY \<or> d = D_IDGEN" and "\<forall>c \<in> set (c # rest). wf_chunk c"
    and "ck_body c = key_head d shard @ a" and "take_bit 12 shard = shard"
  shows "extractKeyParts (key_bytes (c # rest)) =
    Inr \<lparr>kp_discrim = Discriminator_val d, kp_shardid = Some shard, kp_indexid = None,
         kp_rootkindid = Some (ck_kind c), kp_kindid = Some (ck_kind (last (c # rest))),
         kp_shapeid = Some (drop_bit 3 (ck_tail (last (c # rest))))\<rparr>"
proof -
  let ?k = "key_bytes (c # rest)"
  have b: "length a = 4"
    using assms(2,3) by (simp add: wf_chunk_def key_head_def)
  obtain b0 where b0: "b0 = (push_bit 4 (Discriminator_val d) OR ucast (drop_bit 8 shard) :: u8)"
    by simp
  then have "rd ?k 0 = Inr b0" "rd ?k 1 = Inr (ucast shard)" "rd ?k 6 = Inr (ck_kind c)"
    using b assms(3) by (simp_all add: chunk_bytes_def key_head_def rd_def nth_append)
  moreover have "drop_bit 4 b0 = Discriminator_val d" "shard_of b0 (ucast shard) = shard"
    unfolding b0 by (rule key_head_discrim [OF assms(4)] shard_of_key_head [OF assms(4)])+
  ultimately show ?thesis
    using assms(1) rd_kind_tail [of "c # rest"]
    unfolding extractKeyParts_def Let_def by (auto simp del: key_bytes_simps)
qed

lemma index_scan_total:
  "j < int (length k) \<Longrightarrow> el \<le> length k \<Longrightarrow> \<exists>el'. index_scan k j el = Inr el' \<and> el' \<le> length k"
proof (induction k j el rule: index_scan.induct)
  case (1 k j el)
  then show ?case
    by (subst index_scan.simps) auto
qed

lemma index_scan_chunks:
  assumes "\<forall>c \<in> set (as @ bs). wf_chunk c" and "\<forall>c \<in> set as. ck_tail c \<noteq> 0"
    and "row = pre @ [0] @ key_bytes as @ key_bytes bs"
  shows "index_scan row (int (length row) - 1 - 8 * int (length bs)) el
           = Inr (8 * (length as + length bs))"
  using assms
proof (induction as arbitrary: bs rule: rev_induct)
  case Nil
  then show ?case
    by (subst index_scan.simps) (auto simp: nth_append)
next
  case (snoc a as)
  let ?j = "int (length row) - 1 - 8 * int (length bs)"
  have row: "row = (pre @ [0] @ key_bytes as @ ck_body a @ [ck_kind a]) @ [ck_tail a] @ key_bytes bs"
    using snoc.prems(3) by (simp add: chunk_bytes_def)
  have wfa: "length (ck_body a) = 6" and wfb: "\<forall>c \<in> set bs. wf_chunk c"
    using snoc.prems(1) by (simp_all add: wf_chunk_def)
  have "nat ?j = length (pre @ [0] @ key_bytes as @ ck_body a @ [ck_kind a])"
    using wfb by (simp add: row)
  then have rd: "rd row ?j = Inr (ck_tail a)" and "0 \<le> ?j"
    using wfb by (simp_all add: row rd_def nth_append)
  have "index_scan row ?j el = index_scan row (?j - 8) el"
    using rd \<open>0 \<le> ?j\<close> snoc.prems(2) by (subst index_scan.simps) simp
  also have "?j - 8 = int (length row) - 1 - 8 * int (length (a # bs))"
    by simp
  also have "index_scan row \<dots> el = Inr (8 * (length as + length (a # bs)))"
    using snoc.prems by (intro snoc.IH) auto
  finally show ?case by simp
qed

lemma ndbEntityBytes_index_row:
  assumes "\<forall>c \<in> set cs. wf_chunk c" and "cs \<noteq> []" and "\<forall>c \<in> set (butlast cs). ck_tail c \<noteq> 0"
    and "pre \<noteq> []" and "drop_bit 4 (hd pre) = Discriminator_val D_INDEX"
    and "length (index_row pre cs) < 2 ^ 31"
  shows "ndbEntityBytesFromSlice (index_row pre cs) kindid shapeid = Inr (key_bytes cs)"
proof -
  let ?row = "index_row pre cs"
  have cs: "butlast cs @ [last cs] = cs" using assms(2) by simp
  have row: "?row = pre @ [0] @ key_bytes (butlast cs) @ key_bytes [last cs]"
    unfolding index_row_def by (subst cs [symmetric]) (simp only: key_bytes_simps)
  have len: "length ?row = length pre + 1 + 8 * length cs"
    using assms(1) by (simp add: index_row_def)
  have "index_scan ?row (int (length ?row) - 1 - 8 * int (length [last cs])) (length ?row)
      = Inr (8 * (length (butlast cs) + length [last cs]))"
    using assms(1,3) row by (intro index_scan_chunks) (auto dest: in_set_butlastD simp: assms(2))
  then have "index_scan ?row (int (length ?row) - 1 - 8) (length ?row) = Inr (8 * length cs)"
    using assms(2) by (simp add: algebra_simps flip: length_append)
  moreover have "int_of_size (int (length ?row) - 1 - 8) = int (length ?row) - 1 - 8"
    using assms(6) by (intro int_of_size_id) auto
  moreover have "rd ?row 0 = Inr (hd pre)"
    using assms(4) by (simp add: index_row_def rd_def nth_append hd_conv_nth)
  moreover have "drop (length ?row - 8 * length cs) ?row = key_bytes cs"
    unfolding len by (simp add: index_row_def)
  ultimately show ?thesis
    using assms(5) by (simp add: ndbEntityBytesFromSlice_def Let_def)
qed

lemma ndbEntityBytes_entity:
  assumes "cs \<noteq> []" and "drop_bit 4 (hd (key_bytes cs)) = Discriminator_val D_ENTITY"
    and "ck_tail (last cs) = tail_byte shape et" and "take_bit 5 shape = shape"
  shows "ndbEntityBytesFromSlice (key_bytes cs) kindid shapeid =
    Inr (if et = E_DATA \<and> (shapeid = 0 \<or> shapeid = shape)
            \<and> (kindid = 0 \<or> kindid = ck_kind (last cs))
         then key_bytes cs else [])"
proof -
  have "key_bytes cs \<noteq> []"
    by (simp add: key_bytes_last [OF assms(1)])
  then have "rd (key_bytes cs) 0 = Inr (hd (key_bytes cs))"
    by (rule rd_nonempty)
  moreover have "EntryType_val et = EntryType_val E_DATA \<longleftrightarrow> et = E_DATA"
    by (cases et) simp_all
  ultimately show ?thesis
    using rd_kind_tail [OF assms(1)] assms(2,3)
    by (auto simp: ndbEntityBytesFromSlice_def Let_def entity_mismatch_def tail_byte_type
        tail_byte_shape [OF assms(4)] simp del: EntryType_val.simps)
qed

lemma int_of_size_le: "-9 \<le> n \<Longrightarrow> int_of_size n \<le> max n 0"
proof (cases "0 \<le> n")
  case True
  then have "(n + 2 ^ 31) mod 2 ^ 32 \<le> n + 2 ^ 31"
    by (intro zmod_le_nonneg_dividend) simp
  with True show ?thesis
    by (simp add: int_of_size_def int_word_sint)
next
  case False
  moreover assume "-9 \<le> n"
  ultimately show ?thesis
    by (simp add: int_of_size_id)
qed

lemma entity_mismatch_total:
  assumes "2 \<le> length k"
  shows "\<exists>b. entity_mismatch k kindid shapeid = Inr b"
proof -
  have "rd k (int (length k) - 1) = Inr (k ! nat (int (length k) - 1))"
    and "rd k (int (length k) - 2) = Inr (k ! nat (int (length k) - 2))"
    using assms by (auto intro!: rd_in)
  then show ?thesis
    by (auto simp add: entity_mismatch_def Let_def)
qed

text \<open>On a key of at least two bytes the row filter reads inside the key, and gives a suffix of it.\<close>

lemma ndbEntityBytes_total:
  assumes "2 \<le> length k"
  shows "\<exists>e. ndbEntityBytesFromSlice k kindid shapeid = Inr e \<and> suffix e k"
proof -
  have "k \<noteq> []" using assms by auto
  then have 0: "rd k 0 = Inr (hd k)" by (rule rd_nonempty)
  have "int_of_size (int (length k) - 1 - 8) < int (length k)"
    using int_of_size_le [of "int (length k) - 9"] assms by simp
  then obtain el where "index_scan k (int_of_size (int (length k) - 1 - 8)) (length k) = Inr el"
    using index_scan_total by blast
  moreover obtain b where "entity_mismatch k kindid shapeid = Inr b"
    using entity_mismatch_total [OF assms] by blast
  ultimately show ?thesis
    using 0 by (auto simp: ndbEntityBytesFromSlice_def Let_def suffix_drop
        split: option.splits Discriminator.splits)
qed

section \<open>Field ranges and reads\<close>

lemma unat_below: "take_bit n (w :: 'a::len word) = w \<Longrightarrow> unat w < 2 ^ n"
  by (metis take_bit_nat_less_exp unsigned_take_bit_eq)

lemma take_bit_self: "unat (w :: 'a::len word) < 2 ^ n \<Longrightarrow> take_bit n w = w"
  by (simp add: word_unat_eq_iff unsigned_take_bit_eq take_bit_nat_eq_self)

lemma shard_of_bound: "unat (shard_of b0 b1) < 4096"
proof -
  have "take_bit 12 (shard_of b0 b1) = shard_of b0 b1"
    by (rule bit_word_eqI) (auto simp: shard_of_def bit_simps dest: bit_imp_le_length)
  then show ?thesis using unat_below by fastforce
qed

lemma drop_bit_u8_bound: "unat (drop_bit 4 (b :: u8)) < 16" "unat (drop_bit 3 (b :: u8)) < 32"
proof -
  have "take_bit 4 (drop_bit 4 b) = drop_bit 4 b"
    by (rule bit_word_eqI) (auto simp: bit_simps dest: bit_imp_le_length)
  moreover have "take_bit 5 (drop_bit 3 b) = drop_bit 3 b"
    by (rule bit_word_eqI) (auto simp: bit_simps dest: bit_imp_le_length)
  ultimately show "unat (drop_bit 4 b) < 16" "unat (drop_bit 3 b) < 32"
    using unat_below by fastforce+
qed

lemma extractKeyParts_cases:
  assumes "k \<noteq> []"
  shows "Discriminator_of (drop_bit 4 (hd k)) = None \<Longrightarrow> \<exists>p. extractKeyParts k = Inr p"
    and "Discriminator_of (drop_bit 4 (hd k)) = Some D_INDEX \<Longrightarrow>
      extractKeyParts k = Inl OobRead \<longleftrightarrow> length k < 3"
    and "Discriminator_of (drop_bit 4 (hd k)) = Some d \<Longrightarrow> d \<noteq> D_INDEX \<Longrightarrow>
      extractKeyParts k = Inl OobRead \<longleftrightarrow> length k < 7"
  using assms
  by (auto simp: extractKeyParts_def Let_def rd_def res_bind_def hd_conv_nth
      split: Discriminator.splits)

text \<open>C34. Round trip of the entity keys: \<^verbatim>\<open>extractKeyParts\<close> gives back the discriminator,
  the shard, the kind of the root chunk, and the kind and shape of the last chunk of any
  entity or id-generator key of the documented layout.\<close>

theorem extractKeyParts_roundtrip:
  assumes "d = D_ENTITY \<or> d = D_IDGEN" and "\<forall>c \<in> set (c # rest). wf_chunk c"
    and "ck_body c = key_head d shard @ a" and "unat shard < 4096"
    and "ck_tail (last (c # rest)) = tail_byte shape et" and "unat shape < 32"
  shows "extractKeyParts (key_bytes (c # rest)) =
    Inr \<lparr>kp_discrim = Discriminator_val d, kp_shardid = Some shard, kp_indexid = None,
         kp_rootkindid = Some (ck_kind c), kp_kindid = Some (ck_kind (last (c # rest))),
         kp_shapeid = Some shape\<rparr>"
proof -
  have "take_bit 12 shard = shard" "take_bit 5 shape = shape"
    using assms(4,6) by (auto intro: take_bit_self)
  then show ?thesis
    using extractKeyParts_entity [OF assms(1-3)] tail_byte_shape assms(5) by simp
qed

theorem extractKeyParts_roundtrip_witness:
  "extractKeyParts [0x20, 5, 0, 0, 0, 9, 17, 10, 0, 0, 0, 0, 0, 3, 21, 26] =
    Inr \<lparr>kp_discrim = 2, kp_shardid = Some 5, kp_indexid = None,
         kp_rootkindid = Some 17, kp_kindid = Some 21, kp_shapeid = Some 3\<rparr>"
  using extractKeyParts_roundtrip
    [of D_ENTITY "\<lparr>ck_body = [0x20, 5, 0, 0, 0, 9], ck_kind = 17, ck_tail = 10\<rparr>"
        "[\<lparr>ck_body = [0, 0, 0, 0, 0, 3], ck_kind = 21, ck_tail = 26\<rparr>]" 5 "[0, 0, 0, 9]" 3 E_DATA]
  by (simp add: wf_chunk_def key_head_def tail_byte_def chunk_bytes_def Discriminator_val.simps)

text \<open>C35. Round trip of the index rows: from any row made of its own bytes, a zero byte and an
  entity key whose ancestor chunks end in a nonzero byte, the backward search of
  \<^verbatim>\<open>ndbEntityBytesFromSlice\<close> gives back exactly the entity key, whatever the kind and shape
  asked for.\<close>

theorem index_row_roundtrip:
  assumes "\<forall>c \<in> set cs. wf_chunk c" and "cs \<noteq> []" and "\<forall>c \<in> set (butlast cs). ck_tail c \<noteq> 0"
    and "pre \<noteq> []" and "drop_bit 4 (hd pre) = Discriminator_val D_INDEX"
    and "length (index_row pre cs) < 2 ^ 31"
  shows "ndbEntityBytesFromSlice (index_row pre cs) kindid shapeid = Inr (key_bytes cs)"
  using assms by (rule ndbEntityBytes_index_row)

theorem index_row_roundtrip_witness:
  "ndbEntityBytesFromSlice ([0x10, 17, 73, 65, 66] @ [0] @ [0x20, 5, 0, 0, 0, 9, 17, 10]) 9 9 =
     Inr [0x20, 5, 0, 0, 0, 9, 17, 10]"
  using index_row_roundtrip
    [of "[\<lparr>ck_body = [0x20, 5, 0, 0, 0, 9], ck_kind = 17, ck_tail = 10\<rparr>]"
        "[0x10, 17, 73, 65, 66]" 9 9]
  by (simp add: wf_chunk_def chunk_bytes_def index_row_def Discriminator_val.simps)

text \<open>The entity filter: for an entity key of the documented layout the row filter gives
  the whole key when its entry type is data and the shape and kind asked for (zero means any)
  are its own, and the empty slice in every other case.\<close>

theorem entity_row_filter:
  assumes "cs \<noteq> []" and "drop_bit 4 (hd (key_bytes cs)) = Discriminator_val D_ENTITY"
    and "ck_tail (last cs) = tail_byte shape et" and "unat shape < 32"
  shows "ndbEntityBytesFromSlice (key_bytes cs) kindid shapeid =
    Inr (if et = E_DATA \<and> shapeid \<in> {0, shape} \<and> kindid \<in> {0, ck_kind (last cs)}
         then key_bytes cs else [])"
proof -
  have "take_bit 5 shape = shape"
    using assms(4) by (auto intro: take_bit_self)
  then show ?thesis
    using ndbEntityBytes_entity [OF assms(1-3)] by auto
qed

theorem entity_row_filter_witness:
  "ndbEntityBytesFromSlice [0x20, 5, 0, 0, 0, 9, 17, 10] 17 0 = Inr [0x20, 5, 0, 0, 0, 9, 17, 10]
   \<and> ndbEntityBytesFromSlice [0x20, 5, 0, 0, 0, 9, 17, 10] 18 0 = Inr []"
  using entity_row_filter
    [of "[\<lparr>ck_body = [0x20, 5, 0, 0, 0, 9], ck_kind = 17, ck_tail = 10\<rparr>]" 1 E_DATA 17 0]
    entity_row_filter
    [of "[\<lparr>ck_body = [0x20, 5, 0, 0, 0, 9], ck_kind = 17, ck_tail = 10\<rparr>]" 1 E_DATA 18 0]
  by (simp add: chunk_bytes_def tail_byte_def Discriminator_val.simps)

text \<open>Reads of \<^verbatim>\<open>extractKeyParts\<close>: it reads outside the key exactly for the empty key,
  for an index key of fewer than three bytes and for an entity or id-generator key of fewer
  than seven; and the fields it gives are in range: a discriminator below 16, a shard below
  4096, a shape below 32.\<close>

theorem extractKeyParts_reads:
  "(extractKeyParts k = Inl OobRead \<longleftrightarrow>
      k = [] \<or> length k < (case Discriminator_of (drop_bit 4 (hd k)) of
                   None \<Rightarrow> 1 | Some D_INDEX \<Rightarrow> 3 | Some D_ENTITY \<Rightarrow> 7 | Some D_IDGEN \<Rightarrow> 7))
   \<and> (case extractKeyParts k of Inl e \<Rightarrow> e = OobRead
      | Inr p \<Rightarrow> unat (kp_discrim p) < 16
             \<and> (case kp_shardid p of None \<Rightarrow> True | Some s \<Rightarrow> unat s < 4096)
             \<and> (case kp_shapeid p of None \<Rightarrow> True | Some s \<Rightarrow> unat s < 32))"
proof (intro conjI)
  show "extractKeyParts k = Inl OobRead \<longleftrightarrow>
      k = [] \<or> length k < (case Discriminator_of (drop_bit 4 (hd k)) of
                   None \<Rightarrow> 1 | Some D_INDEX \<Rightarrow> 3 | Some D_ENTITY \<Rightarrow> 7 | Some D_IDGEN \<Rightarrow> 7)"
  proof (cases "k = []")
    case True
    then show ?thesis by (simp add: extractKeyParts_def)
  next
    case False
    then show ?thesis
      using extractKeyParts_cases [OF False]
      by (fastforce split: option.splits Discriminator.splits)
  qed
next
  show "case extractKeyParts k of Inl e \<Rightarrow> e = OobRead
      | Inr p \<Rightarrow> unat (kp_discrim p) < 16
             \<and> (case kp_shardid p of None \<Rightarrow> True | Some s \<Rightarrow> unat s < 4096)
             \<and> (case kp_shapeid p of None \<Rightarrow> True | Some s \<Rightarrow> unat s < 32)"
    by (auto simp: extractKeyParts_def Let_def rd_def res_bind_def shard_of_bound drop_bit_u8_bound
        split: option.splits Discriminator.splits)
qed

end
