(* ===== verification/RocksDB.thy ===== *)
theory RocksDB
  imports Prelude
begin

text \<open>
  The part of the RocksDB library the code calls.  RocksDB is not under \<^verbatim>\<open>src/\<close>, so it is a
  parameter of the model: a record of the operations the code uses, over an arbitrary type
  \<open>'d\<close> of database states and \<open>'it\<close> of iterators.  What the code relies on is stated as the
  predicates \<open>iterator_laws\<close> and \<open>db_laws\<close>, which a property names as a hypothesis when it
  needs them.  The last section gives one store that satisfies the laws (a sorted association
  list), for the witnesses.
\<close>

section \<open>Operations\<close>

text \<open>\<^verbatim>\<open>leveldb::Status\<close>: what \<^verbatim>\<open>ok()\<close>, \<^verbatim>\<open>IsNotFound()\<close> and \<^verbatim>\<open>ToString()\<close> return.\<close>

record status =
  st_ok :: bool
  st_not_found :: bool
  st_string :: string

definition status_wf :: "status \<Rightarrow> bool" where
  "status_wf s \<longleftrightarrow> st_string s \<noteq> [] \<and> \<not> (st_ok s \<and> st_not_found s)"

text \<open>\<^verbatim>\<open>leveldb::Iterator\<close>; every operation gives the iterator after it.\<close>

record 'it iterator =
  it_seek :: "bytes \<Rightarrow> 'it \<Rightarrow> 'it"
  it_next :: "'it \<Rightarrow> 'it"
  it_prev :: "'it \<Rightarrow> 'it"
  it_valid :: "'it \<Rightarrow> bool"
  it_key :: "'it \<Rightarrow> bytes"
  it_value :: "'it \<Rightarrow> bytes"
  it_status :: "'it \<Rightarrow> status"

datatype batch_op = Put bytes bytes | Delete bytes

text \<open>
  \<^verbatim>\<open>leveldb::DB\<close> with the read and write options the code passes.  \<open>db_get\<close> gives the status
  and what was stored in the string argument; \<open>db_multiget\<close> the statuses and values.
\<close>

record ('d, 'it) rocksdb = "'it iterator" +
  db_get :: "'d \<Rightarrow> bytes \<Rightarrow> status \<times> bytes"
  db_multiget :: "'d \<Rightarrow> bytes list \<Rightarrow> (status \<times> bytes) list"
  db_put :: "'d \<Rightarrow> bytes \<Rightarrow> bytes \<Rightarrow> status \<times> 'd"
  db_write :: "'d \<Rightarrow> batch_op list \<Rightarrow> status \<times> 'd"
  db_new_iterator :: "'d \<Rightarrow> 'it"

section \<open>Documented behaviour\<close>

text \<open>
  An iterator walks a fixed snapshot, a list of entries in strictly increasing key order, and
  stands on one of them or is invalid (\<open>pos\<close>).  \<open>Seek\<close> goes to the first key not below its
  target, \<open>Next\<close> and \<open>Prev\<close> step, key and value are those of the entry it stands on.  The
  predicate describes an iterator that meets no I/O error.
\<close>

definition seek_index :: "bytes \<Rightarrow> bytes list \<Rightarrow> nat" where
  "seek_index k ks = length (takeWhile (\<lambda>x. x < k) ks)"

definition at_index :: "nat \<Rightarrow> 'a list \<Rightarrow> nat option" where
  "at_index i xs = (if i < length xs then Some i else None)"

definition iterator_laws ::
    "('it, 'z) iterator_scheme \<Rightarrow> ('it \<Rightarrow> (bytes \<times> bytes) list) \<Rightarrow> ('it \<Rightarrow> nat option) \<Rightarrow> bool" where
  "iterator_laws I snap pos \<longleftrightarrow>
     (\<forall>it. st_ok (it_status I it)
         \<and> (it_valid I it \<longleftrightarrow> pos it \<noteq> None)
         \<and> sorted_wrt (<) (map fst (snap it))
         \<and> (\<forall>i. pos it = Some i \<longrightarrow> i < length (snap it) \<and> (it_key I it, it_value I it) = snap it ! i)
         \<and> (\<forall>k. snap (it_seek I k it) = snap it
              \<and> pos (it_seek I k it) = at_index (seek_index k (map fst (snap it))) (snap it))
         \<and> (\<forall>i. pos it = Some i \<longrightarrow>
              snap (it_next I it) = snap it \<and> pos (it_next I it) = at_index (Suc i) (snap it)
            \<and> snap (it_prev I it) = snap it
            \<and> pos (it_prev I it) = (if i = 0 then None else Some (i - 1))))"

text \<open>The effect of a batch: its operations in order.\<close>

fun apply_op :: "batch_op \<Rightarrow> (bytes \<rightharpoonup> bytes) \<Rightarrow> (bytes \<rightharpoonup> bytes)" where
  "apply_op (Put k v) m = m(k \<mapsto> v)"
| "apply_op (Delete k) m = m(k := None)"

definition apply_batch :: "batch_op list \<Rightarrow> (bytes \<rightharpoonup> bytes) \<Rightarrow> (bytes \<rightharpoonup> bytes)" where
  "apply_batch ops m = fold apply_op ops m"

text \<open>
  A database holds a finite map, given as its sorted list of entries \<open>cont\<close>.  Reads meet no
  I/O error; a write that reports success has happened (one that reports failure is not
  constrained); a new iterator has the contents as its snapshot.
\<close>

definition db_laws ::
    "('d, 'it, 'z) rocksdb_scheme \<Rightarrow> ('d \<Rightarrow> (bytes \<times> bytes) list) \<Rightarrow>
     ('it \<Rightarrow> (bytes \<times> bytes) list) \<Rightarrow> ('it \<Rightarrow> nat option) \<Rightarrow> bool" where
  "db_laws R cont snap pos \<longleftrightarrow>
     iterator_laws R snap pos
   \<and> (\<forall>d. sorted_wrt (<) (map fst (cont d))
        \<and> snap (db_new_iterator R d) = cont d
        \<and> (\<forall>k. case map_of (cont d) k of
                 Some v \<Rightarrow> st_ok (fst (db_get R d k)) \<and> snd (db_get R d k) = v
               | None \<Rightarrow> \<not> st_ok (fst (db_get R d k)) \<and> st_not_found (fst (db_get R d k)))
        \<and> (\<forall>ks. db_multiget R d ks = map (db_get R d) ks)
        \<and> (\<forall>k v. st_ok (fst (db_put R d k v)) \<longrightarrow>
              map_of (cont (snd (db_put R d k v))) = (map_of (cont d))(k \<mapsto> v))
        \<and> (\<forall>b. st_ok (fst (db_write R d b)) \<longrightarrow>
              map_of (cont (snd (db_write R d b))) = apply_batch b (map_of (cont d))))"

lemma iterator_lawsD:
  assumes "iterator_laws I snap pos"
  shows "st_ok (it_status I it)"
    and "it_valid I it \<longleftrightarrow> pos it \<noteq> None"
    and "sorted_wrt (<) (map fst (snap it))"
    and "pos it = Some i \<Longrightarrow> i < length (snap it)"
    and "pos it = Some i \<Longrightarrow> it_key I it = fst (snap it ! i)"
    and "pos it = Some i \<Longrightarrow> it_value I it = snd (snap it ! i)"
    and "snap (it_seek I k it) = snap it"
    and "pos (it_seek I k it) = at_index (seek_index k (map fst (snap it))) (snap it)"
    and "pos it = Some i \<Longrightarrow> snap (it_next I it) = snap it"
    and "pos it = Some i \<Longrightarrow> pos (it_next I it) = at_index (Suc i) (snap it)"
    and "pos it = Some i \<Longrightarrow> snap (it_prev I it) = snap it"
    and "pos it = Some i \<Longrightarrow> pos (it_prev I it) = (if i = 0 then None else Some (i - 1))"
  using assms unfolding iterator_laws_def by (metis fst_conv snd_conv)+

lemma db_lawsD:
  assumes "db_laws R cont snap pos"
  shows "iterator_laws R snap pos"
    and "sorted_wrt (<) (map fst (cont d))"
    and "snap (db_new_iterator R d) = cont d"
    and "map_of (cont d) k = Some v \<Longrightarrow> st_ok (fst (db_get R d k)) \<and> snd (db_get R d k) = v"
    and "map_of (cont d) k = None \<Longrightarrow>
           \<not> st_ok (fst (db_get R d k)) \<and> st_not_found (fst (db_get R d k))"
    and "db_multiget R d ks = map (db_get R d) ks"
    and "st_ok (fst (db_put R d k v)) \<Longrightarrow>
           map_of (cont (snd (db_put R d k v))) = (map_of (cont d))(k \<mapsto> v)"
    and "st_ok (fst (db_write R d b)) \<Longrightarrow>
           map_of (cont (snd (db_write R d b))) = apply_batch b (map_of (cont d))"
proof -
  note laws = assms [unfolded db_laws_def, THEN conjunct2, THEN spec, of d]
  show "iterator_laws R snap pos"
    using assms by (simp add: db_laws_def)
  have get: "case map_of (cont d) k of
      Some v \<Rightarrow> st_ok (fst (db_get R d k)) \<and> snd (db_get R d k) = v
    | None \<Rightarrow> \<not> st_ok (fst (db_get R d k)) \<and> st_not_found (fst (db_get R d k))"
    using laws by blast
  show "map_of (cont d) k = Some v \<Longrightarrow> st_ok (fst (db_get R d k)) \<and> snd (db_get R d k) = v"
    and "map_of (cont d) k = None \<Longrightarrow>
           \<not> st_ok (fst (db_get R d k)) \<and> st_not_found (fst (db_get R d k))"
    using get by simp_all
qed (use assms in \<open>simp_all add: db_laws_def\<close>)

text \<open>In sorted entries, the entry sought is the one at the seek index, if there is one.\<close>

lemma map_of_seek_index:
  assumes "sorted_wrt (<) (map fst es)"
  shows "map_of es k =
    (let i = seek_index k (map fst es)
     in if i < length es \<and> fst (es ! i) = k then Some (snd (es ! i)) else None)"
  using assms
proof (induction es)
  case Nil
  then show ?case by (simp add: seek_index_def)
next
  case (Cons e es)
  have IH: "map_of es k = (let i = seek_index k (map fst es)
     in if i < length es \<and> fst (es ! i) = k then Some (snd (es ! i)) else None)"
    using Cons by simp
  have above: "k \<notin> fst ` set es" if "k \<le> fst e"
    using Cons.prems that by (auto simp: order.strict_iff_not)
  show ?case
  proof (cases "fst e < k")
    case True
    then have "fst e \<noteq> k" by auto
    with True show ?thesis using IH by (simp add: seek_index_def Let_def)
  next
    case False
    then show ?thesis
      using above by (auto simp: seek_index_def map_of_eq_None_iff[THEN iffD2])
  qed
qed

section \<open>A store that satisfies the laws\<close>

text \<open>
  The state is the log of the writes; its entries are those of the log replayed into a sorted
  list.  Every operation succeeds.
\<close>

type_synonym mem_db = "batch_op list"

fun mem_insert :: "bytes \<Rightarrow> bytes \<Rightarrow> (bytes \<times> bytes) list \<Rightarrow> (bytes \<times> bytes) list" where
  "mem_insert k v [] = [(k, v)]"
| "mem_insert k v (e # es) =
     (if k < fst e then (k, v) # e # es
      else if k = fst e then (k, v) # es
      else e # mem_insert k v es)"

fun mem_apply :: "batch_op \<Rightarrow> (bytes \<times> bytes) list \<Rightarrow> (bytes \<times> bytes) list" where
  "mem_apply (Put k v) es = mem_insert k v es"
| "mem_apply (Delete k) es = filter (\<lambda>e. fst e \<noteq> k) es"

definition mem_entries :: "mem_db \<Rightarrow> (bytes \<times> bytes) list" where
  "mem_entries log = fold mem_apply log []"

type_synonym mem_it = "mem_db \<times> nat option"

definition mem_snap :: "mem_it \<Rightarrow> (bytes \<times> bytes) list" where
  "mem_snap it = mem_entries (fst it)"

definition mem_pos :: "mem_it \<Rightarrow> nat option" where
  "mem_pos it = Option.bind (snd it) (\<lambda>i. at_index i (mem_snap it))"

definition st_OK :: status where
  "st_OK = \<lparr>st_ok = True, st_not_found = False, st_string = ''OK''\<rparr>"

definition st_NotFound :: status where
  "st_NotFound = \<lparr>st_ok = False, st_not_found = True, st_string = ''NotFound: ''\<rparr>"

definition mem_get :: "mem_db \<Rightarrow> bytes \<Rightarrow> status \<times> bytes" where
  "mem_get d k = (case map_of (mem_entries d) k of Some v \<Rightarrow> (st_OK, v) | None \<Rightarrow> (st_NotFound, []))"

definition mem_entry :: "mem_it \<Rightarrow> bytes \<times> bytes" where
  "mem_entry it = (case mem_pos it of None \<Rightarrow> ([], []) | Some i \<Rightarrow> mem_snap it ! i)"

definition mem_rocks :: "(mem_db, mem_it) rocksdb" where
  "mem_rocks =
     \<lparr>it_seek = (\<lambda>k it. (fst it, Some (seek_index k (map fst (mem_snap it))))),
      it_next = (\<lambda>it. (fst it, map_option Suc (mem_pos it))),
      it_prev = (\<lambda>it. (fst it, case mem_pos it of Some (Suc i) \<Rightarrow> Some i | _ \<Rightarrow> None)),
      it_valid = (\<lambda>it. mem_pos it \<noteq> None),
      it_key = (\<lambda>it. fst (mem_entry it)),
      it_value = (\<lambda>it. snd (mem_entry it)),
      it_status = (\<lambda>it. st_OK),
      db_get = mem_get,
      db_multiget = (\<lambda>d. map (mem_get d)),
      db_put = (\<lambda>d k v. (st_OK, d @ [Put k v])),
      db_write = (\<lambda>d b. (st_OK, d @ b)),
      db_new_iterator = (\<lambda>d. (d, None))\<rparr>"

lemma map_of_mem_insert [simp]: "map_of (mem_insert k v es) = (map_of es)(k \<mapsto> v)"
  by (induction k v es rule: mem_insert.induct) (auto simp: fun_eq_iff)

lemma set_mem_insert: "set (mem_insert k v es) \<subseteq> insert (k, v) (set es)"
  by (induction k v es rule: mem_insert.induct) auto

lemma sorted_mem_insert:
  "sorted_wrt (<) (map fst es) \<Longrightarrow> sorted_wrt (<) (map fst (mem_insert k v es))"
proof (induction k v es rule: mem_insert.induct)
  case (2 k v e es)
  have "\<forall>x \<in> set (mem_insert k v es). fst e < fst x" if "fst e < k"
    using set_mem_insert [of k v es] "2.prems" that by auto
  then show ?case
    using 2 by (auto simp: less_trans)
qed simp

lemma sorted_mem_apply:
  "sorted_wrt (<) (map fst es) \<Longrightarrow> sorted_wrt (<) (map fst (mem_apply b es))"
proof (cases b)
  case (Delete k)
  assume "sorted_wrt (<) (map fst es)"
  then show ?thesis by (simp add: Delete sorted_wrt_map sorted_wrt_filter)
qed (simp add: sorted_mem_insert)

lemma map_of_mem_apply: "map_of (mem_apply b es) = apply_op b (map_of es)"
proof (cases b)
  case (Delete k)
  have "map_of (filter (\<lambda>e. fst e \<noteq> k) es) = (map_of es)(k := None)"
    by (induction es) auto
  then show ?thesis by (simp add: Delete)
qed simp

lemma mem_fold:
  assumes "sorted_wrt (<) (map fst es)"
  shows "sorted_wrt (<) (map fst (fold mem_apply b es))"
    and "map_of (fold mem_apply b es) = apply_batch b (map_of es)"
  using assms
  by (induction b arbitrary: es) (auto simp: apply_batch_def map_of_mem_apply sorted_mem_apply)

lemma sorted_mem_entries: "sorted_wrt (<) (map fst (mem_entries d))"
  by (simp add: mem_entries_def mem_fold)

lemma mem_rocks_simps [simp]:
  "it_seek mem_rocks k it = (fst it, Some (seek_index k (map fst (mem_snap it))))"
  "it_next mem_rocks it = (fst it, map_option Suc (mem_pos it))"
  "it_prev mem_rocks it = (fst it, case mem_pos it of Some (Suc i) \<Rightarrow> Some i | _ \<Rightarrow> None)"
  "it_valid mem_rocks it = (mem_pos it \<noteq> None)"
  "it_key mem_rocks it = fst (mem_entry it)"
  "it_value mem_rocks it = snd (mem_entry it)"
  "it_status mem_rocks it = st_OK"
  "db_get mem_rocks = mem_get"
  "db_multiget mem_rocks d = map (mem_get d)"
  "db_put mem_rocks d k v = (st_OK, d @ [Put k v])"
  "db_write mem_rocks d b = (st_OK, d @ b)"
  "db_new_iterator mem_rocks d = (d, None)"
  by (simp_all add: mem_rocks_def)

lemma st_simps [simp]: "st_ok st_OK" "\<not> st_ok st_NotFound" "st_not_found st_NotFound"
  by (simp_all add: st_OK_def st_NotFound_def)

lemma mem_pos_bound: "mem_pos it = Some i \<Longrightarrow> i < length (mem_snap it)"
  by (auto simp: mem_pos_def at_index_def bind_eq_Some_conv split: if_splits)

lemma mem_pos_pair: "mem_pos (d, p) = Option.bind p (\<lambda>i. at_index i (mem_entries d))"
  by (simp add: mem_pos_def mem_snap_def)

lemma mem_iterator_laws: "iterator_laws mem_rocks mem_snap mem_pos"
  unfolding iterator_laws_def
proof (intro allI conjI impI)
  fix it :: mem_it and i :: nat
  assume pos: "mem_pos it = Some i"
  then have i: "i < length (mem_entries (fst it))"
    using mem_pos_bound by (fastforce simp: mem_snap_def)
  show "i < length (mem_snap it)"
    using pos by (rule mem_pos_bound)
  show "mem_pos (it_prev mem_rocks it) = (if i = 0 then None else Some (i - 1))"
    using pos i by (cases i) (simp_all add: mem_pos_pair at_index_def)
  show "mem_pos (it_next mem_rocks it) = at_index (Suc i) (mem_snap it)"
    using pos by (simp add: mem_pos_pair mem_snap_def)
qed (simp_all add: sorted_mem_entries mem_snap_def mem_entry_def mem_pos_pair)

lemma mem_entries_append:
  "map_of (mem_entries (d @ b)) = apply_batch b (map_of (mem_entries d))"
  by (simp add: mem_entries_def mem_fold)

lemma mem_db_laws: "db_laws mem_rocks mem_entries mem_snap mem_pos"
  unfolding db_laws_def
proof (intro conjI allI)
  show "iterator_laws mem_rocks mem_snap mem_pos"
    by (rule mem_iterator_laws)
qed (auto simp: sorted_mem_entries mem_snap_def mem_get_def mem_entries_append apply_batch_def
    split: option.splits)

end
