(* ===== verification/Query.thy ===== *)
theory Query
  imports Keys RocksDB "HOL-Library.Monad_Syntax"
begin

text \<open>
  \<^verbatim>\<open>Ndb::query\<close> of \<^verbatim>\<open>ndb.cc\<close>: the plan it makes from the request, the positioning of the
  iterator, the scan, and its refinement of a pure function on the sorted list of keys.

  The loops run on an arbitrary iterator, so nothing bounds them: they are partial functions in
  the option type, \<open>None\<close> for a loop that never ends.  The refinement shows that on an iterator
  that keeps the laws of \<open>RocksDB\<close> they end.  The callback \<open>iterFn\<close> is a function on the
  caller's state.  \<^verbatim>\<open>numscans\<close> is only logged and has no counterpart.
\<close>

section \<open>The plan\<close>

record qplan =
  q_forward :: bool
  q_skipOne :: bool
  q_skipFirstMatch :: bool
  q_stopIfNotMatch :: bool
  q_seekpos2 :: bytes

definition invalid_op_msg :: "u8 \<Rightarrow> string" where
  "invalid_op_msg op =
     ''ndb/leveldb: Invalid last filter operator: ['' @ to_string (sint op) @ '']''"

definition query_plan :: "bytes \<Rightarrow> bool \<Rightarrow> bool \<Rightarrow> u8 \<Rightarrow> string + qplan" where
  "query_plan seekpos2 ancestorOnly withCursor lastFilterOp =
     (let base = \<lparr>q_forward = True, q_skipOne = False, q_skipFirstMatch = False,
                  q_stopIfNotMatch = False, q_seekpos2 = seekpos2\<rparr>;
          plan = (if ancestorOnly
                  then Inr (base\<lparr>q_seekpos2 := [], q_skipOne := True, q_stopIfNotMatch := True\<rparr>)
                  else case QueryFilterOp_of lastFilterOp of
                    Some F_EQ \<Rightarrow> Inr (base\<lparr>q_stopIfNotMatch := True\<rparr>)
                  | Some F_GTE \<Rightarrow> Inr base
                  | Some F_GT \<Rightarrow> Inr (base\<lparr>q_skipFirstMatch := True\<rparr>)
                  | Some F_LTE \<Rightarrow> Inr (base\<lparr>q_forward := False\<rparr>)
                  | Some F_LT \<Rightarrow> Inr (base\<lparr>q_forward := False, q_skipOne := True,
                                         q_skipFirstMatch := True\<rparr>)
                  | None \<Rightarrow> Inl (invalid_op_msg lastFilterOp))
      in case plan of
           Inl e \<Rightarrow> Inl e
         | Inr p \<Rightarrow> Inr (if withCursor then p\<lparr>q_skipOne := False, q_skipFirstMatch := False\<rparr>
                        else p))"

section \<open>Positioning\<close>

text \<open>\<^verbatim>\<open>ikey.size() >= seekpos1.size() && memcmp(seekpos1.data(), ikey.data(), ...) == 0\<close>\<close>

definition key_matches :: "bytes \<Rightarrow> bytes \<Rightarrow> bool" where
  "key_matches seekpos1 ikey \<longleftrightarrow>
     length seekpos1 \<le> length ikey \<and> memcmp seekpos1 ikey (length seekpos1) = Inr 0"

definition it_move :: "('it, 'z) iterator_scheme \<Rightarrow> bool \<Rightarrow> 'it \<Rightarrow> 'it" where
  "it_move I forward it = (if forward then it_next I it else it_prev I it)"

text \<open>
  Each stage gives the iterator and whether the query goes on; false is the jump to the label
  \<^verbatim>\<open>finish\<close>.
\<close>

definition skip_one :: "('it, 'z) iterator_scheme \<Rightarrow> bool \<Rightarrow> bytes \<Rightarrow> 'it \<Rightarrow> 'it \<times> bool" where
  "skip_one I forward seekpos1 it =
     (let it' = (if forward
                 then (if key_matches seekpos1 (it_key I it) then it_next I it else it)
                 else it_prev I it)
      in (it', it_valid I it'))"

partial_function (option) skip_match ::
    "('it, 'z) iterator_scheme \<Rightarrow> bool \<Rightarrow> bytes \<Rightarrow> 'it \<Rightarrow> ('it \<times> bool) option" where
  "skip_match I forward seekpos1 it =
     (if key_matches seekpos1 (it_key I it)
      then (let it' = it_move I forward it
            in if it_valid I it' then skip_match I forward seekpos1 it' else Some (it', False))
      else Some (it, True))"

fun skip_offset :: "('it, 'z) iterator_scheme \<Rightarrow> bool \<Rightarrow> nat \<Rightarrow> 'it \<Rightarrow> 'it \<times> bool" where
  "skip_offset I forward 0 it = (it, True)"
| "skip_offset I forward (Suc n) it =
     (let it' = it_move I forward it
      in if it_valid I it' then skip_offset I forward n it' else (it', False))"

definition query_position ::
    "('it, 'z) iterator_scheme \<Rightarrow> qplan \<Rightarrow> bytes \<Rightarrow> nat \<Rightarrow> 'it \<Rightarrow> ('it \<times> bool) option" where
  "query_position I p seekpos1 offset it0 =
     (if \<not> st_ok (it_status I it0) then Some (it0, False)
      else let it = it_seek I seekpos1 it0 in
      if \<not> it_valid I it then Some (it, False)
      else
        let (it1, go1) = (if q_skipOne p then skip_one I (q_forward p) seekpos1 it else (it, True))
        in if \<not> go1 then Some (it1, False)
        else do {
          (it2, go2) \<leftarrow> (if q_skipFirstMatch p then skip_match I (q_forward p) seekpos1 it1
                        else Some (it1, True));
          if \<not> go2 then Some (it2, False)
          else Some (skip_offset I (q_forward p) offset it2)
        })"

section \<open>The scan\<close>

text \<open>
  The three tests at the head of the scan loop: false leaves the loop.  The comparison with the
  end position has the direction the code gives it.
\<close>

definition scan_test :: "qplan \<Rightarrow> u8 \<Rightarrow> bytes \<Rightarrow> bytes \<Rightarrow> bool res" where
  "scan_test p discrim seekpos1 ikey =
     res_bind (rd ikey 0) (\<lambda>b0.
       if discrim \<noteq> drop_bit 4 b0 then Inr False
       else if q_stopIfNotMatch p \<and> \<not> key_matches seekpos1 ikey then Inr False
       else if 0 < length (q_seekpos2 p) then
         res_bind (memcmp (q_seekpos2 p) ikey (length (q_seekpos2 p))) (\<lambda>c.
           Inr (if q_forward p then \<not> 0 < c else \<not> c < 0))
       else Inr True)"

partial_function (option) scan ::
    "('it, 'z) iterator_scheme \<Rightarrow> qplan \<Rightarrow> u8 \<Rightarrow> bytes \<Rightarrow> u8 \<Rightarrow> u8 \<Rightarrow> nat \<Rightarrow> (bytes \<Rightarrow> 's \<Rightarrow> 's) \<Rightarrow>
     'it \<Rightarrow> nat \<Rightarrow> 's \<Rightarrow> ('it \<times> 's) res option" where
  "scan I p discrim seekpos1 kindid shapeid limit iterFn it numResults s =
     (if numResults < limit then
        (case scan_test p discrim seekpos1 (it_key I it) of
           Inl e \<Rightarrow> Some (Inl e)
         | Inr go \<Rightarrow>
             if \<not> go then Some (Inr (it, s))
             else (case ndbEntityBytesFromSlice (it_key I it) kindid shapeid of
                 Inl e \<Rightarrow> Some (Inl e)
               | Inr nt \<Rightarrow>
                   let hit = (length nt \<noteq> 0);
                       s' = (if hit then iterFn nt s else s);
                       n' = (if hit then numResults + 1 else numResults);
                       it' = it_move I (q_forward p) it
                   in if it_valid I it'
                      then scan I p discrim seekpos1 kindid shapeid limit iterFn it' n' s'
                      else Some (Inr (it', s'))))
      else Some (Inr (it, s)))"

section \<open>Ndb::query\<close>

text \<open>The label \<^verbatim>\<open>finish\<close>: the iterator's error, if it has one, becomes the query's.\<close>

definition query_finish :: "('it, 'z) iterator_scheme \<Rightarrow> string \<Rightarrow> 'it \<times> 's \<Rightarrow> 's \<times> string" where
  "query_finish I err = (\<lambda>(it, s).
     (s, if st_ok (it_status I it) then err else st_string (it_status I it)))"

definition Ndb_query ::
    "('d, 'it, 'z) rocksdb_scheme \<Rightarrow> 'd \<Rightarrow> bytes \<Rightarrow> bytes \<Rightarrow> u8 \<Rightarrow> u8 \<Rightarrow> bool \<Rightarrow> bool \<Rightarrow> u8 \<Rightarrow>
     nat \<Rightarrow> nat \<Rightarrow> (bytes \<Rightarrow> 's \<Rightarrow> 's) \<Rightarrow> 's \<Rightarrow> string \<Rightarrow> ('s \<times> string) res option" where
  "Ndb_query R db seekpos1 seekpos2 kindid shapeid ancestorOnly withCursor lastFilterOp
       offset limit iterFn s err =
     (case rd seekpos1 0 of
        Inl e \<Rightarrow> Some (Inl e)
      | Inr b0 \<Rightarrow>
          (case query_plan seekpos2 ancestorOnly withCursor lastFilterOp of
             Inl msg \<Rightarrow> Some (Inr (s, msg))
           | Inr p \<Rightarrow> do {
               (it, go) \<leftarrow> query_position R p seekpos1 offset (db_new_iterator R db);
               r \<leftarrow> (if go then scan R p (drop_bit 4 b0) seekpos1 kindid shapeid limit iterFn it 0 s
                     else Some (Inr (it, s)));
               Some (res_bind r (\<lambda>x. Inr (query_finish R err x)))
             }))"

section \<open>The same on a list of keys\<close>

text \<open>
  What a query is meant to compute, on the sorted list of the keys of the database: the keys in
  the order the iterator visits them from the seek position on, less those the plan skips, up to
  the first out of range, each turned into the bytes of its entity, up to the limit.
\<close>

definition visit :: "bytes list \<Rightarrow> bool \<Rightarrow> bytes \<Rightarrow> bytes list" where
  "visit ks forward seekpos1 =
     (let i = seek_index seekpos1 ks
      in if forward then drop i ks else if i < length ks then rev (take (Suc i) ks) else [])"

definition skip_rows :: "qplan \<Rightarrow> bytes \<Rightarrow> nat \<Rightarrow> bytes list \<Rightarrow> bytes list" where
  "skip_rows p seekpos1 offset ks =
     (let ks1 = (if q_skipOne p \<and> (q_forward p \<longrightarrow> ks \<noteq> [] \<and> prefix seekpos1 (hd ks))
                 then tl ks else ks);
          ks2 = (if q_skipFirstMatch p then dropWhile (prefix seekpos1) ks1 else ks1)
      in drop offset ks2)"

definition row_in_range :: "qplan \<Rightarrow> u8 \<Rightarrow> bytes \<Rightarrow> bytes \<Rightarrow> bool" where
  "row_in_range p discrim seekpos1 k \<longleftrightarrow>
     drop_bit 4 (hd k) = discrim
   \<and> (q_stopIfNotMatch p \<longrightarrow> prefix seekpos1 k)
   \<and> (q_seekpos2 p \<noteq> [] \<longrightarrow>
        (if q_forward p then q_seekpos2 p \<le> take (length (q_seekpos2 p)) k
         else take (length (q_seekpos2 p)) k \<le> q_seekpos2 p))"

definition entity_of :: "u8 \<Rightarrow> u8 \<Rightarrow> bytes \<Rightarrow> bytes" where
  "entity_of kindid shapeid k =
     (case ndbEntityBytesFromSlice k kindid shapeid of Inl _ \<Rightarrow> [] | Inr e \<Rightarrow> e)"

definition row_results :: "u8 \<Rightarrow> u8 \<Rightarrow> bytes list \<Rightarrow> bytes list" where
  "row_results kindid shapeid ks = filter (\<lambda>e. e \<noteq> []) (map (entity_of kindid shapeid) ks)"

definition query_results ::
    "qplan \<Rightarrow> bytes \<Rightarrow> u8 \<Rightarrow> u8 \<Rightarrow> nat \<Rightarrow> nat \<Rightarrow> bytes list \<Rightarrow> bytes list" where
  "query_results p seekpos1 kindid shapeid offset limit ks =
     take limit (row_results kindid shapeid
       (takeWhile (row_in_range p (drop_bit 4 (hd seekpos1)) seekpos1)
         (skip_rows p seekpos1 offset (visit ks (q_forward p) seekpos1))))"

text \<open>The keys a scan can read: two bytes for the row filter, and as many as the end position has.\<close>

definition row_ok :: "qplan \<Rightarrow> bytes \<Rightarrow> bool" where
  "row_ok p k \<longleftrightarrow> 2 \<le> length k \<and> length (q_seekpos2 p) \<le> length k"

lemma key_matches_prefix [simp]: "key_matches p k \<longleftrightarrow> prefix p k"
  by (auto simp: key_matches_def memcmp_def memcmp_bytes_zero simp flip: take_eq_prefix
      dest: prefix_length_le)

lemma scan_test_row:
  assumes "row_ok p k"
  shows "scan_test p discrim seekpos1 k = Inr (row_in_range p discrim seekpos1 k)"
proof -
  have "rd k 0 = Inr (hd k)"
    using assms by (intro rd_nonempty) (auto simp: row_ok_def)
  then show ?thesis
    using assms
    by (auto simp: scan_test_def row_in_range_def row_ok_def memcmp_bytes_neg memcmp_bytes_pos
        not_less)
qed

lemma ndbEntityBytes_entity_of:
  "row_ok p k \<Longrightarrow> ndbEntityBytesFromSlice k kindid shapeid = Inr (entity_of kindid shapeid k)"
  using ndbEntityBytes_total [of k kindid shapeid] by (auto simp: row_ok_def entity_of_def)

section \<open>Cursors\<close>

text \<open>
  An iterator moved in one direction is a cursor: \<open>ahead\<close> lists the keys it still visits, the
  one it stands on first.  The loops of the query rely on this alone.
\<close>

locale cursor =
  fixes I :: "('it, 'z) iterator_scheme" and forward :: bool and ahead :: "'it \<Rightarrow> bytes list"
  assumes valid_ahead: "it_valid I it \<longleftrightarrow> ahead it \<noteq> []"
    and key_ahead: "ahead it = k # ks \<Longrightarrow> it_key I it = k"
    and move_ahead: "ahead it = k # ks \<Longrightarrow> ahead (it_move I forward it) = ks"
begin

lemma skip_match_ahead:
  assumes "ahead it \<noteq> []"
  shows "\<exists>it'. skip_match I forward p it = Some (it', ahead it' \<noteq> [])
           \<and> ahead it' = dropWhile (prefix p) (ahead it)"
  using assms
proof (induction "ahead it" arbitrary: it)
  case Nil
  then show ?case by simp
next
  case (Cons k ks)
  let ?it = "it_move I forward it"
  have k: "it_key I it = k" and move: "ahead ?it = ks"
    using key_ahead move_ahead Cons.hyps(2) by metis+
  show ?case
  proof (cases "prefix p k \<and> ks \<noteq> []")
    case True
    then have "skip_match I forward p it = skip_match I forward p ?it"
      using k move by (subst skip_match.simps) (simp add: valid_ahead Let_def)
    moreover obtain it' where "skip_match I forward p ?it = Some (it', ahead it' \<noteq> [])"
      "ahead it' = dropWhile (prefix p) (ahead ?it)"
      using Cons.hyps(1) [of ?it] True move by auto
    ultimately show ?thesis
      using True move by (auto simp flip: Cons.hyps(2))
  next
    case False
    then have "skip_match I forward p it = Some (if prefix p k then (?it, False) else (it, True))"
      using k move by (subst skip_match.simps) (auto simp: valid_ahead)
    then show ?thesis
      using False move by (auto simp flip: Cons.hyps(2))
  qed
qed

lemma skip_offset_ahead:
  assumes "ahead it \<noteq> []"
  shows "\<exists>it'. skip_offset I forward n it = (it', ahead it' \<noteq> []) \<and> ahead it' = drop n (ahead it)"
  using assms
proof (induction n arbitrary: it)
  case 0
  then show ?case by simp
next
  case (Suc n)
  let ?it = "it_move I forward it"
  have move: "ahead ?it = tl (ahead it)"
    using Suc.prems move_ahead by (cases "ahead it") auto
  show ?case
  proof (cases "ahead ?it = []")
    case True
    then show ?thesis
      using move by (auto simp: valid_ahead Let_def drop_Suc)
  next
    case False
    then show ?thesis
      using Suc.IH [of ?it] move by (auto simp: valid_ahead Let_def drop_Suc)
  qed
qed

lemma skip_one_ahead:
  assumes "ahead it \<noteq> []"
  shows "\<exists>it'. skip_one I forward p it = (it', ahead it' \<noteq> [])
           \<and> ahead it' = (if forward \<longrightarrow> prefix p (hd (ahead it)) then tl (ahead it) else ahead it)"
proof -
  obtain k ks where it: "ahead it = k # ks"
    using assms by (cases "ahead it") auto
  then show ?thesis
    using key_ahead [OF it] move_ahead [OF it]
    by (auto simp: skip_one_def Let_def valid_ahead it_move_def)
qed

text \<open>The last two stages of the positioning: the rows that match are skipped, then the offset.\<close>

lemma skip_stages_ahead:
  assumes "ahead it \<noteq> []"
  shows "\<exists>it'. do {
      (it2, go2) \<leftarrow> (if skip then skip_match I forward p it else Some (it, True));
      if \<not> go2 then Some (it2, False) else Some (skip_offset I forward n it2)
    } = Some (it', ahead it' \<noteq> [])
    \<and> ahead it' = drop n (if skip then dropWhile (prefix p) (ahead it) else ahead it)"
proof -
  obtain it2 where two: "(if skip then skip_match I forward p it else Some (it, True)) = Some (it2, ahead it2 \<noteq> [])"
    "ahead it2 = (if skip then dropWhile (prefix p) (ahead it) else ahead it)"
    using skip_match_ahead [OF assms, of p] assms by (cases skip) auto
  show ?thesis
  proof (cases "ahead it2 = []")
    case False
    then show ?thesis
      using skip_offset_ahead [OF False, of n] by (simp only: two bind.bind_lunit) (auto simp flip: two(2))
  qed (simp only: two bind.bind_lunit, auto simp flip: two(2))
qed

lemma scan_step:
  assumes "forward = q_forward p" and it: "ahead it = k # ks" and "row_ok p k" and "n < limit"
    and "row_in_range p discrim seekpos1 k"
  shows "scan I p discrim seekpos1 kindid shapeid limit f it n s =
    (let e = entity_of kindid shapeid k; it' = it_move I forward it;
         s' = (if e \<noteq> [] then f e s else s); n' = (if e \<noteq> [] then n + 1 else n)
     in if ks = [] then Some (Inr (it', s'))
        else scan I p discrim seekpos1 kindid shapeid limit f it' n' s')"
  using assms(1,3-5) key_ahead [OF it] move_ahead [OF it]
  by (subst scan.simps)
     (simp add: scan_test_row ndbEntityBytes_entity_of valid_ahead Let_def)

lemma scan_stop:
  assumes it: "ahead it = k # ks" and "row_ok p k"
    and "\<not> (n < limit \<and> row_in_range p discrim seekpos1 k)"
  shows "scan I p discrim seekpos1 kindid shapeid limit f it n s = Some (Inr (it, s))"
  using assms(2,3) key_ahead [OF it] by (subst scan.simps) (auto simp: scan_test_row)

lemma scan_ahead:
  assumes "forward = q_forward p" and "ahead it \<noteq> []" and "\<forall>k \<in> set (ahead it). row_ok p k"
  shows "\<exists>it'. scan I p discrim seekpos1 kindid shapeid limit f it n s =
    Some (Inr (it', fold f (take (limit - n) (row_results kindid shapeid
      (takeWhile (row_in_range p discrim seekpos1) (ahead it)))) s))"
  using assms(2,3)
proof (induction "ahead it" arbitrary: it n s)
  case Nil
  then show ?case by simp
next
  case (Cons k ks)
  note it = Cons.hyps(2) [symmetric]
  let ?it = "it_move I forward it"
  let ?e = "entity_of kindid shapeid k"
  let ?s = "if ?e \<noteq> [] then f ?e s else s" and ?n = "if ?e \<noteq> [] then n + 1 else n"
  have ok: "row_ok p k" and move: "ahead ?it = ks"
    using Cons.prems(2) move_ahead [OF it] by (simp_all add: it)
  show ?case
  proof (cases "n < limit \<and> row_in_range p discrim seekpos1 k")
    case False
    then show ?thesis
      using scan_stop [OF it ok False, of kindid shapeid f s] by (auto simp: it row_results_def)
  next
    case go: True
    then have n: "limit - n = Suc (limit - (n + 1))"
      by auto
    note step = scan_step [OF assms(1) it ok, of n limit discrim seekpos1 kindid shapeid f s,
        unfolded Let_def]
    show ?thesis
    proof (cases "ks = []")
      case True
      then show ?thesis
        using step go n by (auto simp: it row_results_def)
    next
      case False
      then obtain it' where "scan I p discrim seekpos1 kindid shapeid limit f ?it ?n ?s =
          Some (Inr (it', fold f (take (limit - ?n) (row_results kindid shapeid
            (takeWhile (row_in_range p discrim seekpos1) ks))) ?s))"
        using Cons.hyps(1) [OF move [symmetric], of ?n ?s] Cons.prems(2) by (auto simp: move it)
      then show ?thesis
        using step go n False by (auto simp: it row_results_def)
    qed
  qed
qed

end

section \<open>An iterator that keeps the laws is a cursor in both directions\<close>

definition ahead_of :: "('it \<Rightarrow> (bytes \<times> bytes) list) \<Rightarrow> ('it \<Rightarrow> nat option) \<Rightarrow> bool \<Rightarrow> 'it \<Rightarrow> bytes list" where
  "ahead_of snap pos forward it =
     (case pos it of None \<Rightarrow> []
      | Some i \<Rightarrow> let ks = map fst (snap it) in if forward then drop i ks else rev (take (Suc i) ks))"

lemma iterator_laws_cursor:
  assumes "iterator_laws I snap pos"
  shows "cursor I forward (ahead_of snap pos forward)"
proof
  note laws = iterator_lawsD [OF assms]
  fix it
  show "it_valid I it \<longleftrightarrow> ahead_of snap pos forward it \<noteq> []"
    by (auto simp: laws(2) ahead_of_def Let_def split: option.splits dest: laws(4))
  fix k ks
  assume k: "ahead_of snap pos forward it = k # ks"
  then obtain i where i: "pos it = Some i"
    by (auto simp: ahead_of_def split: option.splits)
  then have len: "i < length (map fst (snap it))"
    using laws(4) by simp
  have split: "drop i (map fst (snap it)) = fst (snap it ! i) # drop (Suc i) (map fst (snap it))"
    "rev (take (Suc i) (map fst (snap it))) = fst (snap it ! i) # rev (take i (map fst (snap it)))"
    using len by (simp_all flip: Cons_nth_drop_Suc add: rev_take_Suc del: rev_map drop_map take_map)
  show "it_key I it = k"
    using k i laws(5) [OF i] split by (auto simp: ahead_of_def Let_def split: if_splits)
  show "ahead_of snap pos forward (it_move I forward it) = ks"
    using k i split laws(9-12) [OF i]
    by (auto simp: ahead_of_def Let_def it_move_def at_index_def split: if_splits)
qed

lemma ahead_seek:
  assumes "iterator_laws I snap pos"
  shows "ahead_of snap pos forward (it_seek I seekpos1 it) = visit (map fst (snap it)) forward seekpos1"
  by (simp add: ahead_of_def visit_def iterator_lawsD(7,8) [OF assms] at_index_def Let_def)

interpretation mem_forward: cursor mem_rocks True "ahead_of mem_snap mem_pos True"
  by (rule iterator_laws_cursor) (rule mem_iterator_laws)

interpretation mem_backward: cursor mem_rocks False "ahead_of mem_snap mem_pos False"
  by (rule iterator_laws_cursor) (rule mem_iterator_laws)

section \<open>The query refines its specification\<close>

text \<open>The stages before the scan leave the cursor on the rows the specification leaves.\<close>

lemma skip_rows_Nil [simp]: "skip_rows p seekpos1 offset [] = []"
  by (simp add: skip_rows_def)

lemma query_position_spec:
  assumes "iterator_laws I snap pos"
  shows "\<exists>it. query_position I p seekpos1 offset it0 =
      Some (it, ahead_of snap pos (q_forward p) it \<noteq> [])
    \<and> ahead_of snap pos (q_forward p) it =
        skip_rows p seekpos1 offset (visit (map fst (snap it0)) (q_forward p) seekpos1)"
proof -
  let ?it = "it_seek I seekpos1 it0"
  define ahead where "ahead = ahead_of snap pos (q_forward p)"
  define rows where "rows = visit (map fst (snap it0)) (q_forward p) seekpos1"
  define rows1 where "rows1 = (if q_skipOne p \<and> (q_forward p \<longrightarrow> rows \<noteq> [] \<and> prefix seekpos1 (hd rows))
    then tl rows else rows)"
  define rows2 where "rows2 = (if q_skipFirstMatch p then dropWhile (prefix seekpos1) rows1 else rows1)"
  have c: "cursor I (q_forward p) ahead"
    unfolding ahead_def by (rule iterator_laws_cursor [OF assms])
  note valid = cursor.valid_ahead [OF c]
  have start: "ahead ?it = rows"
    unfolding ahead_def rows_def by (rule ahead_seek [OF assms])
  have spec: "skip_rows p seekpos1 offset rows = drop offset rows2"
    by (simp add: skip_rows_def rows1_def rows2_def)
  show ?thesis
    unfolding ahead_def [symmetric] rows_def [symmetric]
  proof (cases "rows = []")
    case True
    then show "\<exists>it. query_position I p seekpos1 offset it0 = Some (it, ahead it \<noteq> [])
        \<and> ahead it = skip_rows p seekpos1 offset rows"
      using start iterator_lawsD(1) [OF assms] valid
      by (auto simp: query_position_def Let_def)
  next
    case False
    have "\<exists>it1. (if q_skipOne p then skip_one I (q_forward p) seekpos1 ?it else (?it, True))
        = (it1, rows1 \<noteq> []) \<and> ahead it1 = rows1"
      using cursor.skip_one_ahead [OF c, of ?it seekpos1] start False
      by (cases "q_skipOne p") (auto simp: rows1_def)
    then obtain it1 where one: "(if q_skipOne p then skip_one I (q_forward p) seekpos1 ?it
        else (?it, True)) = (it1, rows1 \<noteq> [])" "ahead it1 = rows1"
      by blast
    show "\<exists>it. query_position I p seekpos1 offset it0 = Some (it, ahead it \<noteq> [])
        \<and> ahead it = skip_rows p seekpos1 offset rows"
    proof (cases "rows1 = []")
      case True
      then show ?thesis
        using one start False iterator_lawsD(1) [OF assms] valid
        by (auto simp: query_position_def Let_def spec rows2_def simp del: if_split)
    next
      case ne1: False
      then show ?thesis
        using one start False iterator_lawsD(1) [OF assms] valid
          cursor.skip_stages_ahead [OF c, of it1 "q_skipFirstMatch p" seekpos1 offset]
        by (cases "q_skipFirstMatch p") (simp_all add: query_position_def Let_def spec rows2_def del: if_split)
    qed
  qed
qed

lemma set_skip_rows: "set (skip_rows p seekpos1 offset ks) \<subseteq> set ks"
  by (auto simp: skip_rows_def Let_def dest!: in_set_dropD set_dropWhileD list.set_sel(2)
      intro: list.set_sel(2) split: if_splits)

lemma set_visit: "set (visit ks forward seekpos1) \<subseteq> set ks"
  by (auto simp: visit_def Let_def dest: in_set_dropD in_set_takeD split: if_splits)

lemma Ndb_query_spec:
  assumes "db_laws R cont snap pos" and "seekpos1 \<noteq> []"
    and "query_plan seekpos2 ancestorOnly withCursor lastFilterOp = Inr p"
    and "\<forall>k \<in> set (map fst (cont d)). row_ok p k"
  shows "Ndb_query R d seekpos1 seekpos2 kindid shapeid ancestorOnly withCursor lastFilterOp
           offset limit f s err =
    Some (Inr (fold f (query_results p seekpos1 kindid shapeid offset limit (map fst (cont d))) s, err))"
proof -
  let ?ahead = "ahead_of snap pos (q_forward p)"
  note laws = db_lawsD(1) [OF assms(1)]
  note c = iterator_laws_cursor [OF laws, of "q_forward p"]
  let ?rows = "skip_rows p seekpos1 offset (visit (map fst (cont d)) (q_forward p) seekpos1)"
  obtain it where it: "query_position R p seekpos1 offset (db_new_iterator R d) =
      Some (it, ?rows \<noteq> [])" "?ahead it = ?rows"
    using query_position_spec [OF laws, of p seekpos1 offset "db_new_iterator R d"]
    by (auto simp: db_lawsD(3) [OF assms(1)])
  have ok: "\<forall>k \<in> set ?rows. row_ok p k"
    using assms(4) set_skip_rows set_visit by (meson subsetD)
  obtain it' where scan: "?rows \<noteq> [] \<Longrightarrow>
      scan R p (drop_bit 4 (hd seekpos1)) seekpos1 kindid shapeid limit f it 0 s =
      Some (Inr (it', fold f (take limit (row_results kindid shapeid
        (takeWhile (row_in_range p (drop_bit 4 (hd seekpos1)) seekpos1) ?rows))) s))"
    using cursor.scan_ahead [OF c refl, of it "drop_bit 4 (hd seekpos1)" seekpos1 kindid shapeid
        limit f 0 s] it(2) ok by auto
  show ?thesis
  proof (cases "?rows = []")
    case True
    then show ?thesis
      using it assms(2,3) iterator_lawsD(1) [OF laws]
      by (simp add: Ndb_query_def query_finish_def query_results_def row_results_def)
  next
    case False
    then show ?thesis
      using it scan assms(2,3) iterator_lawsD(1) [OF laws]
      by (simp add: Ndb_query_def query_finish_def query_results_def hd_conv_nth)
  qed
qed

end
