(* ===== verification/QueryResults.thy ===== *)
theory QueryResults
  imports Query
begin

text \<open>
  What the queries give, operator by operator, on a database that keeps the laws of \<open>RocksDB\<close>:
  the specification \<open>query_results\<close> of \<open>Query\<close> worked out for each filter operator as a
  selection of the stored keys, and the behaviours in which the code departs from its comments.
\<close>

section \<open>Keys with a common prefix, keys of one block\<close>

lemma prefix_le: "prefix p (k :: bytes) \<Longrightarrow> p \<le> k"
proof (induction p arbitrary: k)
  case (Cons x p)
  then show ?case by (cases k) auto
qed simp

lemma prefix_between: "p \<le> k \<Longrightarrow> k \<le> k' \<Longrightarrow> prefix p k' \<Longrightarrow> prefix p (k :: bytes)"
proof (induction p arbitrary: k k')
  case (Cons x p)
  then show ?case by (cases k; cases k') auto
qed simp

lemma hd_mono: "(k :: bytes) \<noteq> [] \<Longrightarrow> k \<le> k' \<Longrightarrow> hd k \<le> hd k'"
  by (cases k; cases k') auto

lemma drop_bit_mono: "(a :: u8) \<le> b \<Longrightarrow> drop_bit n a \<le> drop_bit n b"
  unfolding word_le_nat_alt unat_drop_bit_eq
  by (simp add: drop_bit_eq_div div_le_mono)

lemma block_between:
  assumes "(p :: bytes) \<noteq> []" and "p \<le> k" and "k \<le> k'" and "drop_bit 4 (hd k') = drop_bit 4 (hd p)"
  shows "drop_bit 4 (hd k) = drop_bit 4 (hd p)"
proof -
  have "k \<noteq> []" using assms(1,2) by (cases p) auto
  then have "hd p \<le> hd k" "hd k \<le> hd k'"
    using assms hd_mono by auto
  then have "drop_bit 4 (hd p) \<le> drop_bit 4 (hd k)" "drop_bit 4 (hd k) \<le> drop_bit 4 (hd k')"
    by (simp_all add: drop_bit_mono)
  then show ?thesis using assms(4) by simp
qed


section \<open>Selections of a sorted list\<close>

lemma takeWhile_filter_down:
  "sorted_wrt (\<lambda>x y. P y \<longrightarrow> P x) xs \<Longrightarrow> takeWhile P xs = filter P xs"
  by (induction xs) (auto simp: filter_False)

lemma dropWhile_filter_down:
  "sorted_wrt (\<lambda>x y. P y \<longrightarrow> P x) xs \<Longrightarrow> dropWhile P xs = filter (\<lambda>x. \<not> P x) xs"
  by (induction xs) (auto intro!: filter_True [symmetric])

lemma sorted_seek:
  assumes "sorted_wrt (<) (ks :: bytes list)"
  shows "take (seek_index p ks) ks = filter (\<lambda>k. k < p) ks"
    and "drop (seek_index p ks) ks = filter (\<lambda>k. p \<le> k) ks"
proof -
  have down: "sorted_wrt (\<lambda>x y. y < p \<longrightarrow> x < p) ks"
    using assms by (rule sorted_wrt_mono_rel [rotated]) auto
  have "take (seek_index p ks) ks = takeWhile (\<lambda>k. k < p) ks"
    by (simp add: seek_index_def takeWhile_eq_take [symmetric])
  then show "take (seek_index p ks) ks = filter (\<lambda>k. k < p) ks"
    using takeWhile_filter_down [OF down] by simp
  have "drop (seek_index p ks) ks = dropWhile (\<lambda>k. k < p) ks"
    by (simp add: seek_index_def dropWhile_eq_drop [symmetric])
  then show "drop (seek_index p ks) ks = filter (\<lambda>k. p \<le> k) ks"
    using dropWhile_filter_down [OF down] by (simp add: not_less)
qed

text \<open>The keys of the block of the seek position: those with its discriminator.\<close>

definition same_block :: "bytes \<Rightarrow> bytes \<Rightarrow> bool" where
  "same_block p k \<longleftrightarrow> drop_bit 4 (hd k) = drop_bit 4 (hd p)"

lemma prefix_same_block: "p \<noteq> [] \<Longrightarrow> prefix p k \<Longrightarrow> same_block p k"
  by (cases p; cases k) (auto simp: same_block_def)

lemma takeWhile_prefix_sorted:
  assumes "sorted_wrt (<) (ks :: bytes list)" and "\<forall>k \<in> set ks. p \<le> k"
  shows "takeWhile (prefix p) ks = filter (prefix p) ks"
    and "dropWhile (prefix p) ks = filter (\<lambda>k. \<not> prefix p k) ks"
proof -
  have "sorted_wrt (\<lambda>x y. prefix p y \<longrightarrow> prefix p x) ks"
    using assms(1) by (rule sorted_wrt_mono_rel [rotated])
      (use assms(2) prefix_between order.strict_implies_order in blast)
  then show "takeWhile (prefix p) ks = filter (prefix p) ks"
    and "dropWhile (prefix p) ks = filter (\<lambda>k. \<not> prefix p k) ks"
    by (simp_all add: takeWhile_filter_down dropWhile_filter_down)
qed

lemma takeWhile_drop_down:
  "sorted_wrt (\<lambda>x y. P y \<longrightarrow> P x) xs \<Longrightarrow> takeWhile P (drop n xs) = drop n (filter P xs)"
proof (induction xs arbitrary: n)
  case (Cons x xs)
  show ?case
  proof (cases n)
    case 0
    then show ?thesis using takeWhile_filter_down [OF Cons.prems] by simp
  next
    case (Suc m)
    have "filter P xs = []" if "\<not> P x"
      using Cons.prems that by (auto simp: filter_empty_conv)
    then show ?thesis using Suc Cons by auto
  qed
qed simp

lemma down_prefix:
  assumes "sorted_wrt (<) (ks :: bytes list)" and "\<forall>k \<in> set ks. p \<le> k"
  shows "sorted_wrt (\<lambda>x y. prefix p y \<longrightarrow> prefix p x) ks"
  using assms(1) by (rule sorted_wrt_mono_rel [rotated])
    (use assms(2) prefix_between order.strict_implies_order in blast)

lemma down_block:
  assumes "sorted_wrt (<) (ks :: bytes list)" and "\<forall>k \<in> set ks. p \<le> k" and "p \<noteq> []"
  shows "sorted_wrt (\<lambda>x y. same_block p y \<longrightarrow> same_block p x) ks"
  using assms(1) by (rule sorted_wrt_mono_rel [rotated])
    (use assms(2,3) block_between order.strict_implies_order in \<open>unfold same_block_def, blast\<close>)


section \<open>The rows each operator selects\<close>

fun op_selects :: "QueryFilterOp \<Rightarrow> bytes \<Rightarrow> bytes \<Rightarrow> bool" where
  "op_selects F_EQ p k = prefix p k"
| "op_selects F_GTE p k = (p \<le> k \<and> same_block p k)"
| "op_selects F_GT p k = (p \<le> k \<and> \<not> prefix p k \<and> same_block p k)"
| "op_selects F_LTE p k = ((k < p \<or> prefix p k) \<and> same_block p k)"
| "op_selects F_LT p k = (k < p \<and> same_block p k)"

lemma op_selects_fun:
  "op_selects F_EQ p = prefix p"
  "op_selects F_GTE p = (\<lambda>k. p \<le> k \<and> same_block p k)"
  "op_selects F_GT p = (\<lambda>k. p \<le> k \<and> \<not> prefix p k \<and> same_block p k)"
  "op_selects F_LT p = (\<lambda>k. k < p \<and> same_block p k)"
  by (simp_all add: fun_eq_iff)

lemma query_plan_simps:
  "query_plan s2 True wc op = Inr \<lparr>q_forward = True, q_skipOne = \<not> wc, q_skipFirstMatch = False,
     q_stopIfNotMatch = True, q_seekpos2 = []\<rparr>"
  "query_plan s2 False wc (QueryFilterOp_val F_EQ) = Inr \<lparr>q_forward = True, q_skipOne = False,
     q_skipFirstMatch = False, q_stopIfNotMatch = True, q_seekpos2 = s2\<rparr>"
  "query_plan s2 False wc (QueryFilterOp_val F_GTE) = Inr \<lparr>q_forward = True, q_skipOne = False,
     q_skipFirstMatch = False, q_stopIfNotMatch = False, q_seekpos2 = s2\<rparr>"
  "query_plan s2 False wc (QueryFilterOp_val F_GT) = Inr \<lparr>q_forward = True, q_skipOne = False,
     q_skipFirstMatch = \<not> wc, q_stopIfNotMatch = False, q_seekpos2 = s2\<rparr>"
  "query_plan s2 False wc (QueryFilterOp_val F_LTE) = Inr \<lparr>q_forward = False, q_skipOne = False,
     q_skipFirstMatch = False, q_stopIfNotMatch = False, q_seekpos2 = s2\<rparr>"
  "query_plan s2 False wc (QueryFilterOp_val F_LT) = Inr \<lparr>q_forward = False, q_skipOne = \<not> wc,
     q_skipFirstMatch = \<not> wc, q_stopIfNotMatch = False, q_seekpos2 = s2\<rparr>"
  by (simp_all add: query_plan_def Let_def)

lemma row_in_range_stop:
  assumes "p \<noteq> []" and "q_stopIfNotMatch pl" and "q_seekpos2 pl = []"
  shows "row_in_range pl (drop_bit 4 (hd p)) p = prefix p"
proof (rule ext)
  fix k
  show "row_in_range pl (drop_bit 4 (hd p)) p k = prefix p k"
    using assms(2,3) prefix_same_block [OF assms(1), of k]
    by (auto simp: row_in_range_def same_block_def)
qed

lemma row_in_range_block:
  assumes "\<not> q_stopIfNotMatch pl" and "q_seekpos2 pl = []"
  shows "row_in_range pl (drop_bit 4 (hd p)) p = same_block p"
  using assms by (auto simp: row_in_range_def same_block_def fun_eq_iff)

lemma visit_forward:
  "sorted_wrt (<) ks \<Longrightarrow> visit ks True p = filter (\<lambda>k. p \<le> k) ks"
  by (simp add: visit_def sorted_seek)

lemma visit_backward:
  assumes "sorted_wrt (<) ks"
  shows "visit ks False p = (case filter (\<lambda>k. p \<le> k) ks of
    [] \<Rightarrow> [] | u # _ \<Rightarrow> u # rev (filter (\<lambda>k. k < p) ks))"
proof -
  let ?i = "seek_index p ks"
  show ?thesis
  proof (cases "?i < length ks")
    case True
    then have "drop ?i ks = ks ! ?i # drop (Suc ?i) ks"
      by (simp add: Cons_nth_drop_Suc)
    then show ?thesis
      using True by (simp add: visit_def rev_take_Suc Let_def sorted_seek [OF assms, symmetric])
  next
    case False
    then show ?thesis
      by (simp add: visit_def sorted_seek(2) [OF assms, symmetric])
  qed
qed

text \<open>The rows the scan goes through, for the forward operators and for the ancestor query.\<close>

lemma forward_rows:
  fixes ks :: "bytes list" and op :: QueryFilterOp
  assumes "sorted_wrt (<) ks" and "p \<noteq> []" and "op \<le> F_GT"
    and plan: "query_plan [] False False (QueryFilterOp_val op) = Inr pl"
  shows "takeWhile (row_in_range pl (drop_bit 4 (hd p)) p)
           (skip_rows pl p n (visit ks (q_forward pl) p)) = drop n (filter (op_selects op p) ks)"
proof -
  let ?up = "filter (\<lambda>k. p \<le> k) ks" and ?gt = "filter (\<lambda>k. \<not> prefix p k) (filter (\<lambda>k. p \<le> k) ks)"
  have up: "sorted_wrt (<) ?up" "\<forall>k \<in> set ?up. p \<le> k"
    using assms(1) by (simp_all add: sorted_wrt_filter)
  have gt: "sorted_wrt (<) ?gt" "\<forall>k \<in> set ?gt. p \<le> k"
    using sorted_wrt_filter [OF up(1)] by simp_all
  have eq: "filter (prefix p) ?up = filter (prefix p) ks"
    by (auto simp: prefix_le intro: filter_cong)
  have visit: "visit ks True p = ?up"
    using assms(1) by (rule visit_forward)
  consider "op = F_EQ" | "op = F_GTE" | "op = F_GT"
    using assms(3) by (auto simp: QueryFilterOp_order)
  then show ?thesis
  proof cases
    case 1
    then have "row_in_range pl (drop_bit 4 (hd p)) p = prefix p" "q_forward pl"
      "skip_rows pl p n ?up = drop n ?up"
      using plan assms(2) by (auto simp: query_plan_simps row_in_range_stop skip_rows_def)
    then show ?thesis
      using 1 takeWhile_drop_down [OF down_prefix [OF up], of n] visit eq
      by (simp add: op_selects_fun del: filter_filter)
  next
    case 2
    then have "row_in_range pl (drop_bit 4 (hd p)) p = same_block p" "q_forward pl"
      "skip_rows pl p n ?up = drop n ?up"
      using plan by (auto simp: query_plan_simps row_in_range_block skip_rows_def)
    then show ?thesis
      using 2 takeWhile_drop_down [OF down_block [OF up assms(2)], of n] visit
      by (simp add: op_selects_fun)
  next
    case 3
    then have "row_in_range pl (drop_bit 4 (hd p)) p = same_block p" "q_forward pl"
      "skip_rows pl p n ?up = drop n ?gt"
      using plan takeWhile_prefix_sorted(2) [OF up]
      by (auto simp: query_plan_simps row_in_range_block skip_rows_def)
    then show ?thesis
      using 3 takeWhile_drop_down [OF down_block [OF gt assms(2)], of n] visit
      by (simp add: op_selects_fun conj_assoc)
  qed
qed

lemma ancestor_rows:
  fixes ks :: "bytes list"
  assumes "sorted_wrt (<) ks" and "p \<noteq> []" and plan: "query_plan s2 True wc op = Inr pl"
  shows "takeWhile (row_in_range pl (drop_bit 4 (hd p)) p)
           (skip_rows pl p n (visit ks (q_forward pl) p))
         = drop (if wc then n else Suc n) (filter (prefix p) ks)"
proof -
  let ?up = "filter (\<lambda>k. p \<le> k) ks"
  have up: "sorted_wrt (<) ?up" "\<forall>k \<in> set ?up. p \<le> k"
    using assms(1) by (simp_all add: sorted_wrt_filter)
  have eq: "filter (prefix p) ?up = filter (prefix p) ks"
    by (auto simp: prefix_le intro: filter_cong)
  note run = takeWhile_drop_down [OF down_prefix [OF up]]
  have none: "filter (prefix p) ?up = []" if "?up = [] \<or> \<not> prefix p (hd ?up)"
    using takeWhile_prefix_sorted(1) [OF up] that by (cases ?up) auto
  have rows: "skip_rows pl p n (visit ks (q_forward pl) p) =
      (if \<not> wc \<and> ?up \<noteq> [] \<and> prefix p (hd ?up) then drop (Suc n) ?up else drop n ?up)"
    using plan assms(1) by (auto simp: query_plan_simps visit_forward skip_rows_def drop_Suc)
  have range: "row_in_range pl (drop_bit 4 (hd p)) p = prefix p"
    using plan assms(2) by (intro row_in_range_stop) (auto simp: query_plan_simps)
  show ?thesis
    unfolding rows range
    using run [of n] run [of "Suc n"] none by (auto simp: eq simp del: filter_filter)
qed


section \<open>Properties\<close>

definition collect :: "bytes \<Rightarrow> bytes list \<Rightarrow> bytes list" where
  "collect e acc = acc @ [e]"

lemma row_ok_no_end: "q_seekpos2 p = [] \<Longrightarrow> row_ok p k \<longleftrightarrow> 2 \<le> length k"
  by (simp add: row_ok_def)

lemmas query_eval = mem_entries_def mem_db_laws row_ok_def row_results_def entity_of_def
  ndbEntityBytesFromSlice_def Discriminator_of_def entity_mismatch_def rd_def same_block_def
  op_selects_fun collect_def query_plan_simps

text \<open>C5. On a database that keeps the laws and whose keys all have at least two bytes and, where the query compares them
  with an end position, the length of that, a query with an existing filter operator and a seek position that is not empty
  returns, and it calls back exactly the entities the specification lists: seek, skip, offset, scan to the first
  row out of range, filter, limit.  Kind, shape, end position, flags, offset and limit are arbitrary.\<close>

theorem query_refines:
  assumes "db_laws R cont snap pos" and "seekpos1 \<noteq> []"
    and "query_plan seekpos2 ancestorOnly withCursor lastFilterOp = Inr p"
    and "\<forall>k \<in> set (map fst (cont d)). row_ok p k"
  shows "Ndb_query R d seekpos1 seekpos2 kindid shapeid ancestorOnly withCursor lastFilterOp
           offset limit f s err =
    Some (Inr (fold f (query_results p seekpos1 kindid shapeid offset limit (map fst (cont d))) s, err))"
  using assms by (rule Ndb_query_spec)

theorem query_refines_witness:
  "Ndb_query mem_rocks [Put [0x20, 1, 0] [7], Put [0x20, 5, 2] [8], Put [0x20, 9, 2] [9]]
     [0x20, 5] [] 0 0 False True (QueryFilterOp_val F_LTE) 0 5 collect [] [] =
   Some (Inr ([[0x20, 5, 2]], []))"
  using query_refines [of mem_rocks mem_entries mem_snap mem_pos "[0x20, 5]" "[]" False True
      "QueryFilterOp_val F_LTE" _ "[Put [0x20, 1, 0] [7], Put [0x20, 5, 2] [8], Put [0x20, 9, 2] [9]]"
      0 0 0 5 collect "[]" "[]", OF _ _ query_plan_simps(5)]
  by (simp add: query_eval query_results_def visit_def seek_index_def skip_rows_def
      row_in_range_def)

text \<open>C16. Forward operators: without a cursor and an end position, \<^verbatim>\<open>F_EQ\<close> gives the entities of
  exactly the stored keys that start with the seek position, \<^verbatim>\<open>F_GTE\<close> those of its block at or
  above it, \<^verbatim>\<open>F_GT\<close> those above it that do not start with it; in key order, after the offset,
  up to the limit.\<close>

theorem query_forward_operators:
  assumes "db_laws R cont snap pos" and "p \<noteq> []" and "op \<le> F_GT"
    and "\<forall>k \<in> set (map fst (cont d)). 2 \<le> length k"
  shows "Ndb_query R d p [] kindid shapeid False False (QueryFilterOp_val op) offset limit f s err =
    Some (Inr (fold f (take limit (row_results kindid shapeid
      (drop offset (filter (op_selects op p) (map fst (cont d)))))) s, err))"
proof -
  obtain pl where pl: "query_plan [] False False (QueryFilterOp_val op) = Inr pl" "q_seekpos2 pl = []"
    by (cases op) (auto simp: query_plan_simps)
  then show ?thesis
    using Ndb_query_spec [OF assms(1,2) pl(1), of d kindid shapeid offset limit f s err] assms(4)
      forward_rows [OF db_lawsD(2) [OF assms(1), of d] assms(2,3) pl(1), of offset]
    by (simp add: row_ok_no_end query_results_def)
qed

theorem query_forward_operators_witness:
  "Ndb_query mem_rocks [Put [0x20, 1, 2] [7], Put [0x20, 5, 2] [8], Put [0x20, 5, 10] [9]]
     [0x20, 5] [] 0 0 False False (QueryFilterOp_val F_EQ) 0 5 collect [] [] =
   Some (Inr ([[0x20, 5, 2], [0x20, 5, 10]], []))"
  using query_forward_operators [of mem_rocks mem_entries mem_snap mem_pos "[0x20, 5]" F_EQ
      "[Put [0x20, 1, 2] [7], Put [0x20, 5, 2] [8], Put [0x20, 5, 10] [9]]" 0 0 0 5 collect "[]" "[]"]
  by (simp add: query_eval QueryFilterOp_order)

text \<open>C18. Ancestor queries, on keys of at least two bytes: whatever the filter operator and the end position, the
  query gives the entities of the stored keys that start with the seek position, less the first of them unless a
  cursor is given.  So when the seek position is a stored key these are its descendants; when it is not stored the first
  descendant is lost; and with a cursor the seek position itself, when stored, is among them.\<close>

theorem query_ancestor:
  assumes "db_laws R cont snap pos" and "p \<noteq> []"
    and "\<forall>k \<in> set (map fst (cont d)). 2 \<le> length k"
  shows "Ndb_query R d p seekpos2 kindid shapeid True withCursor lastFilterOp offset limit f s err =
    Some (Inr (fold f (take limit (row_results kindid shapeid
      (drop (if withCursor then offset else Suc offset)
        (filter (prefix p) (map fst (cont d)))))) s, err))"
  using Ndb_query_spec [OF assms(1,2) query_plan_simps(1) [of seekpos2 withCursor lastFilterOp],
      of d kindid shapeid offset limit f s err] assms(3)
    ancestor_rows [OF db_lawsD(2) [OF assms(1), of d] assms(2)
      query_plan_simps(1) [of seekpos2 withCursor lastFilterOp], of offset]
  by (simp add: row_ok_no_end query_results_def split del: if_split)

theorem query_ancestor_witness:
  "Ndb_query mem_rocks [Put [0x20, 5, 2] [8], Put [0x20, 5, 2, 7, 2] [1], Put [0x20, 5, 2, 7, 3] [1],
       Put [0x20, 9, 2] [9]]
     [0x20, 5] [0x20] 0 0 True False 77 0 5 collect [] [] =
   Some (Inr ([[0x20, 5, 2, 7, 2]], []))"
  using query_ancestor [of mem_rocks mem_entries mem_snap mem_pos "[0x20, 5]"
      "[Put [0x20, 5, 2] [8], Put [0x20, 5, 2, 7, 2] [1], Put [0x20, 5, 2, 7, 3] [1], Put [0x20, 9, 2] [9]]"
      "[0x20]" 0 0 False 77 0 5 collect "[]" "[]"]
  by (simp add: query_eval)



text \<open>A backward query past the last key: when every stored key is below the seek position,
  \<^verbatim>\<open>F_LTE\<close> and \<^verbatim>\<open>F_LT\<close> give nothing, although every key of the block satisfies them.\<close>

theorem query_backward_past_end:
  assumes "db_laws R cont snap pos" and "p \<noteq> []" and "F_LTE \<le> op"
    and "\<forall>k \<in> set (map fst (cont d)). 2 \<le> length k \<and> k < p"
  shows "Ndb_query R d p [] kindid shapeid False withCursor (QueryFilterOp_val op) offset limit f s err
           = Some (Inr (s, err))"
proof -
  have none: "filter (\<lambda>k. p \<le> k) (map fst (cont d)) = []"
    using assms(4) by (auto simp: filter_empty_conv not_le)
  obtain pl where pl: "query_plan [] False withCursor (QueryFilterOp_val op) = Inr pl"
      "q_seekpos2 pl = []" "q_forward pl = False"
  proof -
    from assms(3) consider "op = F_LTE" | "op = F_LT"
      by (auto simp: QueryFilterOp_order)
    then show thesis
      by cases (auto simp: query_plan_simps intro: that)
  qed
  have "visit (map fst (cont d)) False p = []"
    using visit_backward [OF db_lawsD(2) [OF assms(1), of d], of p] none by simp
  then show ?thesis
    using Ndb_query_spec [OF assms(1,2) pl(1), of d kindid shapeid offset limit f s err] assms(4) pl
    by (simp add: row_ok_no_end query_results_def row_results_def)
qed

theorem query_backward_past_end_witness:
  "Ndb_query mem_rocks [Put [0x20, 1, 2] [7], Put [0x20, 3, 2] [8]]
     [0x20, 5] [] 0 0 False False (QueryFilterOp_val F_LT) 0 5 collect [] [] = Some (Inr ([], []))"
  using query_backward_past_end [of mem_rocks mem_entries mem_snap mem_pos "[0x20, 5]" F_LT
      "[Put [0x20, 1, 2] [7], Put [0x20, 3, 2] [8]]" 0 0 False 0 5 collect "[]" "[]"]
  by (simp add: query_eval QueryFilterOp_order)

text \<open>C40. The end position: a forward query whose first row is still below its end position stops
  there and gives nothing, because the scan leaves the loop when the end position is above the
  row, not when the row is above the end position.\<close>

theorem query_end_position:
  assumes "db_laws R cont snap pos" and "p \<noteq> []"
    and "\<forall>k \<in> set (map fst (cont d)). 2 \<le> length k \<and> length seekpos2 \<le> length k"
    and "filter (\<lambda>k. p \<le> k) (map fst (cont d)) = u # us" and "take (length seekpos2) u < seekpos2"
  shows "Ndb_query R d p seekpos2 kindid shapeid False withCursor (QueryFilterOp_val F_GTE)
           0 limit f s err = Some (Inr (s, err))"
proof -
  let ?pl = "\<lparr>q_forward = True, q_skipOne = False, q_skipFirstMatch = False,
     q_stopIfNotMatch = False, q_seekpos2 = seekpos2\<rparr>"
  have "visit (map fst (cont d)) True p = u # us"
    using visit_forward [OF db_lawsD(2) [OF assms(1), of d], of p] assms(4) by simp
  moreover have "\<not> row_in_range ?pl discrim p u" for discrim
    using assms(5) by (auto simp: row_in_range_def)
  ultimately show ?thesis
    using Ndb_query_spec [OF assms(1,2) query_plan_simps(3) [of seekpos2 withCursor],
        of d kindid shapeid 0 limit f s err] assms(3)
    by (simp add: row_ok_def query_results_def row_results_def skip_rows_def)
qed

theorem query_end_position_witness:
  "Ndb_query mem_rocks [Put [0x20, 1, 2] [7], Put [0x20, 3, 2] [8]]
     [0x20, 1] [0x20, 2] 0 0 False False (QueryFilterOp_val F_GTE) 0 5 collect [] [] =
   Some (Inr ([], []))"
  using query_end_position [of mem_rocks mem_entries mem_snap mem_pos "[0x20, 1]"
      "[Put [0x20, 1, 2] [7], Put [0x20, 3, 2] [8]]" "[0x20, 2]" "[0x20, 1, 2]" "[[0x20, 3, 2]]"
      0 0 False 5 collect "[]" "[]"]
  by (simp add: query_eval)

text \<open>Errors of a query: an unknown filter operator is reported before any iterator is made and
  nothing is called back; an iterator in error when it is created ends the query with its
  status; an empty seek position is read outside its bounds.  This holds for every database.\<close>

theorem query_errors:
  "Ndb_query R d [] seekpos2 kindid shapeid ancestorOnly withCursor op offset limit f s err
     = Some (Inl OobRead)
   \<and> (QueryFilterOp_of op = None \<longrightarrow>
      Ndb_query R d (b # bs) seekpos2 kindid shapeid False withCursor op offset limit f s err
        = Some (Inr (s, invalid_op_msg op)))
   \<and> (\<not> st_ok (it_status R (db_new_iterator R d)) \<longrightarrow>
      (ancestorOnly \<or> QueryFilterOp_of op \<noteq> None) \<longrightarrow>
      Ndb_query R d (b # bs) seekpos2 kindid shapeid ancestorOnly withCursor op offset limit f s err
        = Some (Inr (s, st_string (it_status R (db_new_iterator R d)))))"
  by (auto simp: Ndb_query_def query_plan_def query_position_def query_finish_def Let_def
      split: QueryFilterOp.splits)

definition broken_rocks :: "(mem_db, mem_it) rocksdb" where
  "broken_rocks = mem_rocks\<lparr>it_status := (\<lambda>it. \<lparr>st_ok = False, st_not_found = False,
     st_string = ''IO error''\<rparr>)\<rparr>"

theorem query_errors_witness:
  "Ndb_query mem_rocks [] [0x20] [] 0 0 False False 9 0 5 collect [] [] =
     Some (Inr ([], ''ndb/leveldb: Invalid last filter operator: [9]''))
   \<and> Ndb_query broken_rocks [] [0x20] [] 0 0 False False 1 0 5 collect [] [] =
     Some (Inr ([], ''IO error''))"
proof -
  have op: "QueryFilterOp_of 9 = None" "QueryFilterOp_of 1 \<noteq> None"
    by (simp_all add: QueryFilterOp_of_def)
  moreover have "invalid_op_msg 9 = ''ndb/leveldb: Invalid last filter operator: [9]''"
    by code_simp
  ultimately show ?thesis
    using query_errors [of mem_rocks "[]" "[]" 0 0 False False 9 0 5 collect "[]" "[]" "0x20" "[]"]
      query_errors [of broken_rocks "[]" "[]" 0 0 False False 1 0 5 collect "[]" "[]" "0x20" "[]"]
    by (simp add: broken_rocks_def)
qed

text \<open>Reads of the scan: a forward query with an end position longer than the first row of its
  block reads outside that row.\<close>

theorem query_short_row:
  assumes "db_laws R cont snap pos" and "p \<noteq> []" and "0 < limit"
    and "filter (\<lambda>k. p \<le> k) (map fst (cont d)) = u # us" and "same_block p u"
    and "length u < length seekpos2"
  shows "Ndb_query R d p seekpos2 kindid shapeid False withCursor (QueryFilterOp_val F_GTE)
           0 limit f s err = Some (Inl OobRead)"
proof -
  let ?pl = "\<lparr>q_forward = True, q_skipOne = False, q_skipFirstMatch = False,
     q_stopIfNotMatch = False, q_seekpos2 = seekpos2\<rparr>"
  note laws = db_lawsD(1) [OF assms(1)]
  have "visit (map fst (cont d)) True p = u # us"
    using visit_forward [OF db_lawsD(2) [OF assms(1), of d], of p] assms(4) by simp
  then obtain it where it: "query_position R ?pl p 0 (db_new_iterator R d) = Some (it, True)"
      "ahead_of snap pos True it = u # us"
    using query_position_spec [OF laws, of ?pl p 0 "db_new_iterator R d"] db_lawsD(3) [OF assms(1)]
    by (auto simp: skip_rows_def)
  have "u \<noteq> []"
    using assms(2,4) by (auto simp: filter_eq_Cons_iff)
  then have "scan_test ?pl (drop_bit 4 (hd p)) p u = Inl OobRead"
    using assms(5,6) by (auto simp: scan_test_def rd_nonempty same_block_def simp del: rd_in)
  moreover have "it_key R it = u"
    using cursor.key_ahead [OF iterator_laws_cursor [OF laws] it(2)] .
  ultimately show ?thesis
    using it(1) assms(2,3)
    by (simp add: Ndb_query_def query_plan_simps scan.simps hd_conv_nth)
qed

theorem query_short_row_witness:
  "Ndb_query mem_rocks [Put [0x20, 1] [7]] [0x20, 1] [0x20, 2, 5] 0 0 False False
     (QueryFilterOp_val F_GTE) 0 5 collect [] [] = Some (Inl OobRead)"
  using query_short_row [of mem_rocks mem_entries mem_snap mem_pos "[0x20, 1]" 5
      "[Put [0x20, 1] [7]]" "[0x20, 1]" "[]" "[0x20, 2, 5]" 0 0 False collect "[]" "[]"]
  by (simp add: query_eval)

end
