(* ===== verification/Store.thy ===== *)
theory Store
  imports RocksDB
begin

text \<open>
  The point operations of \<^verbatim>\<open>class Ndb\<close> (\<^verbatim>\<open>ndb.cc\<close>): \<^verbatim>\<open>gets\<close>, \<^verbatim>\<open>get\<close>, \<^verbatim>\<open>getViaIter\<close>,
  \<^verbatim>\<open>update\<close> and \<^verbatim>\<open>incrdecr\<close>.  Out parameters are passed in and given back.  The state of an
  \<^verbatim>\<open>Ndb\<close> is the state of its database.  The big-endian codec of \<^verbatim>\<open>ugorji/util/bigendian.h\<close> is
  not under \<^verbatim>\<open>src/\<close> and is a parameter; \<open>codec64_laws\<close> states that it writes eight bytes
  and reads them back.  The key lock that \<^verbatim>\<open>incrdecr\<close> holds makes it one step of the state.
\<close>

section \<open>Strings and codec\<close>

definition BAD_ITERATOR_ERROR :: string where
  "BAD_ITERATOR_ERROR = ''<BAD_ITERATOR>''"

definition NOT_FOUND_ERROR :: string where
  "NOT_FOUND_ERROR = ''<App_Entity_Not_Found>''"

record codec64 =
  be_read :: "bytes \<Rightarrow> u64"
  be_write :: "u64 \<Rightarrow> bytes"

definition codec64_laws :: "codec64 \<Rightarrow> bool" where
  "codec64_laws C \<longleftrightarrow> (\<forall>v. length (be_write C v) = 8 \<and> be_read C (be_write C v) = v)"

text \<open>A codec that keeps the laws: most significant byte first.\<close>

definition be_bytes :: "u64 \<Rightarrow> bytes" where
  "be_bytes v = map (\<lambda>i. ucast (drop_bit (8 * i) v)) (rev [0..<8])"

definition be_value :: "bytes \<Rightarrow> u64" where
  "be_value bs = foldl (\<lambda>a b. push_bit 8 a OR ucast b) 0 bs"

definition be64 :: codec64 where
  "be64 = \<lparr>be_read = be_value, be_write = be_bytes\<rparr>"

lemma be_fold:
  "foldl (\<lambda>a b. push_bit 8 a OR ucast b) a (map (\<lambda>i. ucast (drop_bit (8 * i) v) :: u8) (rev [0..<m]))
     = (push_bit (8 * m) a OR take_bit (8 * m) v :: u64)"
proof (induction m arbitrary: a)
  case (Suc m)
  have "push_bit (8 * m) (push_bit 8 a OR ucast (ucast (drop_bit (8 * m) v) :: u8)) OR take_bit (8 * m) v
      = (push_bit (8 * Suc m) a OR take_bit (8 * Suc m) v :: u64)"
    by (rule bit_word_eqI) (auto simp: bit_simps add.commute)
  then show ?case using Suc by simp
qed simp

lemma be_value_bytes: "be_value (be_bytes v) = v"
proof -
  have "be_value (be_bytes v) = push_bit (8 * 8) 0 OR take_bit (8 * 8) v"
    unfolding be_value_def be_bytes_def by (rule be_fold)
  then show ?thesis by (simp add: take_bit_word_eq_self)
qed

lemma be64_laws: "codec64_laws be64"
  by (simp add: codec64_laws_def be64_def be_value_bytes) (simp add: be_bytes_def)

section \<open>Reads\<close>

text \<open>\<^verbatim>\<open>void get(key, value&, err&)\<close>\<close>

definition Ndb_get ::
    "('d, 'it, 'z) rocksdb_scheme \<Rightarrow> 'd \<Rightarrow> bytes \<Rightarrow> bytes \<times> string \<Rightarrow> bytes \<times> string" where
  "Ndb_get R db key = (\<lambda>(value, err).
     (let (s, tmp) = db_get R db key
      in if st_ok s then (tmp, err)
         else if st_not_found s then (value, NOT_FOUND_ERROR)
         else (value, st_string s)))"

text \<open>\<^verbatim>\<open>void gets(keys, values, errs)\<close>: the errors are appended to \<open>errs\<close>.\<close>

definition status_error :: "status \<Rightarrow> string" where
  "status_error s =
     (if st_ok s then [] else if st_not_found s then NOT_FOUND_ERROR else st_string s)"

definition Ndb_gets ::
    "('d, 'it, 'z) rocksdb_scheme \<Rightarrow> 'd \<Rightarrow> bytes list \<Rightarrow> string list \<Rightarrow> bytes list \<times> string list" where
  "Ndb_gets R db keys errs =
     (let r = db_multiget R db keys
      in (map snd r, errs @ map (status_error \<circ> fst) r))"

text \<open>\<^verbatim>\<open>void getViaIter(iter, key, value*, err&)\<close>\<close>

definition Ndb_getViaIter ::
    "('it, 'z) iterator_scheme \<Rightarrow> 'it \<Rightarrow> bytes \<Rightarrow> bytes \<times> string \<Rightarrow> 'it \<times> bytes \<times> string" where
  "Ndb_getViaIter I it key = (\<lambda>(value, err).
     (if st_ok (it_status I it) then
        (let it' = it_seek I key it
         in if \<not> st_ok (it_status I it') then (it', value, BAD_ITERATOR_ERROR)
            else if it_valid I it' \<and> key = it_key I it' then (it', it_value I it', err)
            else (it', value, NOT_FOUND_ERROR))
      else (it, value, BAD_ITERATOR_ERROR)))"

section \<open>Writes\<close>

text \<open>
  \<^verbatim>\<open>void update(putkeys, putvalues, delkeys, err&)\<close>: the batch holds the puts, in order, and
  then the deletes.  A put without a value at its index reads outside \<^verbatim>\<open>putvalues\<close>.
\<close>

fun put_ops :: "bytes list \<Rightarrow> bytes list \<Rightarrow> batch_op list res" where
  "put_ops [] vs = Inr []"
| "put_ops (k # ks) [] = Inl OobRead"
| "put_ops (k # ks) (v # vs) = res_bind (put_ops ks vs) (\<lambda>ops. Inr (Put k v # ops))"

definition Ndb_update ::
    "('d, 'it, 'z) rocksdb_scheme \<Rightarrow> 'd \<Rightarrow> bytes list \<Rightarrow> bytes list \<Rightarrow> bytes list \<Rightarrow> string \<Rightarrow>
     ('d \<times> string) res" where
  "Ndb_update R db putkeys putvalues delkeys err =
     res_bind (put_ops putkeys putvalues) (\<lambda>puts.
       (let (s, db') = db_write R db (puts @ map Delete delkeys)
        in Inr (db', if st_ok s then err else st_string s)))"

text \<open>\<^verbatim>\<open>void incrdecr(key, incr, delta, initVal, nextVal*, err&)\<close>\<close>

definition bad_size_msg :: "nat \<Rightarrow> string" where
  "bad_size_msg n = ''Value for incr/decr must be 8-bytes. Got: '' @ to_string (int n) @ '' bytes''"

definition Ndb_incrdecr ::
    "codec64 \<Rightarrow> ('d, 'it, 'z) rocksdb_scheme \<Rightarrow> 'd \<Rightarrow> bytes \<Rightarrow> bool \<Rightarrow> u16 \<Rightarrow> u16 \<Rightarrow>
     u64 \<times> string \<Rightarrow> 'd \<times> u64 \<times> string" where
  "Ndb_incrdecr C R db key incr delta initVal = (\<lambda>(nextVal, err).
     (let (s, t) = db_get R db key;
          old = (if st_ok s then
                   (if length t \<noteq> 8 then Inl (bad_size_msg (length t)) else Inr (be_read C t))
                 else if st_not_found s then Inr (ucast initVal)
                 else Inl (st_string s))
      in case old of
           Inl e \<Rightarrow> (db, nextVal, e)
         | Inr v0 \<Rightarrow>
             (let v = (if incr then v0 + ucast delta else v0 - ucast delta);
                  (s', db') = db_put R db key (be_write C v)
              in if st_ok s' then (db', v, err) else (db', nextVal, st_string s'))))"

section \<open>Point reads\<close>

text \<open>
  What the request handler relies on when it reads a key: the stored value, or the not-found
  error with the value untouched.
\<close>

locale point_read =
  fixes read :: "'d \<Rightarrow> bytes \<Rightarrow> bytes \<times> string \<Rightarrow> bytes \<times> string"
    and stored :: "'d \<Rightarrow> (bytes \<rightharpoonup> bytes)"
  assumes read_hit: "stored d k = Some v \<Longrightarrow> read d k (w, e) = (v, e)"
    and read_miss: "stored d k = None \<Longrightarrow> read d k (w, e) = (w, NOT_FOUND_ERROR)"
begin

lemma read_eq:
  "read d k (w, e) = (case stored d k of Some v \<Rightarrow> (v, e) | None \<Rightarrow> (w, NOT_FOUND_ERROR))"
  by (simp add: read_hit read_miss split: option.split)

lemma read_no_error_iff: "snd (read d k (w, [])) = [] \<longleftrightarrow> k \<in> dom (stored d)"
  by (auto simp: read_eq NOT_FOUND_ERROR_def split: option.splits)

lemma read_all:
  "map (\<lambda>k. read d k ([], [])) ks =
   map (\<lambda>k. case stored d k of Some v \<Rightarrow> (v, []) | None \<Rightarrow> ([], NOT_FOUND_ERROR)) ks"
  by (simp add: read_eq)

end

locale lawful_db =
  fixes R :: "('d, 'it, 'z) rocksdb_scheme" and cont snap pos
  assumes laws: "db_laws R cont snap pos"
begin

lemma get_status:
  "(case map_of (cont d) k of
      Some v \<Rightarrow> st_ok (fst (db_get R d k)) \<and> snd (db_get R d k) = v
    | None \<Rightarrow> \<not> st_ok (fst (db_get R d k)) \<and> st_not_found (fst (db_get R d k)))"
  using db_lawsD(4,5) [OF laws] by (auto split: option.split)

lemma seek_hit:
  "it_valid R (it_seek R k it) \<and> it_key R (it_seek R k it) = k \<longleftrightarrow> k \<in> dom (map_of (snap it))"
  "map_of (snap it) k = Some v \<Longrightarrow> it_value R (it_seek R k it) = v"
proof -
  note I = iterator_lawsD [OF db_lawsD(1) [OF laws]]
  let ?i = "seek_index k (map fst (snap it))"
  have m: "map_of (snap it) k =
      (if ?i < length (snap it) \<and> fst (snap it ! ?i) = k then Some (snd (snap it ! ?i)) else None)"
    using map_of_seek_index [OF I(3), of it k] by (simp add: Let_def)
  have p: "pos (it_seek R k it) = (if ?i < length (snap it) then Some ?i else None)"
    by (simp add: I(8) at_index_def)
  show "it_valid R (it_seek R k it) \<and> it_key R (it_seek R k it) = k \<longleftrightarrow> k \<in> dom (map_of (snap it))"
    using m p I(5) [of "it_seek R k it" ?i] by (auto simp: I(2,7) split: if_splits)
  show "it_value R (it_seek R k it) = v" if "map_of (snap it) k = Some v"
    using that m p I(6) [of "it_seek R k it" ?i] by (auto simp: I(7) split: if_splits)
qed

end

sublocale lawful_db \<subseteq> by_get: point_read "Ndb_get R" "\<lambda>d. map_of (cont d)"
proof
  fix d :: 'd and k w e
  show "map_of (cont d) k = Some v \<Longrightarrow> Ndb_get R d k (w, e) = (v, e)" for v
    using get_status [of d k] by (auto simp: Ndb_get_def split: prod.splits)
  show "map_of (cont d) k = None \<Longrightarrow> Ndb_get R d k (w, e) = (w, NOT_FOUND_ERROR)"
    using get_status [of d k] by (auto simp: Ndb_get_def split: prod.splits)
qed

text \<open>Reading through an iterator is the same service, on the snapshot of the iterator.\<close>

definition read_via :: "('it, 'z) iterator_scheme \<Rightarrow> 'it \<Rightarrow> bytes \<Rightarrow> bytes \<times> string \<Rightarrow> bytes \<times> string" where
  "read_via I it k x = snd (Ndb_getViaIter I it k x)"

sublocale lawful_db \<subseteq> by_iter: point_read "read_via R" "\<lambda>it. map_of (snap it)"
proof
  note ok = iterator_lawsD(1) [OF db_lawsD(1) [OF laws]]
  fix it :: 'it and k w e
  show "map_of (snap it) k = Some v \<Longrightarrow> read_via R it k (w, e) = (v, e)" for v
    using seek_hit [where k = k and it = it] ok by (auto simp: read_via_def Ndb_getViaIter_def Let_def)
  show "map_of (snap it) k = None \<Longrightarrow> read_via R it k (w, e) = (w, NOT_FOUND_ERROR)"
    using seek_hit [where k = k and it = it] ok by (auto simp: read_via_def Ndb_getViaIter_def Let_def)
qed

interpretation mem: lawful_db mem_rocks mem_entries mem_snap mem_pos
  by unfold_locales (rule mem_db_laws)

section \<open>Effects\<close>

lemma put_ops_zip:
  "put_ops ks vs = (if length ks \<le> length vs then Inr (map (\<lambda>(k, v). Put k v) (zip ks vs)) else Inl OobRead)"
  by (induction ks vs rule: put_ops.induct) auto

lemma apply_batch_append: "apply_batch (a @ b) m = apply_batch b (apply_batch a m)"
  by (simp add: apply_batch_def)

lemma apply_batch_puts:
  "apply_batch (map (\<lambda>(k, v). Put k v) kvs) m = m ++ map_of (rev kvs)"
  by (induction kvs rule: rev_induct) (auto simp: apply_batch_def fun_eq_iff map_add_def)

lemma apply_batch_deletes: "apply_batch (map Delete ks) m = m |` (- set ks)"
  by (induction ks arbitrary: m) (auto simp: apply_batch_def fun_eq_iff restrict_map_def)

lemma Ndb_update_cases:
  assumes "length putkeys \<le> length putvalues"
  shows "\<exists>b. b = map (\<lambda>(k, v). Put k v) (zip putkeys putvalues) @ map Delete delkeys
    \<and> Ndb_update R d putkeys putvalues delkeys err =
      Inr (snd (db_write R d b),
        if st_ok (fst (db_write R d b)) then err else st_string (fst (db_write R d b)))"
  using assms by (auto simp: Ndb_update_def put_ops_zip split: prod.splits)

context lawful_db
begin

lemma get_eq:
  "Ndb_get R d k (w, e) =
    (case map_of (cont d) k of Some v \<Rightarrow> (v, e) | None \<Rightarrow> (w, NOT_FOUND_ERROR))"
  by (rule by_get.read_eq)

lemma via_eq:
  "read_via R it k (w, e) =
    (case map_of (snap it) k of Some v \<Rightarrow> (v, e) | None \<Rightarrow> (w, NOT_FOUND_ERROR))"
  by (rule by_iter.read_eq)

lemma gets_eq:
  "Ndb_gets R d ks [] = (map (\<lambda>k. snd (db_get R d k)) ks, map (\<lambda>k. snd (Ndb_get R d k (w, []))) ks)"
proof -
  have "status_error (fst (db_get R d k)) = snd (Ndb_get R d k (w, []))" for k
    by (simp add: Ndb_get_def status_error_def split: prod.split)
  then show ?thesis
    by (simp add: Ndb_gets_def db_lawsD(6) [OF laws] Let_def)
qed

lemma update_stored:
  assumes "Ndb_update R d putkeys putvalues delkeys [] = Inr (d', [])"
    and "\<forall>b. status_wf (fst (db_write R d b))"
  shows "map_of (cont d') k =
    (if k \<in> set delkeys then None
     else case map_of (rev (zip putkeys putvalues)) k of Some v \<Rightarrow> Some v | None \<Rightarrow> map_of (cont d) k)"
proof -
  have len: "length putkeys \<le> length putvalues"
    using assms(1) by (auto simp: Ndb_update_def put_ops_zip split: if_splits)
  obtain b where b: "b = map (\<lambda>(k, v). Put k v) (zip putkeys putvalues) @ map Delete delkeys"
    and upd: "Ndb_update R d putkeys putvalues delkeys [] = Inr (snd (db_write R d b),
        if st_ok (fst (db_write R d b)) then [] else st_string (fst (db_write R d b)))"
    using Ndb_update_cases [OF len] by metis
  then have "st_ok (fst (db_write R d b))" and d': "d' = snd (db_write R d b)"
    using assms by (auto simp: status_wf_def eq_commute [of "[]"] split: if_splits)
  then have "map_of (cont d') = apply_batch b (map_of (cont d))"
    using db_lawsD(8) [OF laws] by simp
  then show ?thesis
    by (auto simp: b apply_batch_append apply_batch_puts apply_batch_deletes restrict_map_def
        map_add_def split: option.split)
qed

lemma incrdecr_step:
  assumes "map_of (cont d) key = None \<or> (\<exists>t. map_of (cont d) key = Some t \<and> length t = 8)"
    and "\<forall>d k v. st_ok (fst (db_put R d k v))"
    and "v0 = (case map_of (cont d) key of Some t \<Rightarrow> be_read C t | None \<Rightarrow> ucast initVal)"
    and "v = (if incr then v0 + ucast delta else v0 - ucast delta)"
  shows "\<exists>d'. Ndb_incrdecr C R d key incr delta initVal (nextVal, err) = (d', v, err)
    \<and> map_of (cont d') = (map_of (cont d))(key \<mapsto> be_write C v)"
proof -
  let ?d = "snd (db_put R d key (be_write C v))"
  obtain s t where get: "db_get R d key = (s, t)" by fastforce
  have old: "(if st_ok s then (if length t \<noteq> 8 then Inl (bad_size_msg (length t)) else Inr (be_read C t))
      else if st_not_found s then Inr (ucast initVal) else Inl (st_string s)) = Inr v0"
    using assms(1,3) get_status [of d key] get by (cases "map_of (cont d) key") auto
  have "Ndb_incrdecr C R d key incr delta initVal (nextVal, err) = (?d, v, err)"
    unfolding Ndb_incrdecr_def Let_def get prod.case old sum.case assms(4) [symmetric]
    by (simp add: case_prod_unfold assms(2))
  then show ?thesis
    using db_lawsD(7) [OF laws, of d key "be_write C v"] assms(2) by auto
qed

lemma incrdecr_bad_size:
  assumes "map_of (cont d) key = Some t" and "length t \<noteq> 8"
  shows "Ndb_incrdecr C R d key incr delta initVal (nextVal, err) =
    (d, nextVal, bad_size_msg (length t))"
  using assms get_status [of d key]
  by (cases "db_get R d key") (simp add: Ndb_incrdecr_def)

end

text \<open>The new value of a counter as a number.\<close>

lemma counter_value:
  "int (unat (if incr then old + ucast delta else old - ucast (delta :: u16) :: u64)) =
    (if incr then int (unat old) + int (unat delta) else int (unat old) - int (unat delta)) mod 2 ^ 64"
proof -
  have "take_bit 64 (uint delta) = uint delta"
    using uint_lt2p [of delta] by (intro take_bit_int_eq_self) auto
  then show ?thesis
    by (simp add: uint_word_ariths unsigned_ucast_eq)
qed

section \<open>Properties\<close>

definition puts_succeed :: "('d, 'it, 'z) rocksdb_scheme \<Rightarrow> bool" where
  "puts_succeed R \<longleftrightarrow> (\<forall>d k v. st_ok (fst (db_put R d k v)))"

lemma mem_puts_succeed: "puts_succeed mem_rocks"
  by (simp add: puts_succeed_def)

lemmas mem_eval = mem_get_def mem_entries_def NOT_FOUND_ERROR_def be64_def

text \<open>C15. Reading back an update: after an update that reports no error, a key of the delete list
  is not found, whether or not it is also put; any other key that was put has the value of its
  last put; every other key reads as before.\<close>

theorem get_after_update:
  assumes "db_laws R cont snap pos" and "\<forall>b. status_wf (fst (db_write R d b))"
    and "Ndb_update R d putkeys putvalues delkeys [] = Inr (d', [])"
  shows "Ndb_get R d' k (w, []) =
    (if k \<in> set delkeys then (w, NOT_FOUND_ERROR)
     else case map_of (rev (zip putkeys putvalues)) k of
            Some v \<Rightarrow> (v, []) | None \<Rightarrow> Ndb_get R d k (w, []))"
  using lawful_db.update_stored [OF lawful_db.intro [OF assms(1)] assms(3,2), of k]
  by (simp add: lawful_db.get_eq [OF lawful_db.intro [OF assms(1)]] split: option.split)

theorem get_after_update_witness:
  "Ndb_get mem_rocks [Put [1] [9], Put [2] [8], Put [1] [7], Put [2] [6], Delete [2]] [1] ([], []) = ([7], [])
   \<and> Ndb_get mem_rocks [Put [1] [9], Put [2] [8], Put [1] [7], Put [2] [6], Delete [2]] [2] ([], [])
       = ([], NOT_FOUND_ERROR)"
  using get_after_update [of mem_rocks mem_entries mem_snap mem_pos "[Put [1] [9], Put [2] [8]]"
      "[[1], [2]]" "[[7], [6]]" "[[2]]"
      "[Put [1] [9], Put [2] [8], Put [1] [7], Put [2] [6], Delete [2]]" "[1]" "[]"]
    get_after_update [of mem_rocks mem_entries mem_snap mem_pos "[Put [1] [9], Put [2] [8]]"
      "[[1], [2]]" "[[7], [6]]" "[[2]]"
      "[Put [1] [9], Put [2] [8], Put [1] [7], Put [2] [6], Delete [2]]" "[2]" "[]"]
  by (simp add: mem_db_laws Ndb_update_def status_wf_def st_OK_def)

text \<open>The read paths agree: on a database that keeps the laws, reading a key through a new
  iterator (\<^verbatim>\<open>getViaIter\<close>) gives the value and error that \<^verbatim>\<open>get\<close> gives, and \<^verbatim>\<open>gets\<close> reports,
  for every key of its list, the error that \<^verbatim>\<open>get\<close> reports.\<close>

theorem read_paths_agree:
  assumes "db_laws R cont snap pos"
  shows "snd (Ndb_getViaIter R (db_new_iterator R d) k (w, e)) = Ndb_get R d k (w, e)
    \<and> snd (Ndb_gets R d ks []) = map (\<lambda>k. snd (Ndb_get R d k (w, []))) ks"
proof -
  note db = lawful_db.intro [OF assms]
  have "read_via R (db_new_iterator R d) k (w, e) = Ndb_get R d k (w, e)"
    by (simp add: lawful_db.via_eq [OF db] lawful_db.get_eq [OF db] db_lawsD(3) [OF assms])
  then show ?thesis
    using lawful_db.gets_eq [OF db, of d ks w] by (simp add: read_via_def)
qed

theorem read_paths_agree_witness:
  "snd (Ndb_getViaIter mem_rocks ([Put [1] [9]], None) [1] ([], [])) = ([9], [])
   \<and> snd (Ndb_gets mem_rocks [Put [1] [9]] [[1], [2]] []) = [[], NOT_FOUND_ERROR]"
  using read_paths_agree [OF mem_db_laws, of "[Put [1] [9]]" "[1]" "[]" "[]" "[[1], [2]]"]
  by (simp add: Ndb_get_def mem_get_def mem_entries_def)

text \<open>\<^verbatim>\<open>incrdecr\<close> on a counter: for a key that is missing or holds eight bytes the next value is
  the stored number (the initial value if missing) plus or minus the delta modulo 2^64, it is
  what is returned and, encoded, what the key holds afterwards, and no other key changes.\<close>

theorem incrdecr_counter:
  assumes "db_laws R cont snap pos" and "puts_succeed R"
    and "map_of (cont d) key = None \<or> (\<exists>t. map_of (cont d) key = Some t \<and> length t = 8)"
    and "old = (case map_of (cont d) key of Some t \<Rightarrow> be_read C t | None \<Rightarrow> ucast initVal)"
  shows "case Ndb_incrdecr C R d key incr delta initVal (nextVal, err) of (d', v, err') \<Rightarrow>
      int (unat v) = (if incr then int (unat old) + int (unat delta)
                      else int (unat old) - int (unat delta)) mod 2 ^ 64
    \<and> err' = err
    \<and> map_of (cont d') = (map_of (cont d))(key \<mapsto> be_write C v)"
  using lawful_db.incrdecr_step [OF lawful_db.intro [OF assms(1)] assms(3) _ assms(4) refl,
      of incr delta nextVal err] assms(2) counter_value [of incr old delta]
  by (auto simp: puts_succeed_def split: prod.splits)

theorem incrdecr_counter_witness:
  "Ndb_incrdecr be64 mem_rocks [] [0x30] False 1 0 (0, []) =
     ([Put [0x30] [255, 255, 255, 255, 255, 255, 255, 255]], 2 ^ 64 - 1, [])
   \<and> int (unat (2 ^ 64 - 1 :: u64)) = (int (unat (0 :: u64)) - int (unat (1 :: u16))) mod 2 ^ 64"
proof -
  have run: "Ndb_incrdecr be64 mem_rocks [] [0x30] False 1 0 (0, []) =
     ([Put [0x30] [255, 255, 255, 255, 255, 255, 255, 255]], 2 ^ 64 - 1, [])"
    by code_simp
  then show ?thesis
    using incrdecr_counter [OF mem_db_laws mem_puts_succeed, where d = "[]" and key = "[0x30]"
        and old = 0 and C = be64 and incr = False and delta = 1 and initVal = 0 and nextVal = 0
        and err = "[]"]
    by (simp add: mem_db_laws mem_puts_succeed mem_entries_def)
qed

text \<open>Errors of \<^verbatim>\<open>incrdecr\<close>: a stored value whose size is not eight bytes is refused with a
  message that gives its size, and a failed write is reported with its status; in both cases,
  and on a failed read, \<open>nextVal\<close> is untouched, and the first and the last write nothing.\<close>

theorem incrdecr_errors:
  "(st_ok (fst (db_get R d key)) \<and> length (snd (db_get R d key)) \<noteq> 8 \<longrightarrow>
      Ndb_incrdecr C R d key incr delta initVal (nextVal, err) =
        (d, nextVal, bad_size_msg (length (snd (db_get R d key)))))
   \<and> (\<not> st_ok (fst (db_get R d key)) \<and> \<not> st_not_found (fst (db_get R d key)) \<longrightarrow>
      Ndb_incrdecr C R d key incr delta initVal (nextVal, err) =
        (d, nextVal, st_string (fst (db_get R d key))))
   \<and> (st_not_found (fst (db_get R d key)) \<and> \<not> st_ok (fst (db_get R d key)) \<and>
      (\<forall>v. \<not> st_ok (fst (db_put R d key v))) \<longrightarrow>
      fst (snd (Ndb_incrdecr C R d key incr delta initVal (nextVal, err))) = nextVal)"
  by (auto simp: Ndb_incrdecr_def Let_def case_prod_unfold)

theorem incrdecr_errors_witness:
  "Ndb_incrdecr be64 mem_rocks [Put [0x30] [1, 2, 3]] [0x30] True 1 0 (7, []) =
     ([Put [0x30] [1, 2, 3]], 7, ''Value for incr/decr must be 8-bytes. Got: 3 bytes'')"
proof -
  have "bad_size_msg (Suc (Suc (Suc 0))) = ''Value for incr/decr must be 8-bytes. Got: 3 bytes''"
    by code_simp
  then show ?thesis
    using incrdecr_errors [of mem_rocks "[Put [0x30] [1, 2, 3]]" "[0x30]" be64 True 1 0 7 "[]"]
    by (simp add: mem_get_def mem_entries_def)
qed

text \<open>Counting: \<open>n\<close> increments of a missing key by the same delta leave it, for every positive
  \<open>n\<close>, at the initial value plus \<open>n\<close> times the delta modulo 2^64, and that is the last value
  returned.\<close>

theorem incr_many:
  assumes "db_laws R cont snap pos" and "puts_succeed R" and "codec64_laws C"
    and "map_of (cont d) key = None"
  shows "\<exists>d'. ((\<lambda>(d, x). Ndb_incrdecr C R d key True delta initVal x) ^^ Suc n) (d, (nextVal, err))
      = (d', (ucast initVal + of_nat (Suc n) * ucast delta, err))
    \<and> map_of (cont d') key = Some (be_write C (ucast initVal + of_nat (Suc n) * ucast delta))"
proof (induction n)
  case 0
  then show ?case
    using lawful_db.incrdecr_step [OF lawful_db.intro [OF assms(1)] _ _ refl refl, where C = C and d = d and key = key and
        initVal = initVal and incr = True and delta = delta and nextVal = nextVal and err = err]
      assms(2,4)
    by (auto simp: puts_succeed_def)
next
  case (Suc n)
  let ?v = "ucast initVal + of_nat (Suc n) * ucast delta :: u64"
  obtain d' where d': "((\<lambda>(d, x). Ndb_incrdecr C R d key True delta initVal x) ^^ Suc n)
      (d, (nextVal, err)) = (d', (?v, err))" "map_of (cont d') key = Some (be_write C ?v)"
    using Suc by blast
  have "\<exists>d''. Ndb_incrdecr C R d' key True delta initVal (?v, err) = (d'', ?v + ucast delta, err)
      \<and> map_of (cont d'') = (map_of (cont d'))(key \<mapsto> be_write C (?v + ucast delta))"
    using lawful_db.incrdecr_step [OF lawful_db.intro [OF assms(1)] _ _ refl refl, where C = C and d = d' and key = key and
        initVal = initVal and incr = True and delta = delta and nextVal = ?v and err = err]
      assms(2,3) d'(2)
    by (auto simp: puts_succeed_def codec64_laws_def)
  then show ?case
    using d'(1) by (auto simp: algebra_simps)
qed

theorem incr_many_witness:
  "\<exists>d'. ((\<lambda>(d, x). Ndb_incrdecr be64 mem_rocks d [0x30] True 5 100 x) ^^ 3) ([], (0, []))
      = (d', (115, [])) \<and> map_of (mem_entries d') [0x30] = Some (be_bytes 115)"
  using incr_many [OF mem_db_laws mem_puts_succeed be64_laws, where d = "[]" and key = "[0x30]"
      and delta = 5 and initVal = 100 and n = 2 and nextVal = 0 and err = "[]"]
  by (simp add: mem_entries_def be64_def)

end
