(* ===== verification/Locking.thy ===== *)
theory Locking
  imports Store
begin

text \<open>
  \<^verbatim>\<open>Ndb::incrdecr\<close> and \<^verbatim>\<open>Ndb::update\<close> of \<^verbatim>\<open>ndb.cc\<close> called from several threads on one database.
  An increment holds the lock of its key from before its \<^verbatim>\<open>Get\<close> until after its \<^verbatim>\<open>Put\<close>; other
  threads run between the two.  An update takes no lock and is one \<^verbatim>\<open>Write\<close>.

  The lock set is a library outside the repository and a parameter: \<open>grant\<close> says whether a thread
  gets the lock of a key, given how far every thread is.  Its contract is \<open>lock_laws\<close>.
\<close>

section \<open>The two halves of incrdecr\<close>

definition incrdecr_old ::
    "codec64 \<Rightarrow> ('d, 'it, 'z) rocksdb_scheme \<Rightarrow> 'd \<Rightarrow> bytes \<Rightarrow> u16 \<Rightarrow> string + u64" where
  "incrdecr_old C R db key initVal =
     (let (s, t) = db_get R db key in
      if st_ok s then (if length t \<noteq> 8 then Inl (bad_size_msg (length t)) else Inr (be_read C t))
      else if st_not_found s then Inr (ucast initVal)
      else Inl (st_string s))"

definition incrdecr_store ::
    "codec64 \<Rightarrow> ('d, 'it, 'z) rocksdb_scheme \<Rightarrow> 'd \<Rightarrow> bytes \<Rightarrow> bool \<Rightarrow> u16 \<Rightarrow> u64 \<Rightarrow>
     u64 \<times> string \<Rightarrow> 'd \<times> u64 \<times> string" where
  "incrdecr_store C R db key incr delta v0 = (\<lambda>(nextVal, err).
     (let v = (if incr then v0 + ucast delta else v0 - ucast delta);
          (s, db') = db_put R db key (be_write C v)
      in if st_ok s then (db', v, err) else (db', nextVal, st_string s)))"

text \<open>Without other threads the two are \<^verbatim>\<open>incrdecr\<close>.\<close>

lemma incrdecr_halves:
  "Ndb_incrdecr C R db key incr delta initVal (nextVal, err) =
     (case incrdecr_old C R db key initVal of
        Inl e \<Rightarrow> (db, nextVal, e)
      | Inr v \<Rightarrow> incrdecr_store C R db key incr delta v (nextVal, err))"
  by (simp add: Ndb_incrdecr_def incrdecr_old_def incrdecr_store_def Let_def split_beta)

section \<open>Threads\<close>

datatype operation = Incr bytes bool u16 u16 | Update "bytes list" "bytes list" "bytes list"

text \<open>
  A thread waits, holds its lock, has read the number, or is done, with the number and the error
  it gives (\<open>0\<close> and no error unless it set them).
\<close>

datatype progress = Waiting | Holding | Loaded u64 | Done u64 string

fun holds :: "operation \<Rightarrow> progress \<Rightarrow> bytes \<Rightarrow> bool" where
  "holds (Incr key _ _ _) Holding k \<longleftrightarrow> k = key"
| "holds (Incr key _ _ _) (Loaded _) k \<longleftrightarrow> k = key"
| "holds _ _ k \<longleftrightarrow> False"

type_synonym locks = "(nat \<Rightarrow> progress) \<Rightarrow> nat \<Rightarrow> bytes \<Rightarrow> bool"

text \<open>The lock of a key is given to one thread at a time, and to some thread when none is out.\<close>

definition lock_laws :: "(nat \<Rightarrow> operation) \<Rightarrow> locks \<Rightarrow> bool" where
  "lock_laws ops grant \<longleftrightarrow> (\<forall>pcs i key.
     (grant pcs i key \<longrightarrow> (\<forall>j. \<not> holds (ops j) (pcs j) key))
     \<and> ((\<forall>j k. \<not> holds (ops j) (pcs j) k) \<longrightarrow> grant pcs i key))"

inductive thread_step ::
    "locks \<Rightarrow> codec64 \<Rightarrow> ('d, 'it, 'z) rocksdb_scheme \<Rightarrow> (nat \<Rightarrow> operation) \<Rightarrow>
     'd \<times> (nat \<Rightarrow> progress) \<Rightarrow> 'd \<times> (nat \<Rightarrow> progress) \<Rightarrow> bool"
  for grant C R ops where
  lock: "ops i = Incr key incr delta initVal \<Longrightarrow> pcs i = Waiting \<Longrightarrow>
    grant pcs i key \<Longrightarrow>
    thread_step grant C R ops (db, pcs) (db, pcs(i := Holding))"
| load: "ops i = Incr key incr delta initVal \<Longrightarrow> pcs i = Holding \<Longrightarrow>
    incrdecr_old C R db key initVal = Inr v \<Longrightarrow>
    thread_step grant C R ops (db, pcs) (db, pcs(i := Loaded v))"
| fail: "ops i = Incr key incr delta initVal \<Longrightarrow> pcs i = Holding \<Longrightarrow>
    incrdecr_old C R db key initVal = Inl e \<Longrightarrow>
    thread_step grant C R ops (db, pcs) (db, pcs(i := Done 0 e))"
| store: "ops i = Incr key incr delta initVal \<Longrightarrow> pcs i = Loaded v \<Longrightarrow>
    incrdecr_store C R db key incr delta v (0, []) = (db', n, e) \<Longrightarrow>
    thread_step grant C R ops (db, pcs) (db', pcs(i := Done n e))"
| update: "ops i = Update putkeys putvalues delkeys \<Longrightarrow> pcs i = Waiting \<Longrightarrow>
    Ndb_update R db putkeys putvalues delkeys [] = Inr (db', e) \<Longrightarrow>
    thread_step grant C R ops (db, pcs) (db', pcs(i := Done 0 e))"

inductive_cases thread_stepE: "thread_step grant C R ops (db, pcs) (db', pcs')"

section \<open>One after the other\<close>

text \<open>The same operations without interleaving, in a given order, with the results of each.\<close>

definition serial_step ::
    "codec64 \<Rightarrow> ('d, 'it, 'z) rocksdb_scheme \<Rightarrow> (nat \<Rightarrow> operation) \<Rightarrow> nat \<Rightarrow>
     'd \<times> (nat \<rightharpoonup> u64 \<times> string) \<Rightarrow> 'd \<times> (nat \<rightharpoonup> u64 \<times> string)" where
  "serial_step C R ops i = (\<lambda>(db, out). case ops i of
      Incr key incr delta initVal \<Rightarrow>
        (let (db', r) = Ndb_incrdecr C R db key incr delta initVal (0, []) in (db', out(i \<mapsto> r)))
    | Update putkeys putvalues delkeys \<Rightarrow>
        (case Ndb_update R db putkeys putvalues delkeys [] of
           Inl f \<Rightarrow> (db, out)
         | Inr (db', e) \<Rightarrow> (db', out(i \<mapsto> (0, e)))))"

definition serial ::
    "codec64 \<Rightarrow> ('d, 'it, 'z) rocksdb_scheme \<Rightarrow> (nat \<Rightarrow> operation) \<Rightarrow> 'd \<Rightarrow> nat list \<Rightarrow>
     'd \<times> (nat \<rightharpoonup> u64 \<times> string)" where
  "serial C R ops db is = fold (serial_step C R ops) is (db, Map.empty)"

fun result :: "progress \<Rightarrow> (u64 \<times> string) option" where
  "result (Done n e) = Some (n, e)"
| "result _ = None"

text \<open>Updates that touch no key of an increment; the puts of an update go with its values.\<close>

definition apart :: "(nat \<Rightarrow> operation) \<Rightarrow> bool" where
  "apart ops \<longleftrightarrow> (\<forall>i j key incr delta initVal putkeys putvalues delkeys.
     ops i = Incr key incr delta initVal \<and> ops j = Update putkeys putvalues delkeys \<longrightarrow>
       key \<notin> set putkeys \<union> set delkeys)"

context lawful_db
begin

text \<open>What an increment reads depends on the entry of its key only.\<close>

lemma incrdecr_old_map:
  "incrdecr_old C R db key initVal = (case map_of (cont db) key of
      None \<Rightarrow> Inr (ucast initVal)
    | Some t \<Rightarrow> if length t \<noteq> 8 then Inl (bad_size_msg (length t)) else Inr (be_read C t))"
  using get_status [of db key]
  by (cases "db_get R db key") (auto simp: incrdecr_old_def split: option.splits)

lemma store_frame:
  assumes "puts_succeed R" "incrdecr_store C R db key incr delta v (0, []) = (db', n, e)" "k \<noteq> key"
  shows "map_of (cont db') k = map_of (cont db) k"
  using assms db_lawsD(7) [OF laws, of db key]
  by (auto simp: incrdecr_store_def puts_succeed_def Let_def split_beta)

lemma update_frame:
  assumes "\<forall>b. st_ok (fst (db_write R db b))" "Ndb_update R db putkeys putvalues delkeys [] = Inr (db', e)"
    and "k \<notin> set putkeys \<union> set delkeys"
  shows "map_of (cont db') k = map_of (cont db) k"
proof -
  have len: "length putkeys \<le> length putvalues"
    using assms(2) by (auto simp: Ndb_update_def put_ops_zip split: if_splits)
  obtain b where b: "b = map (\<lambda>(k, v). Put k v) (zip putkeys putvalues) @ map Delete delkeys"
    "db' = snd (db_write R db b)"
    using Ndb_update_cases [OF len, of delkeys R db "[]"] assms(2) by auto
  have "k \<notin> fst ` set (zip putkeys putvalues)"
    using assms(3) by (auto dest: set_zip_leftD)
  then have "map_of (rev (zip putkeys putvalues)) k = None"
    by (simp add: map_of_eq_None_iff)
  then show ?thesis
    using db_lawsD(8) [OF laws, of db b] assms(1,3) b
    by (auto simp: apply_batch_append apply_batch_puts apply_batch_deletes restrict_map_def map_add_def)
qed

text \<open>
  What interleaving keeps: the database and the results are those of the finished operations one
  after the other, no two threads hold one key, and a number that was read is still the stored one.
\<close>

definition interleaved ::
    "codec64 \<Rightarrow> (nat \<Rightarrow> operation) \<Rightarrow> 'd \<Rightarrow> nat list \<Rightarrow> 'd \<times> (nat \<Rightarrow> progress) \<Rightarrow> bool" where
  "interleaved C ops db0 is = (\<lambda>(db, pcs).
     serial C R ops db0 is = (db, \<lambda>i. result (pcs i)) \<and> distinct is \<and> set is = {i. result (pcs i) \<noteq> None}
     \<and> (\<forall>i j k. holds (ops i) (pcs i) k \<and> holds (ops j) (pcs j) k \<longrightarrow> i = j)
     \<and> (\<forall>i key incr delta initVal v. ops i = Incr key incr delta initVal \<and> pcs i = Loaded v \<longrightarrow>
          incrdecr_old C R db key initVal = Inr v))"

lemma interleaved_quiet:
  assumes "interleaved C ops db0 is (db, pcs)" "result (pcs i) = None" "result p = None"
    and "\<And>k j. holds (ops i) p k \<Longrightarrow> holds (ops j) (pcs j) k \<Longrightarrow> j = i"
    and "\<And>key incr delta initVal v. ops i = Incr key incr delta initVal \<Longrightarrow> p = Loaded v \<Longrightarrow>
      incrdecr_old C R db key initVal = Inr v"
  shows "interleaved C ops db0 is (db, pcs(i := p))"
proof -
  have "(\<lambda>j. result ((pcs(i := p)) j)) = (\<lambda>j. result (pcs j))"
    using assms(2,3) by (auto simp: fun_eq_iff)
  moreover have "{j. result ((pcs(i := p)) j) \<noteq> None} = {j. result (pcs j) \<noteq> None}"
    using assms(2,3) by auto
  ultimately show ?thesis
    using assms(1,4,5) unfolding interleaved_def prod.case by (auto split: if_splits)
qed

lemma interleaved_done:
  assumes "interleaved C ops db0 is (db, pcs)" "result (pcs i) = None"
    and "\<And>out. serial_step C R ops i (db, out) = (db', out(i \<mapsto> (n, e)))"
    and "\<And>j key incr delta initVal. j \<noteq> i \<Longrightarrow> ops j = Incr key incr delta initVal \<Longrightarrow>
      holds (ops j) (pcs j) key \<Longrightarrow> map_of (cont db') key = map_of (cont db) key"
  shows "interleaved C ops db0 (is @ [i]) (db', pcs(i := Done n e))"
proof -
  note I = assms(1) [unfolded interleaved_def prod.case]
  have "serial C R ops db0 (is @ [i]) = (db', (\<lambda>j. result (pcs j))(i \<mapsto> (n, e)))"
    using I assms(3) by (simp add: serial_def)
  moreover have "(\<lambda>j. result (pcs j))(i \<mapsto> (n, e)) = (\<lambda>j. result ((pcs(i := Done n e)) j))"
    by (simp add: fun_eq_iff)
  moreover have "distinct (is @ [i])" "set (is @ [i]) = {j. result ((pcs(i := Done n e)) j) \<noteq> None}"
    using I assms(2) by auto
  moreover have "incrdecr_old C R db' key initVal = Inr v"
    if "j \<noteq> i" "ops j = Incr key incr delta initVal" "pcs j = Loaded v" for j key incr delta initVal v
  proof -
    have "map_of (cont db') key = map_of (cont db) key"
      using assms(4) [OF that(1,2)] that(2,3) by simp
    then have "incrdecr_old C R db' key initVal = incrdecr_old C R db key initVal"
      by (simp only: incrdecr_old_map)
    also have "incrdecr_old C R db key initVal = Inr v" using I that(2,3) by blast
    finally show ?thesis .
  qed
  ultimately show ?thesis
    using I unfolding interleaved_def prod.case by (auto split: if_splits)
qed

lemma interleaved_step:
  assumes "puts_succeed R" "\<forall>d b. st_ok (fst (db_write R d b))" "lock_laws ops grant" "apart ops"
    and "interleaved C ops db0 is s" "thread_step grant C R ops s s'"
  shows "\<exists>is'. interleaved C ops db0 is' s'"
  using assms(6,5)
proof (cases rule: thread_step.cases)
  case (lock i key incr delta initVal pcs db)
  then show ?thesis
    using interleaved_quiet [of C ops db0 "is" db pcs i Holding] assms(3,5)
    by (fastforce simp: lock_laws_def)
next
  case (load i key incr delta initVal pcs db v)
  note I = assms(5) [unfolded load(1) interleaved_def prod.case]
  have "interleaved C ops db0 is (db, pcs(i := Loaded v))"
    by (rule interleaved_quiet) (use assms(5) load I in auto)
  then show ?thesis using load(2) by blast
next
  case (fail i key incr delta initVal pcs db e)
  have "interleaved C ops db0 (is @ [i]) (db, pcs(i := Done 0 e))"
    by (rule interleaved_done) (use assms(5) fail in \<open>auto simp: serial_step_def incrdecr_halves\<close>)
  then show ?thesis using fail(2) by blast
next
  case (store i key incr delta initVal pcs v db db' n e)
  note I = assms(5) [unfolded store(1) interleaved_def prod.case]
  have old: "incrdecr_old C R db key initVal = Inr v" using I store(3,4) by blast
  have "interleaved C ops db0 (is @ [i]) (db', pcs(i := Done n e))"
  proof (rule interleaved_done)
    show "serial_step C R ops i (db, out) = (db', out(i \<mapsto> (n, e)))" for out
      using store(3,5) old by (simp add: serial_step_def incrdecr_halves)
    fix j key' incr' delta' initVal'
    assume j: "j \<noteq> i" "ops j = Incr key' incr' delta' initVal'" "holds (ops j) (pcs j) key'"
    then have "key' \<noteq> key" using I store(3,4) by force
    then show "map_of (cont db') key' = map_of (cont db) key'"
      by (rule store_frame [OF assms(1) store(5)])
  qed (use assms(5) store in auto)
  then show ?thesis using store(2) by blast
next
  case (update i putkeys putvalues delkeys pcs db db' e)
  have "interleaved C ops db0 (is @ [i]) (db', pcs(i := Done 0 e))"
  proof (rule interleaved_done)
    fix j key incr delta initVal assume "ops j = Incr key incr delta initVal"
    then have "key \<notin> set putkeys \<union> set delkeys"
      using assms(4) update(3) by (auto simp: apart_def)
    then show "map_of (cont db') key = map_of (cont db) key"
      using update_frame [OF _ update(5)] assms(2) by blast
  qed (use assms(5) update in \<open>auto simp: serial_step_def\<close>)
  then show ?thesis using update(2) by blast
qed

lemma interleaved_steps:
  assumes "puts_succeed R" "\<forall>d b. st_ok (fst (db_write R d b))" "lock_laws ops grant" "apart ops"
    and "(thread_step grant C R ops)\<^sup>*\<^sup>* (db0, \<lambda>_. Waiting) s"
  shows "\<exists>is. interleaved C ops db0 is s"
  using assms(5)
proof (induction rule: rtranclp_induct)
  case base
  have "interleaved C ops db0 [] (db0, \<lambda>_. Waiting)"
    by (auto simp: interleaved_def serial_def fun_eq_iff elim: holds.elims)
  then show ?case by blast
next
  case (step s s')
  then show ?case using interleaved_step [OF assms(1-4)] by blast
qed

end

section \<open>Progress\<close>

lemma update_threads:
  assumes "(thread_step grant C R ops)\<^sup>*\<^sup>* (db0, \<lambda>_. Waiting) s" "ops i = Update putkeys putvalues delkeys"
  shows "snd s i = Waiting \<or> result (snd s i) \<noteq> None"
  using assms(1)
proof (induction rule: rtranclp_induct)
  case (step s s')
  from step(2) show ?case
    by (cases rule: thread_step.cases) (use step.IH assms(2) in auto)
qed simp

lemma holder_moves:
  assumes "holds (ops j) (pcs j) k"
  shows "\<exists>s'. thread_step grant C R ops (db, pcs) s'"
proof -
  obtain key incr delta initVal where o: "ops j = Incr key incr delta initVal" and p: "pcs j = Holding \<or> (\<exists>v. pcs j = Loaded v)"
    using assms by (cases "(ops j, pcs j, k)" rule: holds.cases) auto
  from p show ?thesis
  proof (elim disjE exE)
    assume "pcs j = Holding"
    then show ?thesis
      using thread_step.load [of ops j key incr delta initVal pcs C R db] o
        thread_step.fail [of ops j key incr delta initVal pcs C R db]
      by (cases "incrdecr_old C R db key initVal") blast+
  next
    fix v assume "pcs j = Loaded v"
    then show ?thesis
      using thread_step.store [of ops j key incr delta initVal pcs v C R db] o
      by (cases "incrdecr_store C R db key incr delta v (0, [])") blast
  qed
qed

section \<open>Properties\<close>

text \<open>The lock set itself, for the runs below.\<close>

definition exclusive :: "(nat \<Rightarrow> operation) \<Rightarrow> locks" where
  "exclusive ops pcs i key \<longleftrightarrow> (\<forall>j. \<not> holds (ops j) (pcs j) key)"

lemma exclusive_laws: "lock_laws ops (exclusive ops)"
  by (simp add: lock_laws_def exclusive_def)

text \<open>
  C11. Concurrent increments and updates of one database, where no update writes the key of an increment and all
  writes succeed: however the threads interleave, the database and the results of the finished operations are those of
  running them one after the other in some order, so no increment is lost.  Without the first condition one can be
  (\<open>update_lost\<close>).
\<close>

theorem increments_serialize:
  assumes "db_laws R cont snap pos" "puts_succeed R" "\<forall>d b. st_ok (fst (db_write R d b))"
    and "lock_laws ops grant" "apart ops"
    and "(thread_step grant C R ops)\<^sup>*\<^sup>* (db0, \<lambda>_. Waiting) (db, pcs)"
  shows "\<exists>is. distinct is \<and> set is = {i. result (pcs i) \<noteq> None}
    \<and> serial C R ops db0 is = (db, \<lambda>i. result (pcs i))"
proof -
  have "lawful_db R cont snap pos" by unfold_locales (rule assms(1))
  from lawful_db.interleaved_steps [OF this assms(2-6)]
  show ?thesis unfolding lawful_db.interleaved_def [OF \<open>lawful_db R cont snap pos\<close>] by auto
qed

theorem increments_serialize_witness:
  "\<exists>is. set is = {0 :: nat} \<and> map_of (mem_entries (fst (serial be64 mem_rocks (\<lambda>_. Incr [1] True 1 5) [] is))) [1] =
     Some [0, 0, 0, 0, 0, 0, 0, 6]"
proof -
  let ?ops = "\<lambda>_ :: nat. Incr [1] True 1 5"
  let ?step = "thread_step (exclusive ?ops) be64 mem_rocks ?ops"
  let ?w = "\<lambda>_ :: nat. Waiting"
  have 1: "?step ([], ?w) ([], ?w(0 := Holding))"
    by (rule thread_step.lock) (simp_all add: exclusive_def)
  have "incrdecr_old be64 mem_rocks [] [1] 5 = Inr 5"
    by (simp add: incrdecr_old_def mem_get_def mem_entries_def)
  then have 2: "?step ([], ?w(0 := Holding)) ([], ?w(0 := Loaded 5))"
    using thread_step.load [of ?ops 0 "[1]" True 1 5 "?w(0 := Holding)" be64 mem_rocks "[]" 5] by simp
  have "incrdecr_store be64 mem_rocks [] [1] True 1 5 (0, []) = ([Put [1] [0, 0, 0, 0, 0, 0, 0, 6]], 6, [])"
    by (simp add: incrdecr_store_def be64_def be_bytes_def upt_rec)
  then have 3: "?step ([], ?w(0 := Loaded 5)) ([Put [1] [0, 0, 0, 0, 0, 0, 0, 6]], ?w(0 := Done 6 []))"
    using thread_step.store [of ?ops 0 "[1]" True 1 5 "?w(0 := Loaded 5)" 5 be64 mem_rocks "[]"] by simp
  have run: "?step\<^sup>*\<^sup>* ([], ?w) ([Put [1] [0, 0, 0, 0, 0, 0, 0, 6]], ?w(0 := Done 6 []))"
    using 1 2 3 by (meson rtranclp.rtrancl_refl rtranclp.rtrancl_into_rtrancl)
  have "{i. result ((?w(0 := Done 6 [])) i) \<noteq> None} = {0 :: nat}" by auto
  then show ?thesis
    using increments_serialize [OF mem_db_laws mem_puts_succeed _ exclusive_laws _ run]
    by (auto simp: apart_def mem_entries_def)
qed

text \<open>
  C24. No deadlock: while a thread has not finished, some thread can take a step, whatever state the
  threads have reached.
\<close>

theorem no_deadlock:
  assumes "lock_laws ops grant" "(thread_step grant C R ops)\<^sup>*\<^sup>* (db0, \<lambda>_. Waiting) (db, pcs)"
    and "result (pcs i) = None"
    and "\<forall>putkeys putvalues delkeys. ops i = Update putkeys putvalues delkeys \<longrightarrow> length putkeys \<le> length putvalues"
  shows "\<exists>s'. thread_step grant C R ops (db, pcs) s'"
proof (cases "\<exists>j k. holds (ops j) (pcs j) k")
  case True
  then obtain j k where "holds (ops j) (pcs j) k" by blast
  then show ?thesis by (rule holder_moves)
next
  case False
  then have g: "grant pcs i key" for key using assms(1) by (auto simp: lock_laws_def)
  show ?thesis
  proof (cases "ops i")
    case (Incr key incr delta initVal)
    have "\<not> holds (ops i) (pcs i) key" using False by blast
    then have "pcs i = Waiting"
      using Incr assms(3) by (cases "pcs i") simp_all
    with Incr g have "thread_step grant C R ops (db, pcs) (db, pcs(i := Holding))"
      by (auto intro: thread_step.lock)
    then show ?thesis by blast
  next
    case (Update putkeys putvalues delkeys)
    have "pcs i = Waiting" using update_threads [OF assms(2) Update] assms(3) by simp
    moreover obtain r where "Ndb_update R db putkeys putvalues delkeys [] = Inr r"
      using assms(4) Update by (auto simp: Ndb_update_def put_ops_zip split_beta)
    ultimately show ?thesis
      using thread_step.update [of ops i putkeys putvalues delkeys pcs R db] Update by (cases r) blast
  qed
qed

theorem no_deadlock_witness:
  "\<exists>s'. thread_step (exclusive (\<lambda>_. Incr [1] True 1 5)) be64 mem_rocks (\<lambda>_. Incr [1] True 1 5) ([], \<lambda>_. Waiting) s'"
  by (rule no_deadlock [OF exclusive_laws rtranclp.rtrancl_refl, of _ 0]) simp_all

text \<open>
  An update does not take the lock of an increment: an update of a counter that runs between
  the read and the write of an increment reports success and is lost; no order of the two
  operations leaves the counter as it is then.
\<close>

theorem update_lost:
  "\<exists>db pcs ops k. (thread_step (exclusive ops) be64 mem_rocks ops)\<^sup>*\<^sup>* ([Put k (be_bytes 5)], \<lambda>_. Waiting) (db, pcs)
    \<and> ops 0 = Incr k True 1 0 \<and> ops 1 = Update [k] [be_bytes 10] []
    \<and> pcs 0 = Done 6 [] \<and> pcs 1 = Done 0 []
    \<and> map_of (mem_entries db) k = Some (be_bytes 6)
    \<and> map_of (mem_entries (fst (serial be64 mem_rocks ops [Put k (be_bytes 5)] [0, 1]))) k = Some (be_bytes 10)
    \<and> map_of (mem_entries (fst (serial be64 mem_rocks ops [Put k (be_bytes 5)] [1, 0]))) k = Some (be_bytes 11)"
proof -
  let ?n = "\<lambda>b. [0, 0, 0, 0, 0, 0, 0, b] :: bytes"
  define ops where "ops = (\<lambda>i :: nat. if i = 0 then Incr [1] True 1 0 else Update [[1]] [?n 10] [])"
  let ?step = "thread_step (exclusive ops) be64 mem_rocks ops"
  let ?w = "\<lambda>_ :: nat. Waiting"
  let ?d = "[Put [1] (?n 5)]"
  have n: "be_bytes 5 = ?n 5" "be_bytes 6 = ?n 6" "be_bytes 10 = ?n 10" "be_bytes 11 = ?n 11"
    by (simp_all add: be_bytes_def upt_rec)
  have v: "be_value (?n 5) = 5" "be_value (?n 10) = 10"
    by (simp_all add: be_value_def)
  note eval = mem_get_def mem_entries_def be64_def n v
  have 1: "?step (?d, ?w) (?d, ?w(0 := Holding))"
    by (rule thread_step.lock) (simp_all add: ops_def exclusive_def)
  have "incrdecr_old be64 mem_rocks ?d [1] 0 = Inr 5"
    by (simp add: incrdecr_old_def eval)
  then have 2: "?step (?d, ?w(0 := Holding)) (?d, ?w(0 := Loaded 5))"
    using thread_step.load [of ops 0 "[1]" True 1 0 "?w(0 := Holding)" be64 mem_rocks ?d 5] by (simp add: ops_def)
  have 3: "?step (?d, ?w(0 := Loaded 5)) (?d @ [Put [1] (?n 10)], ?w(0 := Loaded 5, 1 := Done 0 []))"
    using thread_step.update [of ops 1 "[[1]]" "[?n 10]" "[]" "?w(0 := Loaded 5)" mem_rocks ?d]
    by (simp add: ops_def Ndb_update_def put_ops_zip)
  have "incrdecr_store be64 mem_rocks (?d @ [Put [1] (?n 10)]) [1] True 1 5 (0, []) = (?d @ [Put [1] (?n 10), Put [1] (?n 6)], 6, [])"
    by (simp add: incrdecr_store_def eval)
  then have 4: "?step (?d @ [Put [1] (?n 10)], ?w(0 := Loaded 5, 1 := Done 0 []))
      (?d @ [Put [1] (?n 10), Put [1] (?n 6)], (?w(0 := Loaded 5, 1 := Done 0 []))(0 := Done 6 []))"
    using thread_step.store [of ops 0 "[1]" True 1 0 "?w(0 := Loaded 5, 1 := Done 0 [])" 5 be64 mem_rocks "?d @ [Put [1] (?n 10)]"]
    by (simp add: ops_def)
  have run: "?step\<^sup>*\<^sup>* (?d, ?w) (?d @ [Put [1] (?n 10), Put [1] (?n 6)], (?w(0 := Loaded 5, 1 := Done 0 []))(0 := Done 6 []))"
    using 1 2 3 4 by (meson rtranclp.rtrancl_refl rtranclp.rtrancl_into_rtrancl)
  have s: "map_of (mem_entries (fst (serial be64 mem_rocks ops ?d [0, 1]))) [1] = Some (?n 10)"
    "map_of (mem_entries (fst (serial be64 mem_rocks ops ?d [1, 0]))) [1] = Some (?n 11)"
    by (simp_all add: serial_def serial_step_def ops_def Ndb_incrdecr_def Ndb_update_def eval)
  show ?thesis
    by (rule exI, rule exI, rule exI [of _ ops], rule exI [of _ "[1]"], unfold n, intro conjI, rule run)
      (rule s | simp add: ops_def mem_entries_def)+
qed

end
