(* ===== verification/Config.thy ===== *)
theory Config
  imports Prelude
begin

text \<open>
  The configuration reader of \<^verbatim>\<open>manager.cc\<close>: \<^verbatim>\<open>trim\<close>, \<^verbatim>\<open>trim2\<close> and \<^verbatim>\<open>Manager::load\<close>, with the
  operations of \<^verbatim>\<open>std::string\<close> they use (\<^verbatim>\<open>find\<close>, \<^verbatim>\<open>substr\<close>, \<^verbatim>\<open>std::getline\<close>, \<^verbatim>\<open>std::stoi\<close>).
  The file is a string; the state is the part of \<^verbatim>\<open>class Manager\<close> that \<^verbatim>\<open>load\<close> writes.  An
  exception of \<^verbatim>\<open>std::stoi\<close> outside the one \<^verbatim>\<open>try\<close> block leaves \<^verbatim>\<open>load\<close> and is a fault.
\<close>

section \<open>Strings\<close>

definition nl :: char where "nl = CHR 0x0A"
definition cr :: char where "cr = CHR 0x0D"
definition tab :: char where "tab = CHR 0x09"

definition is_ws :: "char \<Rightarrow> bool" where
  "is_ws c \<longleftrightarrow> c \<in> {CHR '' '', nl, cr, tab}"

text \<open>\<^verbatim>\<open>s.find(c, pos)\<close>; \<open>None\<close> is \<^verbatim>\<open>npos\<close>.\<close>

definition find_char :: "char \<Rightarrow> string \<Rightarrow> nat \<Rightarrow> nat option" where
  "find_char c s pos =
     (let n = pos + length (takeWhile (\<lambda>x. x \<noteq> c) (drop pos s))
      in if n < length s then Some n else None)"

text \<open>
  \<^verbatim>\<open>trim\<close>: the right end is cut after the last character that is not white space, the left end
  before the first; a string of white space only is left alone.
\<close>

definition trim :: "string \<Rightarrow> bool \<Rightarrow> bool \<Rightarrow> string" where
  "trim s1 left right =
     (let s2 = (if right \<and> \<not> list_all is_ws s1 then rev (dropWhile is_ws (rev s1)) else s1)
      in if left \<and> \<not> list_all is_ws s2 then dropWhile is_ws s2 else s2)"

text \<open>
  \<^verbatim>\<open>trim2(s1, pos, count)\<close>, with no count for \<^verbatim>\<open>npos\<close>; \<^verbatim>\<open>substr\<close> throws when the position
  is past the end.
\<close>

definition trim2 :: "string \<Rightarrow> nat \<Rightarrow> nat option \<Rightarrow> string res" where
  "trim2 s1 pos count =
     (if length s1 < pos then Inl (StdException ''out_of_range'')
      else Inr (trim (case count of None \<Rightarrow> drop pos s1 | Some n \<Rightarrow> take n (drop pos s1)) True True))"

text \<open>Successive \<^verbatim>\<open>std::getline(fs, line)\<close>.\<close>

function getlines :: "string \<Rightarrow> string list" where
  "getlines s =
     (if s = [] then []
      else takeWhile (\<lambda>c. c \<noteq> nl) s # getlines (tl (dropWhile (\<lambda>c. c \<noteq> nl) s)))"
  by pat_completeness auto
termination
proof (relation "measure length", goal_cases)
  case (2 s)
  have "length (dropWhile (\<lambda>c. c \<noteq> nl) s) - Suc 0 < length s"
    using length_dropWhile_le [of "\<lambda>c. c \<noteq> nl" s] 2 by (cases s) auto
  then show ?case by simp
qed simp

declare getlines.simps [simp del]

text \<open>
  \<^verbatim>\<open>std::stoi\<close>: white space, an optional sign, then decimal digits up to the first character
  that is none.  No digit, or a value outside \<^verbatim>\<open>int\<close>, is an exception.
\<close>

definition is_digit :: "char \<Rightarrow> bool" where
  "is_digit c \<longleftrightarrow> 48 \<le> (of_char c :: nat) \<and> (of_char c :: nat) < 58"

definition is_space :: "char \<Rightarrow> bool" where
  "is_space c \<longleftrightarrow> is_ws c \<or> c = CHR 0x0B \<or> c = CHR 0x0C"

definition int_min :: int where "int_min = - (2 ^ 31)"
definition int_max :: int where "int_max = 2 ^ 31 - 1"

definition stoi :: "string \<Rightarrow> int res" where
  "stoi s =
     (let s1 = dropWhile is_space s;
          neg = (s1 \<noteq> [] \<and> hd s1 = CHR ''-'');
          s2 = (if s1 \<noteq> [] \<and> (hd s1 = CHR ''-'' \<or> hd s1 = CHR ''+'') then tl s1 else s1);
          ds = takeWhile is_digit s2;
          v = (if neg then - int (digits_val ds) else int (digits_val ds))
      in if ds = [] then Inl (StdException ''invalid_argument'')
         else if v < int_min \<or> int_max < v then Inl (StdException ''out_of_range'')
         else Inr v)"

section \<open>Options and the configured state\<close>

text \<open>
  The fields of \<^verbatim>\<open>leveldb::Options\<close> that \<^verbatim>\<open>load\<close> writes; \<open>info_log\<close> is the name of the logger
  made for it.  The value of a freshly constructed \<^verbatim>\<open>Options\<close> is a parameter (\<open>opt0\<close>), the
  library's.
\<close>

record options =
  create_if_missing :: bool
  max_open_files :: int
  write_buffer_size :: u64
  info_log :: "string option"

record config =
  basedir :: string
  blockCache :: "string \<rightharpoonup> int"
  caches :: "int list"
  kindOptions :: "int \<rightharpoonup> options"
  indexOptions :: "int \<rightharpoonup> options"
  defKindOption :: options
  defIndexOption :: options
  loggers :: "string list"

text \<open>A \<^verbatim>\<open>Manager\<close> as it is constructed.\<close>

definition config0 :: "options \<Rightarrow> config" where
  "config0 opt0 = \<lparr>basedir = [], blockCache = Map.empty, caches = [], kindOptions = Map.empty,
     indexOptions = Map.empty, defKindOption = opt0, defIndexOption = opt0, loggers = []\<rparr>"

section \<open>Manager::load\<close>

text \<open>
  The list of keys of a section, \<^verbatim>\<open>17,25\<close> in \<^verbatim>\<open>kind.17,25\<close>.  Each turn of the loop takes what
  is in front of the comma it has found.
\<close>

lemma find_char_bounds: "find_char c s pos = Some n \<Longrightarrow> pos \<le> n \<and> n < length s"
  by (auto simp: find_char_def Let_def split: if_splits)

function split_loop :: "string \<Rightarrow> nat \<Rightarrow> string list res" where
  "split_loop s n0 =
     (case find_char CHR '','' s n0 of
        None \<Rightarrow> Inr []
      | Some n \<Rightarrow> res_bind (trim2 s n0 (Some (n - n0))) (\<lambda>k.
                  res_bind (split_loop s (n + 1)) (\<lambda>ks. Inr (k # ks))))"
  by pat_completeness auto
termination
  by (relation "measure (\<lambda>(s, n0). length s - n0)") (auto dest: find_char_bounds)

declare split_loop.simps [simp del]

definition split_keys :: "string \<Rightarrow> string list res" where
  "split_keys s3 = (case find_char CHR '','' s3 0 of None \<Rightarrow> Inr [s3] | Some _ \<Rightarrow> split_loop s3 0)"

text \<open>The options of a \<^verbatim>\<open>kind\<close> or \<^verbatim>\<open>index\<close> line; \<^verbatim>\<open>stoi(...) * (1 << 20)\<close> is \<^verbatim>\<open>int\<close> arithmetic.\<close>

definition next_pos :: "nat option \<Rightarrow> nat" where
  "next_pos n = (case n of None \<Rightarrow> 0 | Some i \<Rightarrow> i + 1)"

definition count_to :: "nat option \<Rightarrow> nat \<Rightarrow> nat option" where
  "count_to n n0 = map_option (\<lambda>i. i - n0) n"

definition mul_int :: "int \<Rightarrow> int \<Rightarrow> int res" where
  "mul_int a b = (if a * b < int_min \<or> int_max < a * b then Inl IntOverflow else Inr (a * b))"

definition parse_options :: "options \<Rightarrow> string \<Rightarrow> options res" where
  "parse_options opt0 s1 =
     (let n = find_char CHR '','' s1 0 in
      res_bind (res_bind (trim2 s1 0 n) stoi) (\<lambda>files.
      let n0 = next_pos n; n = find_char CHR '','' s1 n0 in
      res_bind (res_bind (trim2 s1 n0 (count_to n n0)) stoi) (\<lambda>mb.
      res_bind (mul_int mb (2 ^ 20)) (\<lambda>mbytes.
      let n0 = next_pos n; n = find_char CHR '','' s1 n0; n0 = next_pos n in
      res_bind (trim2 s1 n0 None) (\<lambda>blockCacheS.
      Inr (opt0\<lparr>create_if_missing := True, max_open_files := files,
                write_buffer_size := word_of_int mbytes\<rparr>))))))"

definition logger_prefix :: "string \<Rightarrow> string" where
  "logger_prefix name = ''<leveldb:'' @ name @ ''> ''"

text \<open>
  \<^verbatim>\<open>LeveldbLogger::Logv\<close>: the level of the library's log call is mapped to one of
  \<^verbatim>\<open>ugorji::util::Log\<close>, and the format string is prefixed with the name of the logger.
\<close>

datatype InfoLogLevel =
  DEBUG_LEVEL | INFO_LEVEL | WARN_LEVEL | ERROR_LEVEL | FATAL_LEVEL | HEADER_LEVEL | NUM_INFO_LOG_LEVELS

datatype Level = ALL | TRACE | DEBUG | INFO | WARNING | ERROR | SEVERE | OFF

definition Logv_level :: "InfoLogLevel \<Rightarrow> Level" where
  "Logv_level l = (case l of
      DEBUG_LEVEL \<Rightarrow> DEBUG | INFO_LEVEL \<Rightarrow> INFO | WARN_LEVEL \<Rightarrow> WARNING
    | ERROR_LEVEL \<Rightarrow> ERROR | FATAL_LEVEL \<Rightarrow> SEVERE | _ \<Rightarrow> INFO)"

definition Logv :: "string \<Rightarrow> InfoLogLevel \<Rightarrow> string \<Rightarrow> Level \<times> string" where
  "Logv pre l format = (Logv_level l, pre @ format)"

text \<open>One key of a \<^verbatim>\<open>kind\<close> or \<^verbatim>\<open>index\<close> line.\<close>

definition set_option :: "string \<Rightarrow> options \<Rightarrow> string \<Rightarrow> 'z config_scheme \<Rightarrow> 'z config_scheme" where
  "set_option s2 opt key m =
     (let l = logger_prefix (s2 @ ''.'' @ key);
          opt2 = opt\<lparr>info_log := Some l\<rparr>;
          m = m\<lparr>loggers := loggers m @ [l]\<rparr>;
          k = (case stoi key of Inl _ \<Rightarrow> -1 | Inr i \<Rightarrow> i)
      in if k \<noteq> -1 then
           (if s2 = ''kind'' then m\<lparr>kindOptions := (kindOptions m)(k \<mapsto> opt2)\<rparr>
            else m\<lparr>indexOptions := (indexOptions m)(k \<mapsto> opt2)\<rparr>)
         else if key = ''default'' then
           (if s2 = ''kind'' then m\<lparr>defKindOption := opt2\<rparr> else m\<lparr>defIndexOption := opt2\<rparr>)
         else m)"

definition set_cache :: "int \<Rightarrow> string \<Rightarrow> 'z config_scheme \<Rightarrow> 'z config_scheme" where
  "set_cache cap key m =
     m\<lparr>blockCache := (blockCache m)(key \<mapsto> cap), caches := caches m @ [cap]\<rparr>"

definition load_line :: "options \<Rightarrow> string \<Rightarrow> 'z config_scheme \<Rightarrow> 'z config_scheme res" where
  "load_line opt0 line m =
     (case find_char CHR ''='' line 0 of
        None \<Rightarrow> Inr m
      | Some n \<Rightarrow>
          res_bind (trim2 line 0 (Some n)) (\<lambda>s0.
          res_bind (trim2 line (n + 1) None) (\<lambda>s1.
          if s0 = ''basedir'' then Inr (m\<lparr>basedir := s1\<rparr>)
          else case find_char CHR ''.'' s0 0 of
            None \<Rightarrow> Inr m
          | Some n \<Rightarrow>
              let s2 = take n s0; s3 = drop (n + 1) s0 in
              res_bind (split_keys s3) (\<lambda>ss.
              if s2 = ''block_cache'' then
                res_bind (stoi s1) (\<lambda>cap. Inr (fold (set_cache cap) ss m))
              else if s2 = ''kind'' \<or> s2 = ''index'' then
                res_bind (parse_options opt0 s1) (\<lambda>opt. Inr (fold (set_option s2 opt) ss m))
              else Inr m))))"

fun load_lines :: "options \<Rightarrow> string list \<Rightarrow> 'z config_scheme \<Rightarrow> 'z config_scheme res" where
  "load_lines opt0 [] m = Inr m"
| "load_lines opt0 (line # lines) m = res_bind (load_line opt0 line m) (load_lines opt0 lines)"

definition Manager_load :: "options \<Rightarrow> string \<Rightarrow> 'z config_scheme \<Rightarrow> 'z config_scheme res" where
  "Manager_load opt0 fs m = load_lines opt0 (getlines fs) m"

section \<open>Facts on the string operations\<close>

lemma find_char_none: "c \<notin> set (drop pos xs) \<Longrightarrow> find_char c xs pos = None"
proof -
  assume "c \<notin> set (drop pos xs)"
  then have "length (takeWhile (\<lambda>x. x \<noteq> c) (drop pos xs)) = length xs - pos"
    by (subst takeWhile_eq_all_conv [THEN iffD2]) auto
  then show ?thesis by (simp add: find_char_def Let_def)
qed

lemma find_char_from:
  "c \<notin> set mid \<Longrightarrow> pos = length pre \<Longrightarrow>
   find_char c (pre @ mid @ c # ys) pos = Some (length pre + length mid)"
proof -
  assume a: "c \<notin> set mid" "pos = length pre"
  then have "takeWhile (\<lambda>x. x \<noteq> c) (mid @ c # ys) = mid"
    by (subst takeWhile_append_all) auto
  with a(2) show ?thesis by (simp add: find_char_def Let_def)
qed

lemma find_char_append:
  "c \<notin> set xs \<Longrightarrow> find_char c (xs @ c # ys) 0 = Some (length xs)"
  using find_char_from [of c xs 0 "[]" ys] by simp

text \<open>\<open>trim\<close> takes the white space at both ends of a string off.\<close>

lemma trim_core:
  assumes "list_all is_ws ws1" "list_all is_ws ws2" "c \<noteq> []" "\<not> is_ws (hd c)" "\<not> is_ws (last c)"
  shows "trim (ws1 @ c @ ws2) True True = c"
proof -
  have na: "\<not> list_all is_ws c"
    using assms(3,4) by (cases c) auto
  have "dropWhile is_ws (rev c) = rev c" "dropWhile is_ws c = c"
    using assms(3-5) by (auto simp: dropWhile_eq_self_iff hd_rev)
  then have "dropWhile is_ws (rev (ws1 @ c @ ws2)) = rev (ws1 @ c)" "dropWhile is_ws (ws1 @ c) = c"
    using assms(1-3) na by (auto simp: list_all_iff dropWhile_append)
  then show ?thesis
    using na by (simp add: trim_def Let_def)
qed

text \<open>A string whose middle is not white space keeps the part from its first other character to there.\<close>

lemma trim_front:
  assumes "list_all is_ws ws" "c \<noteq> []" "\<not> is_ws (hd c)" "\<not> is_ws (last c)"
  shows "\<exists>zs'. trim (ws @ c @ zs) True True = c @ zs'"
proof -
  obtain z1 z2 where z: "zs = z1 @ z2" "list_all is_ws z2" "z1 = [] \<or> \<not> is_ws (last z1)"
  proof
    show "zs = rev (dropWhile is_ws (rev zs)) @ rev (takeWhile is_ws (rev zs))"
      by (metis rev_append rev_rev_ident takeWhile_dropWhile_id)
    show "list_all is_ws (rev (takeWhile is_ws (rev zs)))"
      by (auto simp: list_all_iff dest: set_takeWhileD)
    show "rev (dropWhile is_ws (rev zs)) = [] \<or> \<not> is_ws (last (rev (dropWhile is_ws (rev zs))))"
      using hd_dropWhile [of is_ws "rev zs"] by (auto simp: last_rev)
  qed
  have "trim (ws @ (c @ z1) @ z2) True True = c @ z1"
    using assms z(2,3) by (intro trim_core) (auto simp: last_append split: if_splits)
  with z(1) show ?thesis by auto
qed

lemma stoi_digits:
  assumes "\<forall>c \<in> set ds. is_digit c" "ds \<noteq> []" "rest = [] \<or> \<not> is_digit (hd rest)"
    and "int (digits_val ds) \<le> int_max" "\<forall>c \<in> set ws. is_space c"
  shows "stoi (ws @ ds @ rest) = Inr (int (digits_val ds))"
proof -
  obtain d ds' where d: "ds = d # ds'" using assms(2) by (cases ds) auto
  have nsp: "\<not> is_space d" "d \<noteq> CHR ''-''" "d \<noteq> CHR ''+''"
    using assms(1) d by (auto simp: is_digit_def is_space_def is_ws_def nl_def cr_def tab_def)
  have "dropWhile is_space (ws @ ds @ rest) = ds @ rest"
    using assms(5) nsp d by simp
  moreover have "takeWhile is_digit (ds @ rest) = ds"
    using assms(1,3) by (cases rest) (auto simp: takeWhile_append_all)
  ultimately show ?thesis
    using d nsp assms(4) by (simp add: stoi_def Let_def int_min_def)
qed

lemma dec_digits_is_digit: "c \<in> set (dec_digits n) \<Longrightarrow> is_digit c"
  by (simp add: is_digit_def dec_digits_chars)

lemma stoi_dec_digits:
  assumes "int n \<le> int_max" "rest = [] \<or> \<not> is_digit (hd rest)" "\<forall>c \<in> set ws. is_space c"
  shows "stoi (ws @ dec_digits n @ rest) = Inr (int n)"
  using stoi_digits [of "dec_digits n" rest ws] assms by (simp add: dec_digits_is_digit)

lemma digit_not_ws: "is_digit c \<Longrightarrow> \<not> is_ws c"
  by (auto simp: is_digit_def is_ws_def nl_def cr_def tab_def)

lemma dec_digits_not_ws [simp]: "\<not> is_ws (hd (dec_digits n))" "\<not> is_ws (last (dec_digits n))"
  using dec_digits_is_digit [of _ n] dec_digits_nonempty [of n]
  by (metis digit_not_ws hd_in_set, metis digit_not_ws last_in_set)

lemma is_ws_chars [simp]:
  "is_ws CHR '' ''" "\<not> is_ws CHR '',''" "\<not> is_ws CHR ''.''" "\<not> is_ws CHR ''k''" "\<not> is_ws CHR ''i''"
  by (simp_all add: is_ws_def nl_def cr_def tab_def)

lemma trim_dec_digits:
  "trim (dec_digits n) True True = dec_digits n" "trim (CHR '' '' # dec_digits n) True True = dec_digits n"
  using trim_core [of "[]" "[]" "dec_digits n"] trim_core [of "'' ''" "[]" "dec_digits n"] by simp_all

lemma no_comma_digits: "CHR '','' \<notin> set (dec_digits n)" "CHR ''='' \<notin> set (dec_digits n)"
    "CHR ''.'' \<notin> set (dec_digits n)" "CHR '' '' \<notin> set (dec_digits n)" "nl \<notin> set (dec_digits n)"
  using dec_digits_chars [of "CHR '',''" n] dec_digits_chars [of "CHR ''=''" n]
    dec_digits_chars [of "CHR ''.''" n] dec_digits_chars [of "CHR '' ''" n] dec_digits_chars [of nl n]
  by (auto simp: nl_def)

section \<open>Lines of the file\<close>

lemma trim2_all: "pos \<le> length s \<Longrightarrow> trim2 s pos None = Inr (trim (drop pos s) True True)"
  by (simp add: trim2_def)

lemma trim2_part:
  "pos \<le> length s \<Longrightarrow> trim2 s pos (Some n) = Inr (trim (take n (drop pos s)) True True)"
  by (simp add: trim2_def)

text \<open>The options read from \<^verbatim>\<open>files, megabytes, ...\<close>.\<close>

definition line_options :: "options \<Rightarrow> nat \<Rightarrow> nat \<Rightarrow> options" where
  "line_options opt0 files mb =
     opt0\<lparr>create_if_missing := True, max_open_files := int files,
          write_buffer_size := word_of_int (int mb * 2 ^ 20)\<rparr>"

lemma parse_options_numbers:
  assumes "int files \<le> int_max" "int mb \<le> int_max"
  shows "parse_options opt0 (dec_digits files @ '','' @ '' '' @ dec_digits mb @ '','' @ rest) =
         (if mb < 2048 then Inr (line_options opt0 files mb) else Inl IntOverflow)"
proof -
  define s where "s = dec_digits files @ '','' @ '' '' @ dec_digits mb @ '','' @ rest"
  define p where "p = length (dec_digits files) + 1"
  define q where "q = p + 1 + length (dec_digits mb)"
  have n1: "find_char CHR '','' s 0 = Some (length (dec_digits files))"
    unfolding s_def using no_comma_digits(1) [of files]
      find_char_append [of "CHR '',''" "dec_digits files" "'' '' @ dec_digits mb @ '','' @ rest"] by simp
  have n2: "find_char CHR '','' s p = Some q"
    unfolding s_def p_def q_def using no_comma_digits(1) [of mb]
      find_char_from [of "CHR '',''" "'' '' @ dec_digits mb" _ "dec_digits files @ '',''" rest] by simp
  have len: "q < length s" "p \<le> length s"
    by (simp_all add: s_def p_def q_def)
  have t1: "trim2 s 0 (Some (length (dec_digits files))) = Inr (dec_digits files)"
    by (simp add: trim2_part s_def trim_dec_digits)
  have "take (q - p) (drop p s) = CHR '' '' # dec_digits mb"
    by (simp add: s_def p_def q_def)
  then have t2: "trim2 s p (Some (q - p)) = Inr (dec_digits mb)"
    using len by (simp add: trim2_part trim_dec_digits)
  have st: "stoi (dec_digits files) = Inr (int files)" "stoi (dec_digits mb) = Inr (int mb)"
    using stoi_dec_digits [of files "[]" "[]"] stoi_dec_digits [of mb "[]" "[]"] assms by simp_all
  have fin: "\<exists>b. trim2 s (next_pos (find_char CHR '','' s (Suc q))) None = Inr b"
    using find_char_bounds [of "CHR '',''" s "Suc q"]
    by (cases "find_char CHR '','' s (Suc q)") (auto simp: next_pos_def trim2_def)
  have mul: "mul_int (int mb) (2 ^ 20) = (if mb < 2048 then Inr (int mb * 2 ^ 20) else Inl IntOverflow)"
    by (auto simp: mul_int_def int_max_def int_min_def)
  have np: "next_pos (Some (length (dec_digits files))) = p" "next_pos (Some q) = Suc q"
    "count_to (Some q) p = Some (q - p)"
    by (simp_all add: next_pos_def p_def count_to_def)
  from fin obtain b where "trim2 s (next_pos (find_char CHR '','' s (Suc q))) None = Inr b" ..
  then show ?thesis
    unfolding s_def [symmetric]
    by (simp add: parse_options_def Let_def n1 n2 np t1 t2 st mul [simplified] line_options_def)
qed

text \<open>A \<^verbatim>\<open>kind\<close> or \<^verbatim>\<open>index\<close> line for one number.\<close>

definition number_line :: "string \<Rightarrow> nat \<Rightarrow> nat \<Rightarrow> nat \<Rightarrow> string \<Rightarrow> string" where
  "number_line w i files mb rest =
     w @ ''.'' @ dec_digits i @ '' = '' @ dec_digits files @ '', '' @ dec_digits mb @ '','' @ rest"

lemma set_option_number:
  assumes "int i \<le> int_max"
  shows "set_option w opt (dec_digits i) m =
    (let l = logger_prefix (w @ ''.'' @ dec_digits i); opt2 = opt\<lparr>info_log := Some l\<rparr>;
         m' = m\<lparr>loggers := loggers m @ [l]\<rparr>
     in if w = ''kind'' then m'\<lparr>kindOptions := (kindOptions m)(int i \<mapsto> opt2)\<rparr>
        else m'\<lparr>indexOptions := (indexOptions m)(int i \<mapsto> opt2)\<rparr>)"
  using stoi_dec_digits [of i "[]" "[]"] assms by (simp add: set_option_def Let_def)

lemma load_number_line:
  assumes "w = ''kind'' \<or> w = ''index''" "int i \<le> int_max" "int files \<le> int_max" "int mb \<le> int_max"
  shows "load_line opt0 (number_line w i files mb rest) m =
         (if mb < 2048 then Inr (set_option w (line_options opt0 files mb) (dec_digits i) m)
          else Inl IntOverflow)"
proof -
  define key where "key = w @ ''.'' @ dec_digits i"
  define val where "val = dec_digits files @ '', '' @ dec_digits mb @ '','' @ rest"
  have line: "number_line w i files mb rest = (key @ '' '') @ CHR ''='' # '' '' @ val"
    by (simp add: number_line_def key_def val_def)
  have w: "CHR ''='' \<notin> set w" "CHR ''.'' \<notin> set w" "w \<noteq> []" "\<not> is_ws (hd w)" "hd w \<noteq> CHR ''b''"
    "w \<noteq> ''block_cache''"
    using assms(1) by auto
  have eq: "find_char CHR ''='' (number_line w i files mb rest) 0 = Some (length key + 1)"
    unfolding line using w(1) no_comma_digits(2) [of i] by (subst find_char_append) (auto simp: key_def)
  have "trim (key @ '' '') True True = key"
    using trim_core [of "[]" "'' ''" key] w by (simp add: key_def)
  then have k: "trim2 (number_line w i files mb rest) 0 (Some (length key + 1)) = Inr key"
    by (simp add: line trim2_part)
  obtain rest' where "trim ('' '' @ (dec_digits files @ '', '' @ dec_digits mb @ '','') @ rest) True True =
      (dec_digits files @ '', '' @ dec_digits mb @ '','') @ rest'"
    using trim_front [of "'' ''" "dec_digits files @ '', '' @ dec_digits mb @ '',''" rest] by auto
  then have v: "trim2 (number_line w i files mb rest) (length key + 1 + 1) None =
      Inr (dec_digits files @ '','' @ '' '' @ dec_digits mb @ '','' @ rest')"
    by (simp add: line trim2_all val_def)
  have dot: "find_char CHR ''.'' key 0 = Some (length w)"
    unfolding key_def using w(2) find_char_append [of "CHR ''.''" w "dec_digits i"] by simp
  have "key \<noteq> ''basedir''"
    using w(3,5) by (cases w) (auto simp: key_def)
  moreover have "take (length w) key = w" "drop (Suc (length w)) key = dec_digits i"
    by (simp_all add: key_def)
  moreover have "split_keys (dec_digits i) = Inr [dec_digits i]"
    using no_comma_digits(1) [of i] find_char_none [of "CHR '',''" 0 "dec_digits i"]
    by (simp add: split_keys_def)
  ultimately show ?thesis
    using w(6) assms parse_options_numbers [of files mb opt0 rest']
    unfolding load_line_def eq k option.case res_bind_simps v Let_def dot by auto
qed

lemma getlines_Nil [simp]: "getlines [] = []"
  by (simp add: getlines.simps)

lemma getlines_line:
  assumes "nl \<notin> set l"
  shows "getlines (l @ nl # s) = l # getlines s"
proof -
  have "takeWhile (\<lambda>c. c \<noteq> nl) (l @ nl # s) = l" "dropWhile (\<lambda>c. c \<noteq> nl) (l @ nl # s) = nl # s"
    using assms by (induction l) auto
  then show ?thesis by (subst getlines.simps) simp
qed

lemma getlines_last:
  assumes "nl \<notin> set l" "l \<noteq> []"
  shows "getlines l = [l]"
proof -
  have d: "takeWhile (\<lambda>c. c \<noteq> nl) l = l" "dropWhile (\<lambda>c. c \<noteq> nl) l = []"
    using assms(1) by (induction l) auto
  show ?thesis using assms(2) by (subst getlines.simps) (simp add: d)
qed

lemma getlines_concat:
  "\<forall>l \<in> set ls. nl \<notin> set l \<Longrightarrow> getlines (concat (map (\<lambda>l. l @ [nl]) ls)) = ls"
  by (induction ls) (simp_all add: getlines_line)

lemma load_line_empty [simp]: "load_line opt0 [] m = Inr m"
  by (simp add: load_line_def find_char_def)

lemma Manager_load_Nil [simp]: "Manager_load opt0 [] m = Inr m"
  by (simp add: Manager_load_def)

lemma Manager_load_line:
  "nl \<notin> set l \<Longrightarrow>
   Manager_load opt0 (l @ nl # s) m = res_bind (load_line opt0 l m) (Manager_load opt0 s)"
  by (cases "load_line opt0 l m") (simp_all add: Manager_load_def getlines_line)

lemma Manager_load_last: "nl \<notin> set l \<Longrightarrow> Manager_load opt0 l m = load_line opt0 l m"
  by (cases "l = []"; cases "load_line opt0 l m") (simp_all add: Manager_load_def getlines_last)

text \<open>A list of keys with commas between them.\<close>

fun comma_join :: "string list \<Rightarrow> string" where
  "comma_join [] = []"
| "comma_join [k] = k"
| "comma_join (k # ks) = k @ CHR '','' # comma_join ks"

lemma split_loop_last: "CHR '','' \<notin> set k \<Longrightarrow> split_loop (pre @ k) (length pre) = Inr []"
  by (subst split_loop.simps) (simp add: find_char_none)

lemma split_loop_key:
  assumes "CHR '','' \<notin> set k"
  shows "split_loop (pre @ k @ CHR '','' # s) (length pre) =
    res_bind (split_loop ((pre @ k @ '','') @ s) (length (pre @ k @ '',''))) (\<lambda>ks. Inr (trim k True True # ks))"
  using assms
  by (subst split_loop.simps) (simp add: find_char_from trim2_part)

lemma split_loop_join:
  "ks \<noteq> [] \<Longrightarrow> \<forall>k \<in> set ks. CHR '','' \<notin> set k \<Longrightarrow>
   split_loop (pre @ comma_join ks) (length pre) = Inr (map (\<lambda>k. trim k True True) (butlast ks))"
proof (induction ks arbitrary: pre rule: comma_join.induct)
  case (2 k)
  then show ?case by (simp add: split_loop_last)
next
  case (3 k k' ks)
  have "split_loop (pre @ comma_join (k # k' # ks)) (length pre) =
      res_bind (split_loop ((pre @ k @ '','') @ comma_join (k' # ks)) (length (pre @ k @ '','')))
        (\<lambda>ks. Inr (trim k True True # ks))"
    using split_loop_key [of k pre "comma_join (k' # ks)"] "3.prems" by simp
  also have "split_loop ((pre @ k @ '','') @ comma_join (k' # ks)) (length (pre @ k @ '','')) =
      Inr (map (\<lambda>k. trim k True True) (butlast (k' # ks)))"
    by (rule "3.IH") (use "3.prems" in auto)
  finally show ?case by simp
qed simp

section \<open>Properties of Manager::load\<close>

text \<open>
  A \<^verbatim>\<open>kind.i\<close> or \<^verbatim>\<open>index.i\<close> line with a file count and a size in megabytes below 2048 sets
  exactly the entry \<open>i\<close> of its map: the options that a new database of that kind (or index) is
  opened with.  Everything else the manager holds, apart from the list of loggers, is unchanged.
\<close>

theorem config_number_line:
  assumes "w = ''kind'' \<or> w = ''index''" "int i \<le> int_max" "int files \<le> int_max" "mb < 2048"
  shows "load_line opt0 (number_line w i files mb rest) m =
    (let l = ''<leveldb:'' @ w @ ''.'' @ dec_digits i @ ''> '';
         opt = opt0\<lparr>create_if_missing := True, max_open_files := int files,
                    write_buffer_size := word_of_int (int mb * 2 ^ 20), info_log := Some l\<rparr>;
         m' = m\<lparr>loggers := loggers m @ [l]\<rparr>
     in Inr (if w = ''kind'' then m'\<lparr>kindOptions := (kindOptions m)(int i \<mapsto> opt)\<rparr>
             else m'\<lparr>indexOptions := (indexOptions m)(int i \<mapsto> opt)\<rparr>))"
  using assms load_number_line [of w i files mb opt0 rest m]
    set_option_number [of i w "line_options opt0 files mb" m]
  by (simp add: Let_def line_options_def logger_prefix_def int_max_def)

definition lib_options :: options where
  "lib_options = \<lparr>create_if_missing = False, max_open_files = 5000, write_buffer_size = 67108864, info_log = None\<rparr>"

theorem config_number_line_witness:
  "\<exists>m. load_line lib_options ''kind.17 = 200, 4, 4, 32'' (config0 lib_options) = Inr m \<and>
     map_option write_buffer_size (kindOptions m 17) = Some 4194304 \<and>
     map_option max_open_files (kindOptions m 17) = Some 200"
proof -
  have "number_line ''kind'' 17 200 4 '' 4, 32'' = ''kind.17 = 200, 4, 4, 32''"
    by code_simp
  moreover have "\<exists>m. load_line lib_options (number_line ''kind'' 17 200 4 '' 4, 32'') (config0 lib_options) = Inr m \<and>
     map_option write_buffer_size (kindOptions m 17) = Some 4194304 \<and>
     map_option max_open_files (kindOptions m 17) = Some 200"
    by (subst config_number_line) (simp_all add: int_max_def Let_def)
  ultimately show ?thesis by simp
qed

text \<open>C39. A write buffer of 2048 megabytes or more overflows the \<^verbatim>\<open>int\<close> product of its line.\<close>

theorem config_size_overflow:
  assumes "w = ''kind'' \<or> w = ''index''" "int i \<le> int_max" "int files \<le> int_max"
    and "2048 \<le> mb" "int mb \<le> int_max"
  shows "load_line opt0 (number_line w i files mb rest) m = Inl IntOverflow"
  using assms by (simp add: load_number_line)

theorem config_size_overflow_witness:
  "load_line lib_options (number_line ''index'' 73 100 4096 '' 4'') (config0 lib_options) = Inl IntOverflow"
  by (rule config_size_overflow) (simp_all add: int_max_def)

text \<open>
  C38. Of a list of keys with commas between them the loop of \<^verbatim>\<open>load\<close> keeps all but the last,
  trimmed: the loop ends when no further comma is found, and does not push what is behind it.
\<close>

theorem config_last_key_dropped:
  assumes "2 \<le> length ks" "\<forall>k \<in> set ks. CHR '','' \<notin> set k"
  shows "split_keys (comma_join ks) = Inr (map (\<lambda>k. trim k True True) (butlast ks))"
proof -
  obtain k k' ks' where ks: "ks = k # k' # ks'"
    using assms(1) by (cases ks rule: comma_join.cases) auto
  have "find_char CHR '','' (comma_join ks) 0 = Some (length k)"
    using assms(2) ks by (simp add: find_char_append)
  then show ?thesis
    using split_loop_join [of ks "[]"] assms ks by (simp add: split_keys_def)
qed

theorem config_last_key_dropped_witness: "split_keys ''17, 25'' = Inr [''17'']"
  using config_last_key_dropped [of "[''17'', '' 25'']"] by (simp add: trim_def is_ws_def nl_def cr_def tab_def)

text \<open>
  Reading one file after another is reading them joined with a line break: the options a
  later line sets are applied to what the earlier lines have left.
\<close>

theorem config_load_append:
  fixes m :: "'z config_scheme"
  shows "Manager_load opt0 (s1 @ nl # s2) m = res_bind (Manager_load opt0 s1 m) (Manager_load opt0 s2)"
proof (induction s1 arbitrary: m rule: getlines.induct)
  case (1 s)
  show ?case
  proof (cases "nl \<in> set s")
    case True
    then obtain l s' where s: "s = l @ nl # s'" "nl \<notin> set l"
      by (meson split_list_first)
    have "s \<noteq> []" "tl (dropWhile (\<lambda>c. c \<noteq> nl) s) = s'"
      unfolding s(1) using s(2) by (auto, induction l) auto
    then have "Manager_load opt0 (s' @ nl # s2) m' = res_bind (Manager_load opt0 s' m') (Manager_load opt0 s2)" for m' :: "'z config_scheme"
      using "1" by simp
    then show ?thesis
      using s(2) unfolding s(1)
      by (cases "load_line opt0 l m") (simp_all add: Manager_load_line res_bind_assoc)
  next
    case False
    then show ?thesis by (simp add: Manager_load_line Manager_load_last)
  qed
qed

definition init_cfg :: string where
  "init_cfg = concat (map (\<lambda>l. l @ [nl])
     [''basedir = __ndb_data'', [], ''block_cache.default = 64'',
      ''kind.default = 200, 4, 4, default'', ''index.default = 100, 4, 4, default''])"

text \<open>
  The configuration that is shipped (\<^verbatim>\<open>init.cfg\<close>) is read without a fault: the base directory,
  one cache of 64, and default options of 4 MB write buffers with 200 open files for kinds and
  100 for indexes; no number has options of its own.
\<close>

theorem config_shipped:
  "Manager_load opt0 init_cfg (config0 opt0) =
   Inr \<lparr>basedir = ''__ndb_data'', blockCache = [''default'' \<mapsto> 64], caches = [64],
        kindOptions = Map.empty, indexOptions = Map.empty,
        defKindOption = opt0\<lparr>create_if_missing := True, max_open_files := 200,
          write_buffer_size := 4194304, info_log := Some ''<leveldb:kind.default> ''\<rparr>,
        defIndexOption = opt0\<lparr>create_if_missing := True, max_open_files := 100,
          write_buffer_size := 4194304, info_log := Some ''<leveldb:index.default> ''\<rparr>,
        loggers = [''<leveldb:kind.default> '', ''<leveldb:index.default> '']\<rparr>"
proof -
  have 1: "load_line opt0 ''basedir = __ndb_data'' m = Inr (m\<lparr>basedir := ''__ndb_data''\<rparr>)"
    and 2: "load_line opt0 ''block_cache.default = 64'' m = Inr (set_cache 64 ''default'' m)"
    and 3: "load_line opt0 ''kind.default = 200, 4, 4, default'' m =
      Inr (set_option ''kind'' (line_options opt0 200 4) ''default'' m)"
    and 4: "load_line opt0 ''index.default = 100, 4, 4, default'' m =
      Inr (set_option ''index'' (line_options opt0 100 4) ''default'' m)" for m
    by (simp_all add: load_line_def find_char_def trim2_def trim_def is_ws_def nl_def cr_def tab_def
        split_keys_def stoi_def is_space_def is_digit_def digits_val_def int_min_def int_max_def
        parse_options_def next_pos_def count_to_def mul_int_def line_options_def Let_def)
  show ?thesis
    unfolding Manager_load_def init_cfg_def
    by (subst getlines_concat)
       (simp_all add: 1 2 3 4 nl_def set_cache_def set_option_def stoi_def is_space_def is_ws_def
         cr_def tab_def is_digit_def line_options_def logger_prefix_def config0_def Let_def)
qed

end
