(* ===== verification/Manager.thy ===== *)
theory Manager
  imports Keys RocksDB Config
begin

text \<open>
  \<^verbatim>\<open>class Manager\<close> of \<^verbatim>\<open>manager.h\<close> and \<^verbatim>\<open>manager.cc\<close>: which database a key belongs to, and the
  databases that are open.  A pointer \<^verbatim>\<open>Ndb*\<close> is the index of its database in \<^verbatim>\<open>dbs_\<close>, which
  owns them and only grows; \<^verbatim>\<open>nullptr\<close> is \<open>None\<close>.  The file system calls and
  \<^verbatim>\<open>leveldb::DB::Open\<close> are a parameter, operations on a world.
\<close>

section \<open>The environment\<close>

text \<open>
  \<open>sys_stat\<close>: \<open>None\<close> when \<^verbatim>\<open>stat\<close> fails, else whether the path is a directory; \<open>sys_mkdir\<close>:
  whether \<^verbatim>\<open>mkdir\<close> returned 0; \<open>db_open\<close>: status and database pointer of \<^verbatim>\<open>DB::Open\<close>.
\<close>

record ('w, 'd) env =
  sys_stat :: "'w \<Rightarrow> string \<Rightarrow> bool option"
  sys_mkdir :: "'w \<Rightarrow> string \<Rightarrow> bool \<times> 'w"
  db_open :: "'w \<Rightarrow> options \<Rightarrow> string \<Rightarrow> status \<times> 'd option \<times> 'w"

record 'd manager = config +
  indexDbs :: "u8 \<rightharpoonup> nat"
  shardDbs :: "u16 \<rightharpoonup> nat"
  perkindDbs :: "u16 \<rightharpoonup> (u8 \<rightharpoonup> nat)"
  dbs :: "'d list"
  dbPerKind :: bool
  shardMin :: u16
  shardRange :: u16

text \<open>World, manager and the \<^verbatim>\<open>err\<close> string of the caller.\<close>

type_synonym ('w, 'd) mstate = "'w \<times> 'd manager \<times> string"

section \<open>Opening databases\<close>

definition ensureDir :: "('w, 'd) env \<Rightarrow> string \<Rightarrow> 'w \<Rightarrow> string \<Rightarrow> 'w \<times> string" where
  "ensureDir E s w err =
     (case sys_stat E w s of
        Some isdir \<Rightarrow> (w, if isdir then err else ''Error: Not a directory'')
      | None \<Rightarrow> (let (ok, w) = sys_mkdir E w s
                 in (w, if ok then err else ''Error: Error making directory'')))"

definition openDb :: "('w, 'd) env \<Rightarrow> string \<Rightarrow> options \<Rightarrow> ('w, 'd) mstate \<Rightarrow> nat option \<times> ('w, 'd) mstate" where
  "openDb E dbdir opt st =
     (let (w, m, err) = st; (s, db, w) = db_open E w opt dbdir
      in case (if st_ok s then db else None) of
           None \<Rightarrow> (None, w, m, st_string s)
         | Some d \<Rightarrow> (Some (length (dbs m)), w, m\<lparr>dbs := dbs m @ [d]\<rparr>, err))"

definition indexDb :: "('w, 'd) env \<Rightarrow> u8 \<Rightarrow> ('w, 'd) mstate \<Rightarrow> nat option \<times> ('w, 'd) mstate" where
  "indexDb E index st =
     (let (w, m, err) = st in
      case indexDbs m index of
        Some n \<Rightarrow> (Some n, st)
      | None \<Rightarrow>
          let opt = (case indexOptions m (uint index) of None \<Rightarrow> defIndexOption m | Some opt \<Rightarrow> opt);
              dbdir = basedir m @ ''/index-'' @ to_string (uint index);
              (n, w, m, err) = openDb E dbdir opt st
          in case n of
               None \<Rightarrow> (None, w, m, err)
             | Some h \<Rightarrow> (Some h, w, m\<lparr>indexDbs := (indexDbs m)(index \<mapsto> h)\<rparr>, err))"

definition shardDb :: "('w, 'd) env \<Rightarrow> u16 \<Rightarrow> ('w, 'd) mstate \<Rightarrow> nat option \<times> ('w, 'd) mstate" where
  "shardDb E shard st =
     (let (w, m, err) = st in
      case shardDbs m shard of
        Some n \<Rightarrow> (Some n, st)
      | None \<Rightarrow>
          let dbdir = basedir m @ ''/shard-'' @ to_string (uint shard);
              (n, w, m, err) = openDb E dbdir (defKindOption m) st
          in case n of
               None \<Rightarrow> (None, w, m, err)
             | Some h \<Rightarrow> (Some h, w, m\<lparr>shardDbs := (shardDbs m)(shard \<mapsto> h)\<rparr>, err))"

text \<open>The map of a shard is made, empty, before anything else and stays when the open fails.\<close>

definition shard_map :: "u16 \<Rightarrow> 'd manager \<Rightarrow> (u8 \<rightharpoonup> nat) \<times> 'd manager" where
  "shard_map shard m =
     (case perkindDbs m shard of
        None \<Rightarrow> (Map.empty, m\<lparr>perkindDbs := (perkindDbs m)(shard \<mapsto> Map.empty)\<rparr>)
      | Some m2 \<Rightarrow> (m2, m))"

definition perkindDb :: "('w, 'd) env \<Rightarrow> u16 \<Rightarrow> u8 \<Rightarrow> ('w, 'd) mstate \<Rightarrow> nat option \<times> ('w, 'd) mstate" where
  "perkindDb E shard kind st =
     (let (w, m, err) = st; (m2, m) = shard_map shard m
      in case m2 kind of
        Some n \<Rightarrow> (Some n, w, m, err)
      | None \<Rightarrow>
          let opt = (case kindOptions m (uint kind) of None \<Rightarrow> defKindOption m | Some opt \<Rightarrow> opt);
              dbdir = basedir m @ ''/shard-'' @ to_string (uint shard);
              (w, err) = ensureDir E dbdir w err
          in if 0 < length err then (None, w, m, err)
             else
               let dbdir = dbdir @ ''/root-kind-'' @ to_string (uint kind);
                   (w, err) = ensureDir E dbdir w err
               in if 0 < length err then (None, w, m, err)
                  else
                    let (n, w, m, err) = openDb E dbdir opt (w, m, err)
                    in case n of
                         None \<Rightarrow> (None, w, m, err)
                       | Some h \<Rightarrow>
                           (Some h, w, m\<lparr>perkindDbs := (perkindDbs m)(shard \<mapsto> m2(kind \<mapsto> h))\<rparr>, err))"

definition dataDb :: "('w, 'd) env \<Rightarrow> u16 \<Rightarrow> u8 \<Rightarrow> ('w, 'd) mstate \<Rightarrow> nat option \<times> ('w, 'd) mstate" where
  "dataDb E shard kind st =
     (if dbPerKind (fst (snd st)) then perkindDb E shard kind st else shardDb E shard st)"

definition shard_in_range :: "'d manager \<Rightarrow> u16 \<Rightarrow> bool" where
  "shard_in_range m shd \<longleftrightarrow>
     \<not> (uint shd < uint (shardMin m) \<or> uint (shardMin m) + uint (shardRange m) \<le> uint shd)"

definition bad_shard_msg :: "u16 \<Rightarrow> string" where
  "bad_shard_msg shd = ''ndbForKey: Invalid shard: '' @ to_string (uint shd)"

definition bad_discrim_msg :: "u8 \<Rightarrow> string" where
  "bad_discrim_msg d = ''ndbForKey: Error: unidentified discrim: '' @ to_string (uint d)"

definition ndbForKey :: "('w, 'd) env \<Rightarrow> bytes \<Rightarrow> ('w, 'd) mstate \<Rightarrow> (nat option \<times> ('w, 'd) mstate) res" where
  "ndbForKey E key st =
     (let (w, m, err) = st in
      res_bind (extractKeyParts key) (\<lambda>p.
      case Discriminator_of (kp_discrim p) of
        None \<Rightarrow> Inr (None, w, m, bad_discrim_msg (kp_discrim p))
      | Some D_INDEX \<Rightarrow>
          (case kp_indexid p of None \<Rightarrow> Inl Uninit | Some xi \<Rightarrow> Inr (indexDb E xi st))
      | Some _ \<Rightarrow>
          (case (kp_shardid p, kp_rootkindid p) of
             (Some xshd, Some xrk) \<Rightarrow>
               if \<not> shard_in_range m xshd then Inr (None, w, m, bad_shard_msg xshd)
               else Inr (dataDb E xshd xrk st)
           | _ \<Rightarrow> Inl Uninit)))"

section \<open>Find or create\<close>

text \<open>
  The shape of all the lookups of the program that fill a map on demand: \<open>look\<close> reads the map,
  \<open>fetch\<close> gives the entry and makes it when there is none, which may fail.
\<close>

locale find_or_create =
  fixes look :: "'s \<Rightarrow> 'k \<Rightarrow> 'h option"
    and fetch :: "'k \<Rightarrow> 's \<Rightarrow> 'h option \<times> 's"
  assumes hit: "look s k = Some h \<Longrightarrow> fst (fetch k s) = Some h \<and> look (snd (fetch k s)) = look s"
    and miss: "look s k = None \<Longrightarrow>
      look (snd (fetch k s)) = (look s)(k := fst (fetch k s))"
begin

lemma fetch_found: "fst (fetch k s) = Some h \<Longrightarrow> look (snd (fetch k s)) k = Some h"
  using hit [of s k] miss [of s k] by (cases "look s k") auto

lemma fetch_frame: "k' \<noteq> k \<Longrightarrow> look (snd (fetch k s)) k' = look s k'"
  using hit [of s k] miss [of s k] by (cases "look s k") auto

lemma fetch_keeps: "look s k' = Some h \<Longrightarrow> look (snd (fetch k s)) k' = Some h"
  using hit [of s k] fetch_frame [of k' k s] by (cases "k' = k") auto

lemma fetches_keep: "look s k = Some h \<Longrightarrow> look (fold (\<lambda>k s. snd (fetch k s)) ks s) k = Some h"
  by (induction ks arbitrary: s) (auto simp: fetch_keeps)

text \<open>Once an entry was given, it is given again after any number of other lookups.\<close>

lemma fetch_again:
  assumes "fst (fetch k s) = Some h"
  shows "fst (fetch k (fold (\<lambda>k s. snd (fetch k s)) ks (snd (fetch k s)))) = Some h"
  by (rule hit [THEN conjunct1], rule fetches_keep, rule fetch_found [OF assms])

end

text \<open>Entries that are made are new: no two keys share one.\<close>

locale fresh_entries = find_or_create look fetch
  for look :: "'s \<Rightarrow> 'k \<Rightarrow> 'h option" and fetch :: "'k \<Rightarrow> 's \<Rightarrow> 'h option \<times> 's" +
  fixes used :: "'s \<Rightarrow> 'h set"
  assumes used_mono: "used s \<subseteq> used (snd (fetch k s))"
    and made: "look s k = None \<Longrightarrow> fst (fetch k s) = Some h \<Longrightarrow> h \<notin> used s \<and> h \<in> used (snd (fetch k s))"
begin

definition separate :: "'s \<Rightarrow> bool" where
  "separate s \<longleftrightarrow> ran (look s) \<subseteq> used s \<and> inj_on (look s) (dom (look s))"

lemma separate_eq: "separate s \<Longrightarrow> look s k = Some h \<Longrightarrow> look s k' = Some h \<Longrightarrow> k = k'"
  unfolding separate_def by (metis domI inj_onD)

lemma separateI:
  "(\<And>k h. look s k = Some h \<Longrightarrow> h \<in> used s) \<Longrightarrow>
   (\<And>k k' h. look s k = Some h \<Longrightarrow> look s k' = Some h \<Longrightarrow> k = k') \<Longrightarrow> separate s"
  unfolding separate_def ran_def inj_on_def dom_def by fastforce

lemma separate_used: "separate s \<Longrightarrow> look s k = Some h \<Longrightarrow> h \<in> used s"
  by (auto simp: separate_def ran_def)

lemma separate_fetch:
  assumes "separate s"
  shows "separate (snd (fetch k s))"
proof (cases "look s k")
  case (Some h)
  then show ?thesis
    using assms hit [OF Some] used_mono [of s k] by (auto simp: separate_def)
next
  case None
  note l = miss [OF None]
  show ?thesis
  proof (rule separateI)
    fix k' h assume "look (snd (fetch k s)) k' = Some h"
    then show "h \<in> used (snd (fetch k s))"
      using l made [OF None] used_mono [of s k] separate_used [OF assms, of k']
      by (auto split: if_splits)
  next
    fix k1 k2 h assume a: "look (snd (fetch k s)) k1 = Some h" "look (snd (fetch k s)) k2 = Some h"
    show "k1 = k2"
      using a l made [OF None, of h] separate_eq [OF assms, of k1 h k2]
        separate_used [OF assms, of k1 h] separate_used [OF assms, of k2 h]
      by (auto split: if_splits)
  qed
qed

lemma separate_fetches: "separate s \<Longrightarrow> separate (fold (\<lambda>k s. snd (fetch k s)) ks s)"
  by (induction ks arbitrary: s) (auto simp: separate_fetch)

end

section \<open>The databases of a manager\<close>

text \<open>What a database is opened for, and the directory it is in.\<close>

datatype db_key = IndexDb u8 | ShardDb u16 | KindDb u16 u8

fun db_look :: "'d manager \<Rightarrow> db_key \<Rightarrow> nat option" where
  "db_look m (IndexDb i) = indexDbs m i"
| "db_look m (ShardDb s) = shardDbs m s"
| "db_look m (KindDb s k) = (case perkindDbs m s of None \<Rightarrow> None | Some m2 \<Rightarrow> m2 k)"

fun db_fetch :: "('w, 'd) env \<Rightarrow> db_key \<Rightarrow> ('w, 'd) mstate \<Rightarrow> nat option \<times> ('w, 'd) mstate" where
  "db_fetch E (IndexDb i) st = indexDb E i st"
| "db_fetch E (ShardDb s) st = shardDb E s st"
| "db_fetch E (KindDb s k) st = perkindDb E s k st"

fun db_dir :: "string \<Rightarrow> db_key \<Rightarrow> string" where
  "db_dir b (IndexDb i) = b @ ''/index-'' @ to_string (uint i)"
| "db_dir b (ShardDb s) = b @ ''/shard-'' @ to_string (uint s)"
| "db_dir b (KindDb s k) = b @ ''/shard-'' @ to_string (uint s) @ ''/root-kind-'' @ to_string (uint k)"

text \<open>Everything of a manager but its databases.\<close>

definition same_setup :: "'d manager \<Rightarrow> 'd manager \<Rightarrow> bool" where
  "same_setup m m' \<longleftrightarrow> config.truncate m' = config.truncate m \<and> dbPerKind m' = dbPerKind m
     \<and> shardMin m' = shardMin m \<and> shardRange m' = shardRange m"

lemma same_setup_refl [simp]: "same_setup m m"
  by (simp add: same_setup_def)

lemma same_setup_updates [simp]:
  "same_setup m (m\<lparr>dbs := x\<rparr>)" "same_setup m (m\<lparr>indexDbs := a\<rparr>)" "same_setup m (m\<lparr>shardDbs := b\<rparr>)"
  "same_setup m (m\<lparr>perkindDbs := c\<rparr>)" "same_setup m (m\<lparr>dbs := x, indexDbs := a\<rparr>)"
  "same_setup m (m\<lparr>dbs := x, shardDbs := b\<rparr>)" "same_setup m (m\<lparr>dbs := x, perkindDbs := c\<rparr>)"
  by (simp_all add: same_setup_def config.truncate_def)

text \<open>
  What a lookup does, in one rule: nothing when there is a handle; else an open with a new
  handle, the length of \<open>dbs\<close>; else a failure that leaves the handles alone and sets the error.
\<close>

lemma openDb_cases:
  assumes "openDb E dbdir opt (w, m, err) = (r, w', m', err')"
  obtains (opened) d s where "db_open E w opt dbdir = (s, Some d, w')" "st_ok s"
      "r = Some (length (dbs m))" "m' = m\<lparr>dbs := dbs m @ [d]\<rparr>" "err' = err"
    | (failed) s db where "db_open E w opt dbdir = (s, db, w')" "\<not> st_ok s \<or> db = None"
      "r = None" "m' = m" "err' = st_string s"
proof -
  obtain s db w1 where o: "db_open E w opt dbdir = (s, db, w1)"
    using prod_cases3 by blast
  show ?thesis
  proof (cases "if st_ok s then db else None")
    case None
    then show ?thesis
      using failed [of s db] o assms by (simp add: openDb_def split: if_splits)
  next
    case (Some d)
    then show ?thesis
      using opened [of s d] o assms by (simp add: openDb_def split: if_splits)
  qed
qed

lemma db_look_perkind_None [simp]:
  "perkindDbs m s = None \<Longrightarrow> db_look (m\<lparr>perkindDbs := (perkindDbs m)(s \<mapsto> Map.empty)\<rparr>) = db_look m"
proof
  fix k assume "perkindDbs m s = None"
  then show "db_look (m\<lparr>perkindDbs := (perkindDbs m)(s \<mapsto> Map.empty)\<rparr>) k = db_look m k"
    by (cases k) auto
qed

lemma db_look_updates:
  "db_look (m\<lparr>dbs := x\<rparr>) = db_look m"
  "db_look (m\<lparr>dbs := x, indexDbs := (indexDbs m)(i \<mapsto> h)\<rparr>) = (db_look m)(IndexDb i \<mapsto> h)"
  "db_look (m\<lparr>dbs := x, shardDbs := (shardDbs m)(s \<mapsto> h)\<rparr>) = (db_look m)(ShardDb s \<mapsto> h)"
proof -
  show "db_look (m\<lparr>dbs := x\<rparr>) = db_look m"
    by (rule ext, rename_tac k, case_tac k) simp_all
  show "db_look (m\<lparr>dbs := x, indexDbs := (indexDbs m)(i \<mapsto> h)\<rparr>) = (db_look m)(IndexDb i \<mapsto> h)"
    by (rule ext, rename_tac k, case_tac k) simp_all
  show "db_look (m\<lparr>dbs := x, shardDbs := (shardDbs m)(s \<mapsto> h)\<rparr>) = (db_look m)(ShardDb s \<mapsto> h)"
    by (rule ext, rename_tac k, case_tac k) simp_all
qed

lemma db_look_kind_update:
  "perkindDbs m s = Some m2 \<Longrightarrow>
   db_look (m\<lparr>dbs := x, perkindDbs := (perkindDbs m)(s \<mapsto> m2(k \<mapsto> h))\<rparr>) = (db_look m)(KindDb s k \<mapsto> h)"
  "perkindDbs m s = None \<Longrightarrow>
   db_look (m\<lparr>dbs := x, perkindDbs := (perkindDbs m)(s \<mapsto> [k \<mapsto> h])\<rparr>) = (db_look m)(KindDb s k \<mapsto> h)"
  by (rule ext, rename_tac k', case_tac k', auto)+

fun db_options :: "'d manager \<Rightarrow> db_key \<Rightarrow> options" where
  "db_options m (IndexDb i) = (case indexOptions m (uint i) of None \<Rightarrow> defIndexOption m | Some opt \<Rightarrow> opt)"
| "db_options m (ShardDb s) = defKindOption m"
| "db_options m (KindDb s k) = (case kindOptions m (uint k) of None \<Rightarrow> defKindOption m | Some opt \<Rightarrow> opt)"

text \<open>The world in which the database is opened, after the directories were made.\<close>

fun db_prepare :: "('w, 'd) env \<Rightarrow> string \<Rightarrow> db_key \<Rightarrow> 'w \<Rightarrow> string \<Rightarrow> 'w \<times> string" where
  "db_prepare E b (KindDb s k) w err =
     (let (w, err) = ensureDir E (b @ ''/shard-'' @ to_string (uint s)) w err
      in if 0 < length err then (w, err) else ensureDir E (db_dir b (KindDb s k)) w err)"
| "db_prepare E b k w err = (w, err)"

lemma ensureDir_keeps_err: "ensureDir E s w err = (w', []) \<Longrightarrow> err = []"
  by (auto simp: ensureDir_def split: option.splits prod.splits if_splits)

lemma db_prepare_ok: "db_prepare E b (KindDb s k) w err = (w', []) \<Longrightarrow> err = []"
  by (auto simp: Let_def split: prod.splits if_splits dest: ensureDir_keeps_err)

lemma db_fetch_hit: "db_look m k = Some h \<Longrightarrow> db_fetch E k (w, m, err) = (Some h, w, m, err)"
  by (cases k) (auto simp: indexDb_def shardDb_def perkindDb_def shard_map_def split: option.splits)

text \<open>The outcome of a lookup that found nothing.\<close>

definition db_made ::
  "('w, 'd) env \<Rightarrow> db_key \<Rightarrow> ('w, 'd) mstate \<Rightarrow> nat option \<times> ('w, 'd) mstate \<Rightarrow> bool" where
  "db_made E k st out =
     (let (w, m, err) = st; (r, w', m', err') = out; (w1, err1) = db_prepare E (basedir m) k w err;
          (s, db, w2) = db_open E w1 (db_options m k) (db_dir (basedir m) k)
      in st_ok s \<and> err' = err1 \<and> (err = [] \<longrightarrow> err1 = []) \<and> w' = w2 \<and> r = Some (length (dbs m))
         \<and> (case db of None \<Rightarrow> False | Some d \<Rightarrow> dbs m' = dbs m @ [d])
         \<and> db_look m' = (db_look m)(k \<mapsto> length (dbs m)) \<and> same_setup m m')"

definition db_failed ::
  "('w, 'd) env \<Rightarrow> db_key \<Rightarrow> ('w, 'd) mstate \<Rightarrow> nat option \<times> ('w, 'd) mstate \<Rightarrow> bool" where
  "db_failed E k st out =
     (let (w, m, err) = st; (r, w', m', err') = out; (w1, err1) = db_prepare E (basedir m) k w err;
          (s, db, w2) = db_open E w1 (db_options m k) (db_dir (basedir m) k)
      in r = None \<and> dbs m' = dbs m \<and> db_look m' = db_look m \<and> same_setup m m'
         \<and> (err' = err1 \<and> err1 \<noteq> [] \<and> w' = w1 \<or> err' = st_string s \<and> w' = w2 \<and> (\<not> st_ok s \<or> db = None)))"

lemma indexDb_miss:
  assumes "db_look m (IndexDb i) = None"
  shows "db_made E (IndexDb i) (w, m, err) (indexDb E i (w, m, err))
       \<or> db_failed E (IndexDb i) (w, m, err) (indexDb E i (w, m, err))"
proof -
  obtain r w' m' err' where o: "openDb E (db_dir (basedir m) (IndexDb i)) (db_options m (IndexDb i)) (w, m, err)
      = (r, w', m', err')" by (metis prod_cases4)
  then have f: "indexDb E i (w, m, err) =
      (case r of None \<Rightarrow> (None, w', m', err')
       | Some h \<Rightarrow> (Some h, w', m'\<lparr>indexDbs := (indexDbs m')(i \<mapsto> h)\<rparr>, err'))"
    using assms by (simp add: indexDb_def)
  from o show ?thesis
    by (cases rule: openDb_cases)
       (auto simp: f db_made_def db_failed_def db_look_updates simp del: fun_upd_apply)
qed

lemma shardDb_miss:
  assumes "db_look m (ShardDb s) = None"
  shows "db_made E (ShardDb s) (w, m, err) (shardDb E s (w, m, err))
       \<or> db_failed E (ShardDb s) (w, m, err) (shardDb E s (w, m, err))"
proof -
  obtain r w' m' err' where o: "openDb E (db_dir (basedir m) (ShardDb s)) (db_options m (ShardDb s)) (w, m, err)
      = (r, w', m', err')" by (metis prod_cases4)
  then have f: "shardDb E s (w, m, err) =
      (case r of None \<Rightarrow> (None, w', m', err')
       | Some h \<Rightarrow> (Some h, w', m'\<lparr>shardDbs := (shardDbs m')(s \<mapsto> h)\<rparr>, err'))"
    using assms by (simp add: shardDb_def)
  from o show ?thesis
    by (cases rule: openDb_cases)
       (auto simp: f db_made_def db_failed_def db_look_updates simp del: fun_upd_apply)
qed

text \<open>\<^verbatim>\<open>perkindDb\<close> once its shard has a map, and the same after the shard got an empty one.\<close>

lemma perkindDb_step:
  assumes "perkindDbs m s = Some m2" "m2 k = None"
    and "db_prepare E (basedir m) (KindDb s k) w err = (w1, err1)"
  shows "perkindDb E s k (w, m, err) =
    (if err1 \<noteq> [] then (None, w1, m, err1)
     else case openDb E (db_dir (basedir m) (KindDb s k)) (db_options m (KindDb s k)) (w1, m, []) of
            (None, w', m', err') \<Rightarrow> (None, w', m', err')
          | (Some h, w', m', err') \<Rightarrow> (Some h, w', m'\<lparr>perkindDbs := (perkindDbs m')(s \<mapsto> m2(k \<mapsto> h))\<rparr>, err'))"
proof -
  obtain w2 err2 where 1: "ensureDir E (basedir m @ ''/shard-'' @ to_string (uint s)) w err = (w2, err2)"
    by (metis surj_pair)
  obtain w3 err3 where 2: "ensureDir E (db_dir (basedir m) (KindDb s k)) w2 err2 = (w3, err3)"
    by (metis surj_pair)
  show ?thesis
    using assms 1 2
    by (auto simp: perkindDb_def shard_map_def Let_def split: if_splits prod.split option.split)
qed

lemma perkindDb_miss_some:
  assumes "perkindDbs m s = Some m2" "m2 k = None"
  shows "db_made E (KindDb s k) (w, m, err) (perkindDb E s k (w, m, err))
       \<or> db_failed E (KindDb s k) (w, m, err) (perkindDb E s k (w, m, err))"
proof -
  obtain w1 err1 where p: "db_prepare E (basedir m) (KindDb s k) w err = (w1, err1)"
    by (metis surj_pair)
  note step = perkindDb_step [OF assms p]
  show ?thesis
  proof (cases "err1 = []")
    case False
    then show ?thesis
      by (auto simp: step db_failed_def p Let_def split: prod.splits simp del: db_prepare.simps db_dir.simps db_options.simps)
  next
    case True
    obtain r w' m' err' where o: "openDb E (db_dir (basedir m) (KindDb s k)) (db_options m (KindDb s k)) (w1, m, [])
      = (r, w', m', err')" by (metis prod_cases4)
    then show ?thesis
      using db_prepare_ok p True assms(1)
      by (cases rule: openDb_cases)
         (auto simp: step o db_made_def db_failed_def p db_look_kind_update db_look_updates
           simp del: fun_upd_apply db_prepare.simps db_dir.simps db_options.simps)
  qed
qed

lemma perkindDb_miss:
  assumes "db_look m (KindDb s k) = None"
  shows "db_made E (KindDb s k) (w, m, err) (perkindDb E s k (w, m, err))
       \<or> db_failed E (KindDb s k) (w, m, err) (perkindDb E s k (w, m, err))"
proof (cases "perkindDbs m s")
  case (Some m2)
  then show ?thesis
    using perkindDb_miss_some assms by simp
next
  case None
  define m0 where "m0 = m\<lparr>perkindDbs := (perkindDbs m)(s \<mapsto> Map.empty)\<rparr>"
  have l: "db_look m0 = db_look m"
    unfolding m0_def by (rule db_look_perkind_None [OF None])
  have eq: "dbs m0 = dbs m" "basedir m0 = basedir m" "db_options m0 (KindDb s k) = db_options m (KindDb s k)"
    by (simp_all add: m0_def split: option.split)
  have su: "same_setup m0 m' \<longleftrightarrow> same_setup m m'" for m'
    by (simp add: m0_def same_setup_def config.truncate_def)
  have "perkindDb E s k (w, m, err) = perkindDb E s k (w, m0, err)"
    by (simp add: perkindDb_def shard_map_def m0_def None)
  moreover have "perkindDbs m0 s = Some Map.empty" by (simp add: m0_def)
  ultimately show ?thesis
    using perkindDb_miss_some [of m0 s Map.empty k E w err]
    by (simp add: db_made_def db_failed_def eq l su
        del: db_prepare.simps db_dir.simps db_options.simps cong: option.case_cong)
qed

lemma db_fetch_miss:
  "db_look m k = None \<Longrightarrow>
   db_made E k (w, m, err) (db_fetch E k (w, m, err)) \<or> db_failed E k (w, m, err) (db_fetch E k (w, m, err))"
  by (cases k) (simp_all only: db_fetch.simps indexDb_miss shardDb_miss perkindDb_miss)

text \<open>The three outcomes of a lookup.\<close>

lemma db_fetch_cases:
  assumes "db_fetch E k (w, m, err) = (r, w', m', err')"
  obtains (hit) h where "db_look m k = Some h" "r = Some h" "w' = w" "m' = m" "err' = err"
    | (made) "db_look m k = None" "db_made E k (w, m, err) (r, w', m', err')"
    | (failed) "db_look m k = None" "db_failed E k (w, m, err) (r, w', m', err')"
proof (cases "db_look m k")
  case (Some h)
  then show ?thesis
    using db_fetch_hit [OF Some, of E w err] assms by (auto intro: that(1) [of h])
next
  case None
  then show ?thesis
    using db_fetch_miss [OF None, of E w err] assms that(2,3) by auto
qed

lemma db_madeD:
  assumes "db_made E k (w, m, err) (r, w', m', err')"
  shows "r = Some (length (dbs m))" "length (dbs m') = Suc (length (dbs m))"
    "db_look m' = (db_look m)(k \<mapsto> length (dbs m))" "same_setup m m'" "\<exists>d. dbs m' = dbs m @ [d]"
  using assms by (auto simp: db_made_def Let_def split: prod.splits option.splits)

lemma db_failedD:
  assumes "db_failed E k (w, m, err) (r, w', m', err')"
  shows "r = None" "dbs m' = dbs m" "db_look m' = db_look m" "same_setup m m'"
  using assms by (auto simp: db_failed_def Let_def split: prod.splits)

lemma db_made_err: "db_made E k (w, m, []) (r, w', m', err') \<Longrightarrow> err' = []"
  by (auto simp: db_made_def split: prod.splits)

lemma db_failed_err:
  assumes "db_failed E k (w, m, err) (r, w', m', err')"
    and "\<forall>w opt dir. st_string (fst (db_open E w opt dir)) \<noteq> []"
  shows "err' \<noteq> []"
proof -
  obtain w1 err1 where p: "db_prepare E (basedir m) k w err = (w1, err1)" by (metis surj_pair)
  obtain s db w2 where o: "db_open E w1 (db_options m k) (db_dir (basedir m) k) = (s, db, w2)"
    by (metis prod_cases3)
  have "st_string s \<noteq> []"
    using assms(2) o by (metis fst_conv)
  then show ?thesis
    using assms(1) by (auto simp: db_failed_def p o)
qed

section \<open>The manager as a find-or-create map\<close>

definition mgr_look :: "('w, 'd) mstate \<Rightarrow> db_key \<Rightarrow> nat option" where
  "mgr_look st = db_look (fst (snd st))"

definition mgr_used :: "('w, 'd) mstate \<Rightarrow> nat set" where
  "mgr_used st = {..<length (dbs (fst (snd st)))}"

lemma mgr_fetch_rule:
  obtains (hit) h where "mgr_look st k = Some h" "db_fetch E k st = (Some h, st)"
    | (made) h where "mgr_look st k = None" "fst (db_fetch E k st) = Some h" "h = length (dbs (fst (snd st)))"
        "mgr_look (snd (db_fetch E k st)) = (mgr_look st)(k \<mapsto> h)"
        "length (dbs (fst (snd (snd (db_fetch E k st))))) = Suc h"
    | (failed) "mgr_look st k = None" "fst (db_fetch E k st) = None"
        "mgr_look (snd (db_fetch E k st)) = mgr_look st"
        "dbs (fst (snd (snd (db_fetch E k st)))) = dbs (fst (snd st))"
proof -
  obtain w m err where st: "st = (w, m, err)" by (metis prod_cases3)
  obtain r w' m' err' where f: "db_fetch E k (w, m, err) = (r, w', m', err')" by (metis prod_cases4)
  show ?thesis
    using f
  proof (cases rule: db_fetch_cases)
    case (hit h)
    show ?thesis by (rule that(1) [of h]) (simp_all add: mgr_look_def st f hit)
  next
    case made
    show ?thesis
      by (rule that(2) [of "length (dbs m)"])
         (simp_all add: mgr_look_def st f made(1) db_madeD [OF made(2)])
  next
    case failed
    show ?thesis by (rule that(3)) (simp_all add: mgr_look_def st f failed(1) db_failedD [OF failed(2)])
  qed
qed

interpretation mgr: fresh_entries mgr_look "db_fetch E" mgr_used
  for E :: "('w, 'd) env"
proof
  fix s :: "('w, 'd) mstate" and k h
  assume a: "mgr_look s k = Some h"
  show "fst (db_fetch E k s) = Some h \<and> mgr_look (snd (db_fetch E k s)) = mgr_look s"
    by (cases rule: mgr_fetch_rule [of s k E]) (use a in auto)
next
  fix s :: "('w, 'd) mstate" and k
  assume a: "mgr_look s k = None"
  show "mgr_look (snd (db_fetch E k s)) = (mgr_look s)(k := fst (db_fetch E k s))"
    by (cases rule: mgr_fetch_rule [of s k E]) (use a in auto)
next
  fix s :: "('w, 'd) mstate" and k
  show "mgr_used s \<subseteq> mgr_used (snd (db_fetch E k s))"
    by (cases rule: mgr_fetch_rule [of s k E]) (auto simp: mgr_used_def)
next
  fix s :: "('w, 'd) mstate" and k h
  assume "mgr_look s k = None" "fst (db_fetch E k s) = Some h"
  then show "h \<notin> mgr_used s \<and> h \<in> mgr_used (snd (db_fetch E k s))"
    by (cases rule: mgr_fetch_rule [of s k E]) (auto simp: mgr_used_def)
qed

text \<open>The single maps are of the same shape.\<close>

interpretation index_dbs: find_or_create "\<lambda>st i. mgr_look st (IndexDb i)" "indexDb E" for E :: "('w, 'd) env"
proof
  fix s :: "('w, 'd) mstate" and k h
  assume "mgr_look s (IndexDb k) = Some h"
  from mgr.hit [OF this, of E]
  show "fst (indexDb E k s) = Some h
      \<and> (\<lambda>i. mgr_look (snd (indexDb E k s)) (IndexDb i)) = (\<lambda>i. mgr_look s (IndexDb i))"
    by simp
next
  fix s :: "('w, 'd) mstate" and k
  assume "mgr_look s (IndexDb k) = None"
  from mgr.miss [OF this, of E]
  show "(\<lambda>i. mgr_look (snd (indexDb E k s)) (IndexDb i)) = (\<lambda>i. mgr_look s (IndexDb i))(k := fst (indexDb E k s))"
    by (simp add: fun_eq_iff)
qed

section \<open>Routing\<close>

text \<open>
  The route of a key: the database it belongs to, or the message of its refusal.  It depends on
  the configuration only.
\<close>

definition route :: "'d manager \<Rightarrow> bytes \<Rightarrow> (string + db_key) res" where
  "route m key = res_bind (extractKeyParts key) (\<lambda>p.
     case Discriminator_of (kp_discrim p) of
       None \<Rightarrow> Inr (Inl (bad_discrim_msg (kp_discrim p)))
     | Some D_INDEX \<Rightarrow> Inr (Inr (IndexDb (the (kp_indexid p))))
     | Some _ \<Rightarrow>
         let shd = the (kp_shardid p) in
         Inr (if \<not> shard_in_range m shd then Inl (bad_shard_msg shd)
              else if dbPerKind m then Inr (KindDb shd (the (kp_rootkindid p)))
              else Inr (ShardDb shd)))"

lemma extractKeyParts_fields:
  assumes "extractKeyParts k = Inr p"
  shows "Discriminator_of (kp_discrim p) = Some D_INDEX \<Longrightarrow> \<exists>i. kp_indexid p = Some i"
    "Discriminator_of (kp_discrim p) = Some d \<Longrightarrow> d \<noteq> D_INDEX \<Longrightarrow>
     \<exists>s r. kp_shardid p = Some s \<and> kp_rootkindid p = Some r"
proof -
  obtain b where b: "rd k 0 = Inr b" "kp_discrim p = drop_bit 4 b"
    using assms
    by (auto simp: extractKeyParts_def Let_def res_bind_def split: sum.splits option.splits Discriminator.splits)
  show "\<exists>i. kp_indexid p = Some i" if "Discriminator_of (kp_discrim p) = Some D_INDEX"
    using assms b that by (auto simp: extractKeyParts_def Let_def res_bind_def split: sum.splits)
  show "\<exists>s r. kp_shardid p = Some s \<and> kp_rootkindid p = Some r"
    if "Discriminator_of (kp_discrim p) = Some d" "d \<noteq> D_INDEX"
    using assms b that
    by (cases d) (auto simp: extractKeyParts_def Let_def res_bind_def split: sum.splits)
qed

lemma route_message:
  assumes "route m key = Inr (Inl msg)"
  shows "msg \<noteq> []"
proof (cases "extractKeyParts key")
  case (Inr p)
  then have "msg = bad_discrim_msg (kp_discrim p) \<or> msg = bad_shard_msg (the (kp_shardid p))"
    using assms
    by (cases "Discriminator_of (kp_discrim p)"; cases "the (Discriminator_of (kp_discrim p))")
       (auto simp: route_def Let_def split: if_splits)
  then show ?thesis
    by (auto simp: bad_discrim_msg_def bad_shard_msg_def)
qed (use assms in \<open>simp add: route_def\<close>)

text \<open>\<^verbatim>\<open>ndbForKey\<close> is the route followed by the lookup of that database.\<close>

lemma ndbForKey_route:
  "ndbForKey E key (w, m, err) = res_bind (route m key) (\<lambda>r.
     Inr (case r of Inl msg \<Rightarrow> (None, w, m, msg) | Inr k \<Rightarrow> db_fetch E k (w, m, err)))"
proof (cases "extractKeyParts key")
  case (Inr p)
  note f = extractKeyParts_fields [OF Inr]
  show ?thesis
  proof (cases "Discriminator_of (kp_discrim p)")
    case (Some d)
    then show ?thesis
      using f(1) f(2) [of d] Inr
      by (cases d) (auto simp: ndbForKey_def route_def dataDb_def Let_def)
  qed (simp add: ndbForKey_def route_def Inr)
qed (simp add: ndbForKey_def route_def)

lemma route_same_setup: "same_setup m m' \<Longrightarrow> route m' key = route m key"
  by (cases "extractKeyParts key")
     (simp_all add: route_def same_setup_def shard_in_range_def Let_def split: option.split Discriminator.split)

section \<open>Directories\<close>

lemma to_string_uint: "to_string (uint (x :: 'a :: len word)) = dec_digits (unat x)"
  by (simp add: to_string_def)

lemma dec_digits_takeWhile:
  "rest = [] \<or> \<not> is_digit (hd rest) \<Longrightarrow> takeWhile is_digit (dec_digits n @ rest) = dec_digits n"
  by (cases rest) (auto simp: takeWhile_append_all dec_digits_is_digit)

lemma dec_digits_append_eq:
  assumes "dec_digits n @ r = dec_digits n' @ r'"
    and "r = [] \<or> \<not> is_digit (hd r)" "r' = [] \<or> \<not> is_digit (hd r')"
  shows "n = n' \<and> r = r'"
proof -
  have "dec_digits n = dec_digits n'"
    using assms dec_digits_takeWhile [of r n] dec_digits_takeWhile [of r' n'] by metis
  then show ?thesis using assms(1) by (simp add: dec_digits_inject)
qed

lemma db_dir_inject: "db_dir b k = db_dir b k' \<longleftrightarrow> k = k'"
proof -
  have slash: "\<not> is_digit CHR ''/''" by (simp add: is_digit_def)
  have 1: "dec_digits n = dec_digits n' @ CHR ''/'' # r \<longleftrightarrow> False" for n n' r
    using dec_digits_append_eq [of n "[]" n' "CHR ''/'' # r"] slash by auto
  have 2: "dec_digits n @ CHR ''/'' # r = dec_digits n' @ CHR ''/'' # r' \<longleftrightarrow> n = n' \<and> r = r'" for n n' r r'
    using dec_digits_append_eq [of n "CHR ''/'' # r" n' "CHR ''/'' # r'"] slash by auto
  show ?thesis
    using 1 by (cases k; cases k') (auto simp: to_string_uint dec_digits_inject 2 dest: sym intro: unsigned_word_eqI)
qed

section \<open>Sequences of requests\<close>

text \<open>
  The lookups of a server run: every request starts with an empty error string and goes on with
  the manager the one before has left.
\<close>

fun lookups :: "('w, 'd) env \<Rightarrow> bytes list \<Rightarrow> 'w \<Rightarrow> 'd manager \<Rightarrow> (nat option list \<times> 'w \<times> 'd manager) res" where
  "lookups E [] w m = Inr ([], w, m)"
| "lookups E (key # keys) w m =
     res_bind (ndbForKey E key (w, m, [])) (\<lambda>(h, w, m, err).
     res_bind (lookups E keys w m) (\<lambda>(hs, w, m). Inr (h # hs, w, m)))"

text \<open>A manager as it is constructed and configured, before the first database is opened.\<close>

definition no_dbs :: "'d manager \<Rightarrow> bool" where
  "no_dbs m \<longleftrightarrow> indexDbs m = Map.empty \<and> shardDbs m = Map.empty \<and> perkindDbs m = Map.empty \<and> dbs m = []"

lemma no_dbs_look: "no_dbs m \<Longrightarrow> db_look m = Map.empty"
  by (rule ext, rename_tac k, case_tac k) (simp_all add: no_dbs_def)

lemma no_dbs_separate: "no_dbs m \<Longrightarrow> mgr.separate (w, m, err)"
  by (simp add: mgr.separate_def mgr_look_def no_dbs_look)

lemma separate_err: "mgr.separate (w, m, err) \<Longrightarrow> mgr.separate (w', m, err')"
  by (simp add: mgr.separate_def mgr_look_def mgr_used_def)

text \<open>One request.\<close>

lemma ndbForKey_step:
  assumes "ndbForKey E key (w, m, err) = Inr (h, w', m', err')"
  shows "same_setup m m'" "mgr.separate (w, m, err) \<Longrightarrow> mgr.separate (w', m', err')"
    "db_look m k = Some n \<Longrightarrow> db_look m' k = Some n"
    "h = Some n \<Longrightarrow> \<exists>k. route m key = Inr (Inr k) \<and> db_look m' k = Some n"
proof -
  obtain r where r: "route m key = Inr r"
    using assms by (auto simp: ndbForKey_route res_bind_Inr_iff)
  show "same_setup m m'"
  proof (cases r)
    case (Inr k)
    then have f: "db_fetch E k (w, m, err) = (h, w', m', err')"
      using assms r by (simp add: ndbForKey_route)
    show ?thesis
      using f by (cases rule: db_fetch_cases) (auto dest: db_madeD db_failedD)
  qed (use assms r in \<open>simp add: ndbForKey_route\<close>)
  show "mgr.separate (w, m, err) \<Longrightarrow> mgr.separate (w', m', err')"
    using assms r mgr.separate_fetch [of "(w, m, err)" E]
    by (auto simp: ndbForKey_route separate_err split: sum.splits) (metis snd_conv)
  show "db_look m k = Some n \<Longrightarrow> db_look m' k = Some n"
    using assms r mgr.fetch_keeps [of "(w, m, err)" k n E]
    by (auto simp: ndbForKey_route mgr_look_def split: sum.splits) (metis fst_conv snd_conv)
  show "\<exists>k. route m key = Inr (Inr k) \<and> db_look m' k = Some n" if "h = Some n"
    using assms r that mgr.fetch_found [of E _ "(w, m, err)" n]
    by (auto simp: ndbForKey_route mgr_look_def split: sum.splits) (metis fst_conv snd_conv)
qed

lemma lookups_ConsE:
  assumes "lookups E (key # keys) w m = Inr (hs, w', m')"
  obtains h w1 m1 err1 hs1 where "ndbForKey E key (w, m, []) = Inr (h, w1, m1, err1)"
    "lookups E keys w1 m1 = Inr (hs1, w', m')" "hs = h # hs1"
  using assms by (auto simp: res_bind_Inr_iff split: prod.splits)

lemma lookups_length: "lookups E keys w m = Inr (hs, w', m') \<Longrightarrow> length hs = length keys"
  by (induction keys arbitrary: w m hs) (auto elim!: lookups_ConsE simp del: lookups.simps(2))

lemma lookups_setup: "lookups E keys w m = Inr (hs, w', m') \<Longrightarrow> same_setup m m'"
proof (induction keys arbitrary: w m hs)
  case (Cons key keys)
  from Cons.prems show ?case
  proof (rule lookups_ConsE)
    fix h w1 m1 err1 hs1
    assume a: "ndbForKey E key (w, m, []) = Inr (h, w1, m1, err1)" "lookups E keys w1 m1 = Inr (hs1, w', m')"
    show ?thesis
      using ndbForKey_step(1) [OF a(1)] Cons.IH [OF a(2)] by (simp add: same_setup_def)
  qed
qed simp

lemma lookups_separate:
  "lookups E keys w m = Inr (hs, w', m') \<Longrightarrow> mgr.separate (w, m, []) \<Longrightarrow> mgr.separate (w', m', [])"
proof (induction keys arbitrary: w m hs)
  case (Cons key keys)
  from Cons.prems(1) show ?case
  proof (rule lookups_ConsE)
    fix h w1 m1 err1 hs1
    assume a: "ndbForKey E key (w, m, []) = Inr (h, w1, m1, err1)" "lookups E keys w1 m1 = Inr (hs1, w', m')"
    show ?thesis
      by (rule Cons.IH [OF a(2)], rule separate_err, rule ndbForKey_step(2) [OF a(1) Cons.prems(2)])
  qed
qed simp

lemma lookups_keep:
  "lookups E keys w m = Inr (hs, w', m') \<Longrightarrow> db_look m k = Some n \<Longrightarrow> db_look m' k = Some n"
proof (induction keys arbitrary: w m hs)
  case (Cons key keys)
  from Cons.prems(1) show ?case
  proof (rule lookups_ConsE)
    fix h w1 m1 err1 hs1
    assume a: "ndbForKey E key (w, m, []) = Inr (h, w1, m1, err1)" "lookups E keys w1 m1 = Inr (hs1, w', m')"
    show ?thesis by (rule Cons.IH [OF a(2)], rule ndbForKey_step(3) [OF a(1) Cons.prems(2)])
  qed
qed simp

lemma lookups_route:
  "lookups E keys w m = Inr (hs, w', m') \<Longrightarrow> i < length keys \<Longrightarrow> hs ! i = Some n \<Longrightarrow>
   \<exists>k. route m (keys ! i) = Inr (Inr k) \<and> db_look m' k = Some n"
proof (induction keys arbitrary: w m hs i)
  case (Cons key keys)
  from Cons.prems(1) show ?case
  proof (rule lookups_ConsE)
    fix h w1 m1 err1 hs1
    assume a: "ndbForKey E key (w, m, []) = Inr (h, w1, m1, err1)"
      "lookups E keys w1 m1 = Inr (hs1, w', m')" "hs = h # hs1"
    show ?thesis
    proof (cases i)
      case 0
      then show ?thesis
        using ndbForKey_step(4) [OF a(1), of n] lookups_keep [OF a(2)] Cons.prems(3) a(3) by auto
    next
      case (Suc l)
      then show ?thesis
        using Cons.IH [OF a(2), of l] Cons.prems(2,3) a(3)
          route_same_setup [OF ndbForKey_step(1) [OF a(1)], of "keys ! l"] by simp
    qed
  qed
qed simp

text \<open>The database of a key that is open is found again, whatever is in the databases.\<close>

lemma lookup_again:
  assumes "ndbForKey E key (w, m, []) = Inr (Some n, w, m, [])"
  shows "ndbForKey E key (w', m\<lparr>dbs := ds\<rparr>, []) = Inr (Some n, w', m\<lparr>dbs := ds\<rparr>, [])"
proof -
  obtain k where k: "route m key = Inr (Inr k)" "db_look m k = Some n"
    using ndbForKey_step(4) [OF assms, of n] by auto
  then show ?thesis
    using route_same_setup [of m "m\<lparr>dbs := ds\<rparr>" key] by (simp add: ndbForKey_route db_fetch_hit db_look_updates)
qed

section \<open>The directories that are opened\<close>

text \<open>An environment that also records the directory of every open that succeeds.\<close>

definition recording :: "('w, 'd) env \<Rightarrow> ('w \<times> string list, 'd) env" where
  "recording E =
     \<lparr>sys_stat = (\<lambda>(w, l) p. sys_stat E w p),
      sys_mkdir = (\<lambda>(w, l) p. let (ok, w) = sys_mkdir E w p in (ok, w, l)),
      db_open = (\<lambda>(w, l) opt dir. let (s, db, w) = db_open E w opt dir
                 in (s, db, w, if st_ok s \<and> db \<noteq> None then l @ [dir] else l))\<rparr>"

definition log_inv :: "string list \<Rightarrow> 'd manager \<Rightarrow> bool" where
  "log_inv l m \<longleftrightarrow> (\<exists>ks. l = map (db_dir (basedir m)) ks \<and> length ks = length (dbs m)
     \<and> (\<forall>k n. db_look m k = Some n \<longleftrightarrow> n < length ks \<and> ks ! n = k))"

lemma log_invD:
  assumes "log_inv l m"
  shows "distinct l" "length l = length (dbs m)" "db_look m k = Some n \<Longrightarrow> l ! n = db_dir (basedir m) k"
proof -
  obtain ks where ks: "l = map (db_dir (basedir m)) ks" "length ks = length (dbs m)"
    "\<And>k n. db_look m k = Some n \<longleftrightarrow> n < length ks \<and> ks ! n = k"
    using assms by (auto simp: log_inv_def)
  have "distinct ks"
    unfolding distinct_conv_nth using ks(3) by (metis option.inject)
  moreover have "inj (db_dir (basedir m))"
    by (rule injI) (simp add: db_dir_inject)
  ultimately show "distinct l"
    using ks(1) by (simp add: distinct_map inj_on_def)
  show "length l = length (dbs m)" "db_look m k = Some n \<Longrightarrow> l ! n = db_dir (basedir m) k"
    using ks by auto
qed

lemma log_inv_snoc:
  assumes "log_inv l m" "db_look m k = None" "db_look m' = (db_look m)(k \<mapsto> length (dbs m))"
    "length (dbs m') = Suc (length (dbs m))" "basedir m' = basedir m"
  shows "log_inv (l @ [db_dir (basedir m) k]) m'"
proof -
  obtain ks where ks: "l = map (db_dir (basedir m)) ks" "length ks = length (dbs m)"
    "\<And>k n. db_look m k = Some n \<longleftrightarrow> n < length ks \<and> ks ! n = k"
    using assms(1) by (auto simp: log_inv_def)
  have nk: "\<forall>n < length ks. ks ! n \<noteq> k"
    using ks(3) [of k] assms(2) by auto
  have "db_look m' k' = Some n \<longleftrightarrow> n < length (ks @ [k]) \<and> (ks @ [k]) ! n = k'" for k' n
    using ks(2,3) nk assms(3) by (auto simp: nth_append less_Suc_eq)
  then show ?thesis
    unfolding log_inv_def using ks(1,2) assms(4,5) by (intro exI [of _ "ks @ [k]"]) auto
qed

lemma log_inv_same:
  "log_inv l m \<Longrightarrow> db_look m' = db_look m \<Longrightarrow> dbs m' = dbs m \<Longrightarrow> basedir m' = basedir m \<Longrightarrow> log_inv l m'"
  by (simp add: log_inv_def)

lemma same_setup_basedir: "same_setup m m' \<Longrightarrow> basedir m' = basedir m"
  by (simp add: same_setup_def config.truncate_def)

lemma ensureDir_recording: "ensureDir (recording E) d (w, l) err = (let (w, err) = ensureDir E d w err in ((w, l), err))"
  by (simp add: ensureDir_def recording_def Let_def split: option.split prod.split)

lemma db_prepare_recording:
  "db_prepare (recording E) b k (w, l) err = (let (w, err) = db_prepare E b k w err in ((w, l), err))"
  by (cases k) (simp_all add: ensureDir_recording Let_def split: prod.split)

lemma db_fetch_log:
  assumes "db_fetch (recording E) k ((w, l), m, err) = (r, (w', l'), m', err')" "log_inv l m"
  shows "log_inv l' m'"
proof -
  obtain w1 err1 where p: "db_prepare E (basedir m) k w err = (w1, err1)" by (metis surj_pair)
  obtain s db w2 where o: "db_open E w1 (db_options m k) (db_dir (basedir m) k) = (s, db, w2)"
    by (metis prod_cases3)
  have ro: "db_open (recording E) (w1, l) (db_options m k) (db_dir (basedir m) k) =
      (s, db, w2, if st_ok s \<and> db \<noteq> None then l @ [db_dir (basedir m) k] else l)"
    by (simp add: recording_def o)
  from assms(1) show ?thesis
  proof (cases rule: db_fetch_cases)
    case made
    have "l' = l @ [db_dir (basedir m) k]"
      using made(2) p ro by (auto simp: db_made_def db_prepare_recording split: option.splits)
    then show ?thesis
      using log_inv_snoc [OF assms(2) made(1)] db_madeD [OF made(2)] same_setup_basedir by metis
  next
    case failed
    have "l' = l"
      using failed(2) p ro by (auto simp: db_failed_def db_prepare_recording)
    then show ?thesis
      using log_inv_same [OF assms(2)] db_failedD [OF failed(2)] same_setup_basedir by metis
  qed (use assms(2) in simp)
qed

lemma lookups_log:
  "lookups (recording E) keys (w, l) m = Inr (hs, (w', l'), m') \<Longrightarrow> log_inv l m \<Longrightarrow> log_inv l' m'"
proof (induction keys arbitrary: w l m hs)
  case (Cons key keys)
  from Cons.prems(1) show ?case
  proof (rule lookups_ConsE)
    fix h w1 m1 err1 hs1
    assume a: "ndbForKey (recording E) key ((w, l), m, []) = Inr (h, w1, m1, err1)"
      "lookups (recording E) keys w1 m1 = Inr (hs1, (w', l'), m')"
    obtain w2 l2 where w1: "w1 = (w2, l2)" by (cases w1)
    have "log_inv l2 m1"
      using a(1) db_fetch_log [of E _ w l m "[]"] Cons.prems(2)
      by (cases "route m key"; cases "projr (route m key)") (auto simp: ndbForKey_route w1)
    then show ?thesis using Cons.IH a(2) by (simp add: w1)
  qed
qed simp

lemma no_dbs_log: "no_dbs m \<Longrightarrow> log_inv [] m"
  by (simp add: log_inv_def no_dbs_look no_dbs_def)

section \<open>Handles are owned\<close>

text \<open>Every handle the maps hold is one of a database in \<^verbatim>\<open>dbs_\<close>.\<close>

definition owned :: "'d manager \<Rightarrow> bool" where
  "owned m \<longleftrightarrow> (\<forall>k n. db_look m k = Some n \<longrightarrow> n < length (dbs m))"

lemma separate_owned: "mgr.separate (w, m, err) \<Longrightarrow> owned m"
  using mgr.separate_used [of "(w, m, err)"] by (auto simp: owned_def mgr_look_def mgr_used_def)

lemma no_dbs_owned: "no_dbs m \<Longrightarrow> owned m"
  by (simp add: owned_def no_dbs_look)

lemma db_fetch_owned:
  assumes "db_fetch E k (w, m, err) = (r, w', m', err')" "owned m"
  shows "owned m' \<and> length (dbs m) \<le> length (dbs m') \<and> (case r of None \<Rightarrow> True | Some n \<Rightarrow> n < length (dbs m'))"
  using assms(1)
proof (cases rule: db_fetch_cases)
  case (hit h)
  then show ?thesis using assms(2) by (auto simp: owned_def)
next
  case made
  then show ?thesis
    using db_madeD(1-3) [OF made(2)] assms(2) by (auto simp: owned_def less_SucI)
next
  case failed
  then show ?thesis using db_failedD(1-3) [OF failed(2)] assms(2) by (auto simp: owned_def)
qed

text \<open>With an empty error string before it, a lookup gives a handle exactly when it leaves it empty.\<close>

lemma ndbForKey_handle:
  assumes "\<forall>w opt dir. st_string (fst (db_open E w opt dir)) \<noteq> []" "owned m"
    and "ndbForKey E key (w, m, []) = Inr (h, w', m', err)"
  shows "owned m' \<and> length (dbs m) \<le> length (dbs m')
    \<and> (case h of None \<Rightarrow> err \<noteq> [] | Some n \<Rightarrow> err = [] \<and> n < length (dbs m'))"
proof -
  obtain r where r: "route m key = Inr r"
    using assms(3) by (auto simp: ndbForKey_route res_bind_Inr_iff)
  show ?thesis
  proof (cases r)
    case (Inl msg)
    then show ?thesis
      using assms(2,3) r route_message [of m key msg] by (auto simp: ndbForKey_route)
  next
    case (Inr k)
    then have f: "db_fetch E k (w, m, []) = (h, w', m', err)"
      using assms(3) r by (simp add: ndbForKey_route)
    show ?thesis
      using f
    proof (cases rule: db_fetch_cases)
      case made
      then show ?thesis
        using db_fetch_owned [OF f assms(2)] db_madeD(1) [OF made(2)] db_made_err [OF made(2)] by simp
    next
      case failed
      then show ?thesis
        using db_fetch_owned [OF f assms(2)] db_failedD(1) [OF failed(2)] db_failed_err [OF failed(2) assms(1)]
        by simp
    qed (use db_fetch_owned [OF f assms(2)] in auto)
  qed
qed

lemma extractKeyParts_faults: "extractKeyParts k = Inl f \<Longrightarrow> f = OobRead"
  by (auto simp: extractKeyParts_def Let_def rd_def res_bind_def split: if_splits option.splits Discriminator.splits)

lemma route_faults:
  assumes "route m k = Inl f"
  shows "f = OobRead"
proof (cases "extractKeyParts k")
  case (Inr p)
  then show ?thesis
    using assms
    by (cases "Discriminator_of (kp_discrim p)"; cases "the (Discriminator_of (kp_discrim p))")
       (auto simp: route_def Let_def)
qed (use assms extractKeyParts_faults in \<open>auto simp: route_def\<close>)

text \<open>The same as a rule for requests.\<close>

definition handle_ok :: "nat \<Rightarrow> nat option \<times> 'w \<times> 'd manager \<times> string \<Rightarrow> bool" where
  "handle_ok l = (\<lambda>(h, w, m, err). owned m \<and> l \<le> length (dbs m)
     \<and> (case h of None \<Rightarrow> err \<noteq> [] | Some n \<Rightarrow> err = [] \<and> n < length (dbs m)))"

lemma safe_ndbForKey:
  assumes "\<forall>w opt dir. st_string (fst (db_open E w opt dir)) \<noteq> []" "owned m" "OobRead \<in> F"
  shows "safe F (handle_ok (length (dbs m))) (ndbForKey E key (w, m, []))"
proof (cases "ndbForKey E key (w, m, [])")
  case (Inl f)
  then have "f = OobRead"
    using route_faults [of m key] by (auto simp: ndbForKey_route res_bind_Inl_iff)
  then show ?thesis using Inl assms(3) by simp
next
  case (Inr x)
  obtain h w' m' err where x: "x = (h, w', m', err)" by (metis prod_cases4)
  show ?thesis
    using ndbForKey_handle [OF assms(1,2), of key w h w' m' err] Inr by (simp add: x handle_ok_def)
qed

section \<open>A concrete environment\<close>

text \<open>
  A file system that starts empty, in which every directory can be made and every database
  opened, empty; and a manager configured for the shards 1 to 4.
\<close>

definition mem_env :: "(string list, mem_db) env" where
  "mem_env = \<lparr>sys_stat = (\<lambda>w p. if p \<in> set w then Some True else None),
     sys_mkdir = (\<lambda>w p. (True, p # w)), db_open = (\<lambda>w opt dir. (st_OK, Some [], w))\<rparr>"

definition mem_manager :: "bool \<Rightarrow> 'd manager" where
  "mem_manager perkind = \<lparr>basedir = ''d'', blockCache = Map.empty, caches = [], kindOptions = Map.empty,
     indexOptions = Map.empty, defKindOption = lib_options, defIndexOption = lib_options, loggers = [],
     indexDbs = Map.empty, shardDbs = Map.empty, perkindDbs = Map.empty, dbs = [],
     dbPerKind = perkind, shardMin = 1, shardRange = 4\<rparr>"

text \<open>Keys of two shards, and an index key; and what looking them up gives.\<close>

definition demo_key :: "u16 \<Rightarrow> bytes" where
  "demo_key shard = key_bytes [\<lparr>ck_body = key_head D_ENTITY shard @ [0, 0, 0, 9], ck_kind = 17,
     ck_tail = tail_byte 3 E_DATA\<rparr>]"

definition demo_keys :: "bytes list" where
  "demo_keys = [demo_key 2, demo_key 3, demo_key 2, [0x10, 1, 2]]"

lemma no_dbs_mem: "no_dbs (mem_manager b)"
  by (simp add: no_dbs_def mem_manager_def)

lemma demo_lookups:
  obtains w m where "lookups mem_env demo_keys [] (mem_manager True) = Inr ([Some 0, Some 1, Some 0, Some 2], w, m)"
proof -
  have "case lookups mem_env demo_keys [] (mem_manager True) of
      Inl _ \<Rightarrow> False | Inr (hs, w, m) \<Rightarrow> hs = [Some 0, Some 1, Some 0, Some 2]"
    by code_simp
  then show ?thesis using that by (auto split: sum.splits prod.splits)
qed

lemma demo_lookups_recorded:
  obtains w m where "lookups (recording mem_env) demo_keys ([], []) (mem_manager True) =
    Inr ([Some 0, Some 1, Some 0, Some 2], (w, [''d/shard-2/root-kind-17'', ''d/shard-3/root-kind-17'', ''d/index-2'']), m)"
proof -
  have "case lookups (recording mem_env) demo_keys ([], []) (mem_manager True) of
      Inl _ \<Rightarrow> False
    | Inr (hs, (w, l), m) \<Rightarrow> hs = [Some 0, Some 1, Some 0, Some 2]
        \<and> l = [''d/shard-2/root-kind-17'', ''d/shard-3/root-kind-17'', ''d/index-2'']"
    by code_simp
  then show ?thesis using that by (auto split: sum.splits prod.splits)
qed

section \<open>Properties of the routing\<close>

text \<open>
  C12. One database per route: in any sequence of lookups on a manager that starts with no open
  database, two keys are given the same database exactly when they have the same route, that is
  the same index, or the same shard, or, with a database per kind, the same shard and root kind;
  no two routes ever share one, whatever opens fail in between.
\<close>

theorem one_database_per_route:
  assumes "no_dbs m" "lookups E keys w m = Inr (hs, w', m')"
    and "i < length keys" "j < length keys" "hs ! i = Some h" "hs ! j = Some h'"
  shows "h = h' \<longleftrightarrow> route m (keys ! i) = route m (keys ! j)"
proof -
  obtain k where k: "route m (keys ! i) = Inr (Inr k)" "db_look m' k = Some h"
    using lookups_route [OF assms(2,3,5)] by blast
  obtain k' where k': "route m (keys ! j) = Inr (Inr k')" "db_look m' k' = Some h'"
    using lookups_route [OF assms(2,4,6)] by blast
  have "mgr.separate (w', m', [])"
    by (rule lookups_separate [OF assms(2) no_dbs_separate [OF assms(1)]])
  then show ?thesis
    using k k' mgr.separate_eq [of "(w', m', [])" k h k'] by (auto simp: mgr_look_def)
qed

theorem one_database_per_route_witness:
  "route (mem_manager True :: mem_db manager) (demo_key 2) \<noteq> route (mem_manager True :: mem_db manager) (demo_key 3)"
proof -
  obtain w m where l: "lookups mem_env demo_keys [] (mem_manager True) = Inr ([Some 0, Some 1, Some 0, Some 2], w, m)"
    by (rule demo_lookups)
  show ?thesis
    using one_database_per_route [OF no_dbs_mem l, of 0 1 0 1] by (simp add: demo_keys_def)
qed

text \<open>
  No directory is opened twice: over any sequence of lookups on a manager that starts with
  no open database, the opens that succeed are of distinct directories, as many as the manager
  has databases, and the database a key is given is the one of its route's directory.
\<close>

theorem directories_opened_once:
  assumes "no_dbs m" "lookups (recording E) keys (w, []) m = Inr (hs, (w', l), m')"
  shows "distinct l \<and> length l = length (dbs m') \<and>
    (\<forall>i < length keys. \<forall>h. hs ! i = Some h \<longrightarrow>
       (\<exists>k. route m (keys ! i) = Inr (Inr k) \<and> l ! h = db_dir (basedir m) k))"
proof -
  have inv: "log_inv l m'"
    by (rule lookups_log [OF assms(2) no_dbs_log [OF assms(1)]])
  have "basedir m' = basedir m"
    by (rule same_setup_basedir [OF lookups_setup [OF assms(2)]])
  then show ?thesis
    using log_invD [OF inv] lookups_route [OF assms(2)] by metis
qed

theorem directories_opened_once_witness:
  "distinct [''d/shard-2/root-kind-17'', ''d/shard-3/root-kind-17'', ''d/index-2''] \<and>
   (\<exists>k. route (mem_manager True :: mem_db manager) [0x10, 1, 2] = Inr (Inr k) \<and> ''d/index-2'' = db_dir ''d'' k)"
proof -
  obtain w m where l: "lookups (recording mem_env) demo_keys ([], []) (mem_manager True) =
    Inr ([Some 0, Some 1, Some 0, Some 2], (w, [''d/shard-2/root-kind-17'', ''d/shard-3/root-kind-17'', ''d/index-2'']), m)"
    by (rule demo_lookups_recorded)
  have b: "basedir (mem_manager True :: mem_db manager) = ''d''" by (simp add: mem_manager_def)
  have r: "demo_keys ! 3 = [0x10, 1, 2]" "3 < length demo_keys" by (simp_all add: demo_keys_def)
  show ?thesis
    using directories_opened_once [OF no_dbs_mem l, THEN conjunct1]
      directories_opened_once [OF no_dbs_mem l, THEN conjunct2, THEN conjunct2, rule_format, OF r(2), of 2]
    unfolding b r(1) by simp
qed

text \<open>
  A lookup gives a database exactly when it leaves the error string empty, and the database
  is one the manager owns: this is what the callers, which test the string and then go through
  the pointer, rely on.  The status of \<^verbatim>\<open>DB::Open\<close> is assumed to print as a string that is not
  empty.
\<close>

theorem handle_iff_no_error:
  assumes "\<forall>w opt dir. st_string (fst (db_open E w opt dir)) \<noteq> []"
    and "no_dbs m0" "lookups E keys w0 m0 = Inr (hs, w, m)"
    and "ndbForKey E key (w, m, []) = Inr (h, w', m', err)"
  shows "(h \<noteq> None \<longleftrightarrow> err = []) \<and> (case h of None \<Rightarrow> True | Some n \<Rightarrow> n < length (dbs m'))"
proof -
  have "owned m"
    by (rule separate_owned [OF lookups_separate [OF assms(3) no_dbs_separate [OF assms(2)]]])
  then show ?thesis
    using ndbForKey_handle [OF assms(1) _ assms(4)] by (cases h) auto
qed

theorem handle_iff_no_error_witness:
  "\<exists>w m. ndbForKey mem_env [0x10, 1, 2] ([], mem_manager True, []) = Inr (Some 0, w, m, []) \<and> 0 < length (dbs m)"
proof -
  have "case ndbForKey mem_env [0x10, 1, 2] ([], mem_manager True, []) of
      Inl _ \<Rightarrow> False | Inr (h, w, m, err) \<Rightarrow> h = Some 0"
    by code_simp
  then obtain w m err where n: "ndbForKey mem_env [0x10, 1, 2] ([], mem_manager True, []) = Inr (Some 0, w, m, err)"
    by (auto split: sum.splits prod.splits)
  have "\<forall>w opt dir. st_string (fst (db_open mem_env w opt dir)) \<noteq> []"
    by (simp add: mem_env_def st_OK_def)
  from handle_iff_no_error [OF this no_dbs_mem lookups.simps(1) n] n
  show ?thesis by simp
qed

text \<open>
  C29. Routing of the entity keys: a key of the documented layout goes to the data database of the
  shard in its first two bytes and the kind of its root chunk, if the shard is one of the
  \<^verbatim>\<open>shardRange_\<close> shards from \<^verbatim>\<open>shardMin_\<close> on (a sum that does not wrap); otherwise it is refused
  with a message that names the shard, and neither the world nor the manager changes.
\<close>

theorem entity_routing:
  assumes "d = D_ENTITY \<or> d = D_IDGEN" "\<forall>c \<in> set (c # rest). wf_chunk c"
    and "ck_body c = key_head d shard @ a" "unat shard < 4096"
  shows "ndbForKey E (key_bytes (c # rest)) (w, m, err) =
    Inr (if uint (shardMin m) \<le> uint shard \<and> uint shard < uint (shardMin m) + uint (shardRange m)
         then if dbPerKind m then perkindDb E shard (ck_kind c) (w, m, err) else shardDb E shard (w, m, err)
         else (None, w, m, ''ndbForKey: Invalid shard: '' @ to_string (uint shard)))"
proof -
  have "take_bit 12 shard = shard"
    using assms(4) by (auto intro: take_bit_self)
  note p = extractKeyParts_entity [OF assms(1-3) this]
  show ?thesis
    unfolding ndbForKey_def Let_def prod.case p res_bind_simps
    using assms(1) by (auto simp: shard_in_range_def dataDb_def bad_shard_msg_def)
qed

theorem entity_routing_witness:
  "ndbForKey mem_env (demo_key 9) ([], mem_manager True, []) =
   Inr (None, [], mem_manager True, ''ndbForKey: Invalid shard: 9'')"
proof -
  have "to_string (uint (9 :: u16)) = ''9''" by code_simp
  moreover have "wf_chunk \<lparr>ck_body = key_head D_ENTITY 9 @ [0, 0, 0, 9], ck_kind = 17, ck_tail = tail_byte 3 E_DATA\<rparr>"
    by (simp add: wf_chunk_def key_head_def)
  ultimately show ?thesis
    unfolding demo_key_def
    by (subst entity_routing [of D_ENTITY _ _ 9 "[0, 0, 0, 9]"]) (simp_all add: mem_manager_def)
qed

end
