(* ===== verification/Handler.thy ===== *)
theory Handler
  imports Manager Store QueryResults
begin

text \<open>
  \<^verbatim>\<open>ReqHandler::handle\<close> of \<^verbatim>\<open>conn.cc\<close>: a request \<^verbatim>\<open>[id, method, params]\<close> is decoded, dispatched on
  the letter of its method and answered with \<^verbatim>\<open>[id, error, result]\<close>.  The codec is not under
  \<^verbatim>\<open>src/\<close>: its decoder and encoder are parameters; of its values the code uses the tag, the
  union members named here and their arrays.  Reading a member that is not the one the tag names
  is a fault, as is an index outside an array.
\<close>

section \<open>Values\<close>

datatype codec_value =
    VNil
  | VBool bool
  | VPosInt u64
  | VBytes bytes
  | VString bytes
  | VArray "codec_value list"
  | VOther

text \<open>
  The response refers to memory of different owners.  \<open>OIn\<close> is a part of the request; a byte
  string carries whether what it points to has been freed or overwritten since.
\<close>

datatype out_value =
    OIn codec_value
  | ONil
  | OPosInt u64
  | OString bytes
  | OBytes bool bytes
  | OArray "out_value list"

fun dangling :: "out_value \<Rightarrow> bool" where
  "dangling (OBytes freed b) = freed"
| "dangling (OArray vs) = list_ex dangling vs"
| "dangling _ = False"

fun plain :: "out_value \<Rightarrow> codec_value" where
  "plain (OIn v) = v"
| "plain ONil = VNil"
| "plain (OPosInt n) = VPosInt n"
| "plain (OString s) = VString s"
| "plain (OBytes freed b) = VBytes b"
| "plain (OArray vs) = VArray (map plain vs)"

definition bytes_of :: "string \<Rightarrow> bytes" where
  "bytes_of s = map of_char s"

text \<open>\<^verbatim>\<open>to_codec_value(serr, out1)\<close>: nothing for the empty string.\<close>

definition to_codec_value :: "string \<Rightarrow> out_value option" where
  "to_codec_value serr = (if serr = [] then None else Some (OString (bytes_of serr)))"

text \<open>Reads of the union members.\<close>

definition arr :: "codec_value \<Rightarrow> codec_value list res" where
  "arr v = (case v of VArray vs \<Rightarrow> Inr vs | _ \<Rightarrow> Inl BadUnion)"

definition bytes_member :: "codec_value \<Rightarrow> bytes res" where
  "bytes_member v = (case v of VBytes b \<Rightarrow> Inr b | _ \<Rightarrow> Inl BadUnion)"

definition uint_member :: "codec_value \<Rightarrow> u64 res" where
  "uint_member v = (case v of VPosInt n \<Rightarrow> Inr n | _ \<Rightarrow> Inl BadUnion)"

definition bool_member :: "codec_value \<Rightarrow> bool res" where
  "bool_member v = (case v of VBool b \<Rightarrow> Inr b | _ \<Rightarrow> Inl BadUnion)"

fun res_map :: "('a \<Rightarrow> 'b res) \<Rightarrow> 'a list \<Rightarrow> 'b list res" where
  "res_map f [] = Inr []"
| "res_map f (x # xs) = res_bind (f x) (\<lambda>y. res_bind (res_map f xs) (\<lambda>ys. Inr (y # ys)))"

section \<open>The server's parts\<close>

text \<open>
  \<open>sv_order\<close> is the order in which an \<^verbatim>\<open>unordered_map\<close> with the given keys is walked, \<open>sv_junk\<close>
  what an uninitialised \<^verbatim>\<open>uint64_t\<close> holds.
\<close>

record ('w, 'd, 'it, 'o) server =
  sv_env :: "('w, 'd) env"
  sv_rocks :: "('d, 'it) rocksdb"
  sv_codec64 :: codec64
  sv_decode :: "bytes \<Rightarrow> codec_value \<times> string option"
  sv_encode :: "codec_value \<Rightarrow> 'o \<Rightarrow> 'o \<times> string option"
  sv_order :: "nat option list \<Rightarrow> nat option list"
  sv_junk :: u64

text \<open>The database behind a pointer.\<close>

definition db_at :: "'d manager \<Rightarrow> nat option \<Rightarrow> 'd res" where
  "db_at m h = (case h of
      None \<Rightarrow> Inl NullDeref
    | Some n \<Rightarrow> if n < length (dbs m) then Inr (dbs m ! n) else Inl StaleDb)"

definition put_db :: "nat option \<Rightarrow> 'd \<Rightarrow> 'd manager \<Rightarrow> 'd manager" where
  "put_db h d m = (case h of None \<Rightarrow> m | Some n \<Rightarrow> m\<lparr>dbs := (dbs m)[n := d]\<rparr>)"

text \<open>\<^verbatim>\<open>dbBatchUpdateT\<close> and the map \<^verbatim>\<open>db2BatchUpdateT\<close>; the pointer \<^verbatim>\<open>getT\<close> gives is an index.\<close>

record dbBatchUpdateT =
  putkeys :: "bytes list"
  putvalues :: "bytes list"
  delkeys :: "bytes list"

type_synonym db2BatchUpdateT = "(nat option \<times> dbBatchUpdateT) list"

definition empty_batch :: dbBatchUpdateT where
  "empty_batch = \<lparr>putkeys = [], putvalues = [], delkeys = []\<rparr>"

fun find_batch :: "db2BatchUpdateT \<Rightarrow> nat option \<Rightarrow> nat option" where
  "find_batch [] n = None"
| "find_batch (e # es) n = (if fst e = n then Some 0 else map_option Suc (find_batch es n))"

definition getT :: "nat option \<Rightarrow> db2BatchUpdateT \<Rightarrow> nat option \<times> db2BatchUpdateT" where
  "getT n m = (case find_batch m n of
      None \<Rightarrow> (Some (length m), m @ [(n, empty_batch)])
    | Some raw \<Rightarrow> (Some raw, m))"

definition with_batch :: "nat option \<Rightarrow> (dbBatchUpdateT \<Rightarrow> dbBatchUpdateT) \<Rightarrow> db2BatchUpdateT \<Rightarrow> db2BatchUpdateT" where
  "with_batch h f bts =
     (let (raw, bts) = getT h bts
      in case raw of None \<Rightarrow> bts | Some i \<Rightarrow> bts[i := (fst (bts ! i), f (snd (bts ! i)))])"

text \<open>\<^verbatim>\<open>dbAndIterGuard::getIter\<close>.\<close>

definition getIter :: "('d, 'it, 'z) rocksdb_scheme \<Rightarrow> 'd manager \<Rightarrow> nat option \<Rightarrow> (nat option \<rightharpoonup> 'it) \<Rightarrow>
    ('it \<times> (nat option \<rightharpoonup> 'it)) res" where
  "getIter R m n its = (case its n of
      Some it \<Rightarrow> Inr (it, its)
    | None \<Rightarrow> res_bind (db_at m n) (\<lambda>d.
        let it = db_new_iterator R d in Inr (it, its(n \<mapsto> it))))"

section \<open>The commands\<close>

text \<open>Error and result of the response, and the state after the command.\<close>

type_synonym ('w, 'd) reply = "out_value \<times> out_value \<times> 'w \<times> 'd manager"

definition handle_N :: "('w, 'd, 'it, 'o) server \<Rightarrow> codec_value list \<Rightarrow> 'w \<Rightarrow> 'd manager \<Rightarrow> ('w, 'd) reply res" where
  "handle_N S params w m =
     (case params of
        VBytes key # VBool incr # VPosInt delta # VPosInt initVal # _ \<Rightarrow>
          res_bind (ndbForKey (sv_env S) key (w, m, [])) (\<lambda>(h, w, m, serr).
          case to_codec_value serr of
            Some e \<Rightarrow> Inr (e, ONil, w, m)
          | None \<Rightarrow>
              res_bind (db_at m h) (\<lambda>d.
              let (d, nextval, serr) = Ndb_incrdecr (sv_codec64 S) (sv_rocks S) d key incr
                    (ucast delta) (ucast initVal) (sv_junk S, serr);
                  m = put_db h d m
              in case to_codec_value serr of
                   Some e \<Rightarrow> Inr (e, ONil, w, m)
                 | None \<Rightarrow> Inr (ONil, OPosInt nextval, w, m)))
      | _ \<Rightarrow> Inr (OString (bytes_of ''Invalid input''), ONil, w, m))"

text \<open>
  The loop of \<^verbatim>\<open>'G'\<close>: the values read are put in \<open>cx\<close> (a value that is empty leaves its place as
  it was), the first error ends the loop.
\<close>

fun get_loop :: "('w, 'd, 'it, 'o) server \<Rightarrow> bytes list \<Rightarrow> out_value option list \<Rightarrow> 'w \<Rightarrow> 'd manager \<Rightarrow>
    (out_value \<times> out_value option list \<times> 'w \<times> 'd manager) res" where
  "get_loop S [] cx w m = Inr (ONil, cx, w, m)"
| "get_loop S (key # keys) cx w m =
     res_bind (ndbForKey (sv_env S) key (w, m, [])) (\<lambda>(h, w, m, serr).
     case to_codec_value serr of
       Some e \<Rightarrow> Inr (e, cx, w, m)
     | None \<Rightarrow>
         res_bind (db_at m h) (\<lambda>d.
         let (sv, serr) = Ndb_get (sv_rocks S) d key ([], serr)
         in case to_codec_value serr of
              Some e \<Rightarrow> Inr (e, cx, w, m)
            | None \<Rightarrow> get_loop S keys (cx @ [if sv = [] then None else Some (OString sv)]) w m))"

text \<open>
  The branch of \<^verbatim>\<open>'G'\<close> that the constant \<^verbatim>\<open>GET_VIA_ITER\<close> turns off.  A value found is stored
  through the pointer \<^verbatim>\<open>sv\<close>, which nothing was stored in.
\<close>

definition GET_VIA_ITER :: bool where
  "GET_VIA_ITER = False"

fun get_iter_loop :: "('w, 'd, 'it, 'o) server \<Rightarrow> bytes list \<Rightarrow> (nat option \<rightharpoonup> 'it) \<Rightarrow> 'w \<Rightarrow> 'd manager \<Rightarrow>
    (out_value \<times> out_value option list \<times> 'w \<times> 'd manager) res" where
  "get_iter_loop S [] its w m = Inr (ONil, [], w, m)"
| "get_iter_loop S (key # keys) its w m =
     res_bind (ndbForKey (sv_env S) key (w, m, [])) (\<lambda>(h, w, m, serr).
     case to_codec_value serr of
       Some e \<Rightarrow> Inr (e, [], w, m)
     | None \<Rightarrow>
         res_bind (getIter (sv_rocks S) m h its) (\<lambda>(it, its).
         let (it, sv, serr) = Ndb_getViaIter (sv_rocks S) it key ([], serr)
         in case to_codec_value serr of
              Some e \<Rightarrow> Inr (e, [], w, m)
            | None \<Rightarrow> Inl Uninit))"

text \<open>\<^verbatim>\<open>cx\<close> is never stored in the response.\<close>

definition handle_G :: "('w, 'd, 'it, 'o) server \<Rightarrow> codec_value list \<Rightarrow> 'w \<Rightarrow> 'd manager \<Rightarrow> ('w, 'd) reply res" where
  "handle_G S params w m =
     res_bind (rd params 0) (\<lambda>p0.
     res_bind (arr p0) (\<lambda>vs.
     res_bind (res_map bytes_member vs) (\<lambda>keys.
     res_bind (if GET_VIA_ITER then get_iter_loop S keys Map.empty w m else get_loop S keys [] w m)
       (\<lambda>(e, cx, w, m). Inr (e, ONil, w, m)))))"

text \<open>
  The slices a query calls back lie in the memory of its iterator, which moves on after the call
  and is gone when the query returns; \<^verbatim>\<open>sls\<close> keeps the slices and not their bytes.
\<close>

definition query_reply :: "bytes list \<Rightarrow> out_value" where
  "query_reply sls = OArray (map (OBytes True) sls)"

text \<open>
  The parameters are read and the database found; then the query runs, which may not return.
\<close>

definition handle_Q_query ::
    "('w, 'd, 'it, 'o) server \<Rightarrow> codec_value list \<Rightarrow> 'w \<Rightarrow> 'd manager \<Rightarrow>
     (out_value \<times> 'w \<times> 'd manager + 'w \<times> 'd manager \<times> (bytes list \<times> string) res option) res" where
  "handle_Q_query S params w m =
       res_bind (res_bind (rd params 0) bytes_member) (\<lambda>seekpos1.
       res_bind (res_bind (rd params 1) bytes_member) (\<lambda>seekpos2.
       res_bind (res_bind (rd params 2) uint_member) (\<lambda>kindid.
       res_bind (res_bind (rd params 3) uint_member) (\<lambda>shapeid.
       res_bind (res_bind (rd params 4) bool_member) (\<lambda>ancestorOnly.
       res_bind (res_bind (rd params 5) bool_member) (\<lambda>withCursor.
       res_bind (res_bind (rd params 6) uint_member) (\<lambda>lastFilterOp.
       res_bind (res_bind (rd params 7) uint_member) (\<lambda>offset.
       res_bind (res_bind (rd params 8) uint_member) (\<lambda>limit.
       res_bind (ndbForKey (sv_env S) seekpos1 (w, m, [])) (\<lambda>(h, w, m, serr).
       case to_codec_value serr of
         Some e \<Rightarrow> Inr (Inl (e, w, m))
       | None \<Rightarrow>
           res_bind (db_at m h) (\<lambda>d.
           Inr (Inr (w, m, Ndb_query (sv_rocks S) d seekpos1 seekpos2 (ucast kindid) (ucast shapeid)
             ancestorOnly withCursor (ucast lastFilterOp) (unat offset) (unat limit)
             (\<lambda>sl sls. sls @ [sl]) [] serr)))))))))))))"

definition handle_Q ::
    "('w, 'd, 'it, 'o) server \<Rightarrow> codec_value list \<Rightarrow> 'w \<Rightarrow> 'd manager \<Rightarrow> ('w, 'd) reply res option" where
  "handle_Q S params w m =
     (case handle_Q_query S params w m of
        Inl f \<Rightarrow> Some (Inl f)
      | Inr (Inl (e, w, m)) \<Rightarrow> Some (Inr (e, ONil, w, m))
      | Inr (Inr (w, m, q)) \<Rightarrow>
          map_option (\<lambda>r. res_bind r (\<lambda>(sls, serr).
            Inr (case to_codec_value serr of
                   Some e \<Rightarrow> (e, ONil, w, m)
                 | None \<Rightarrow> (ONil, query_reply sls, w, m)))) q)"

text \<open>The puts come as one list of keys and values in turn.\<close>

fun put_loop :: "('w, 'd) env \<Rightarrow> codec_value list \<Rightarrow> db2BatchUpdateT \<Rightarrow> 'w \<Rightarrow> 'd manager \<Rightarrow>
    (out_value \<times> db2BatchUpdateT \<times> 'w \<times> 'd manager) res" where
  "put_loop E [] bts w m = Inr (ONil, bts, w, m)"
| "put_loop E [k] bts w m = res_bind (bytes_member k) (\<lambda>_. Inl OobRead)"
| "put_loop E (k # v # lx) bts w m =
     res_bind (bytes_member k) (\<lambda>sl.
     res_bind (bytes_member v) (\<lambda>sl2.
     res_bind (ndbForKey E sl (w, m, [])) (\<lambda>(h, w, m, serr).
     case to_codec_value serr of
       Some e \<Rightarrow> Inr (e, bts, w, m)
     | None \<Rightarrow>
         put_loop E lx (with_batch h (\<lambda>b. b\<lparr>putkeys := putkeys b @ [sl], putvalues := putvalues b @ [sl2]\<rparr>) bts) w m)))"

fun del_loop :: "('w, 'd) env \<Rightarrow> codec_value list \<Rightarrow> db2BatchUpdateT \<Rightarrow> 'w \<Rightarrow> 'd manager \<Rightarrow>
    (out_value \<times> db2BatchUpdateT \<times> 'w \<times> 'd manager) res" where
  "del_loop E [] bts w m = Inr (ONil, bts, w, m)"
| "del_loop E (k # lx) bts w m =
     res_bind (bytes_member k) (\<lambda>sl.
     res_bind (ndbForKey E sl (w, m, [])) (\<lambda>(h, w, m, serr).
     case to_codec_value serr of
       Some e \<Rightarrow> Inr (e, bts, w, m)
     | None \<Rightarrow> del_loop E lx (with_batch h (\<lambda>b. b\<lparr>delkeys := delkeys b @ [sl]\<rparr>) bts) w m))"

fun write_loop :: "('d, 'it, 'z) rocksdb_scheme \<Rightarrow> db2BatchUpdateT \<Rightarrow> 'd manager \<Rightarrow>
    (out_value \<times> 'd manager) res" where
  "write_loop R [] m = Inr (ONil, m)"
| "write_loop R ((h, bt) # bts) m =
     res_bind (db_at m h) (\<lambda>d.
     res_bind (Ndb_update R d (putkeys bt) (putvalues bt) (delkeys bt) []) (\<lambda>(d, serr).
     case to_codec_value serr of
       Some e \<Rightarrow> Inr (e, put_db h d m)
     | None \<Rightarrow> write_loop R bts (put_db h d m)))"

definition in_order :: "(nat option list \<Rightarrow> nat option list) \<Rightarrow> db2BatchUpdateT \<Rightarrow> db2BatchUpdateT" where
  "in_order ord bts = map (\<lambda>h. (h, the (map_of bts h))) (ord (map fst bts))"

definition handle_U :: "('w, 'd, 'it, 'o) server \<Rightarrow> codec_value list \<Rightarrow> 'w \<Rightarrow> 'd manager \<Rightarrow> ('w, 'd) reply res" where
  "handle_U S params w m =
     res_bind (res_bind (rd params 0) arr) (\<lambda>puts.
     res_bind (put_loop (sv_env S) puts [] w m) (\<lambda>(out1, bts, w, m).
     if out1 \<noteq> ONil then Inr (out1, ONil, w, m)
     else
       res_bind (res_bind (rd params 1) arr) (\<lambda>dels.
       res_bind (del_loop (sv_env S) dels bts w m) (\<lambda>(out1, bts, w, m).
       if out1 \<noteq> ONil then Inr (out1, ONil, w, m)
       else
         res_bind (write_loop (sv_rocks S) (in_order (sv_order S) bts) m) (\<lambda>(out1, m).
         Inr (out1, ONil, w, m))))))"

text \<open>\<^verbatim>\<open>%x\<close> of a \<^verbatim>\<open>char\<close>: the sign-extended byte.\<close>

fun hex_digits :: "nat \<Rightarrow> string" where
  "hex_digits n =
     (let c = ''0123456789abcdef'' ! (n mod 16)
      in if n < 16 then [c] else hex_digits (n div 16) @ [c])"

declare hex_digits.simps [simp del]

definition bad_method_msg :: "u8 \<Rightarrow> string" where
  "bad_method_msg c = ''Invalid desc byte: 0x'' @ hex_digits (unat (scast c :: 32 word))"

definition handle_switch ::
    "('w, 'd, 'it, 'o) server \<Rightarrow> u8 \<Rightarrow> codec_value list \<Rightarrow> 'w \<Rightarrow> 'd manager \<Rightarrow> ('w, 'd) reply res option" where
  "handle_switch S c params w m =
     (if c = of_char CHR ''N'' then Some (handle_N S params w m)
      else if c = of_char CHR ''G'' then Some (handle_G S params w m)
      else if c = of_char CHR ''Q'' then handle_Q S params w m
      else if c = of_char CHR ''U'' then Some (handle_U S params w m)
      else Some (Inr (OString (bytes_of (bad_method_msg c)), ONil, w, m)))"

section \<open>ReqHandler::handle\<close>

definition method_msg :: string where
  "method_msg = ''Invalid type for second parameter. Must be single-char string''"

definition handle_encode ::
    "('w, 'd, 'it, 'o) server \<Rightarrow> codec_value \<Rightarrow> ('w, 'd) reply \<Rightarrow> 'o \<Rightarrow> ('o \<times> string option \<times> 'w \<times> 'd manager) res" where
  "handle_encode S rid r out =
     (let (out1, out2, w, m) = r; cvOut = OArray [OIn rid, out1, out2]
      in if dangling cvOut then Inl UseAfterFree
         else let (out, err) = sv_encode S (plain cvOut) out in Inr (out, err, w, m))"

definition ReqHandler_handle ::
    "('w, 'd, 'it, 'o) server \<Rightarrow> bytes \<Rightarrow> 'o \<Rightarrow> 'w \<Rightarrow> 'd manager \<Rightarrow>
     ('o \<times> string option \<times> 'w \<times> 'd manager) res option" where
  "ReqHandler_handle S inp out w m =
     (let (cvIn, err) = sv_decode S inp in
      case err of
        Some e \<Rightarrow> Some (Inr (out, Some e, w, m))
      | None \<Rightarrow>
          (case res_bind (arr cvIn) (\<lambda>req. res_bind (rd req 0) (\<lambda>rid. res_bind (rd req 1) (\<lambda>meth.
                  Inr (req, rid, meth)))) of
             Inl f \<Rightarrow> Some (Inl f)
           | Inr (req, rid, VString [c]) \<Rightarrow>
               (case res_bind (rd req 2) arr of
                  Inl f \<Rightarrow> Some (Inl f)
                | Inr params \<Rightarrow>
                    map_option (\<lambda>r. res_bind r (\<lambda>r. handle_encode S rid r out)) (handle_switch S c params w m))
           | Inr _ \<Rightarrow> Some (Inr (out, Some method_msg, w, m))))"

section \<open>The batches of an update\<close>

lemma find_batch_None: "find_batch bts h = None \<longleftrightarrow> h \<notin> fst ` set bts"
  by (induction bts) auto

lemma find_batch_Some:
  "find_batch bts h = Some i \<Longrightarrow> i < length bts \<and> fst (bts ! i) = h \<and> map_of bts h = Some (snd (bts ! i))"
  by (induction bts arbitrary: i) (auto split: if_splits)

lemma find_batch_append:
  "find_batch (bts @ [(h, b)]) h' =
     (case find_batch bts h' of Some i \<Rightarrow> Some i | None \<Rightarrow> if h = h' then Some (length bts) else None)"
  by (induction bts) (auto split: option.split)

lemma find_batch_bound: "find_batch bts h = Some i \<Longrightarrow> i < length bts"
  by (simp add: find_batch_Some)

text \<open>\<^verbatim>\<open>getT\<close> is another find-or-create map: a handle gets one batch, and keeps it.\<close>

interpretation batches: fresh_entries find_batch getT "\<lambda>bts. {..<length bts}"
  by unfold_locales
     (auto simp: getT_def find_batch_append fun_eq_iff split: option.splits)

text \<open>The batch a handle has, empty when it has none.\<close>

definition batch_of :: "db2BatchUpdateT \<Rightarrow> nat option \<Rightarrow> dbBatchUpdateT" where
  "batch_of bts h = (case map_of bts h of None \<Rightarrow> empty_batch | Some b \<Rightarrow> b)"

lemma map_of_update:
  "distinct (map fst bts) \<Longrightarrow> i < length bts \<Longrightarrow>
   map_of (bts[i := (fst (bts ! i), b)]) = (map_of bts)(fst (bts ! i) \<mapsto> b)"
proof (induction bts arbitrary: i)
  case (Cons e bts)
  show ?case
  proof (cases i)
    case (Suc j)
    then have "fst (bts ! j) \<in> fst ` set bts"
      using Cons.prems(2) by (intro imageI nth_mem) simp
    then have "fst (bts ! j) \<noteq> fst e"
      using Cons.prems(1) by (metis distinct.simps(2) list.set_map list.simps(9))
    then show ?thesis using Cons Suc by (auto simp: fun_eq_iff)
  qed (simp add: fun_eq_iff)
qed simp

lemma with_batch:
  assumes "distinct (map fst bts)"
  shows "distinct (map fst (with_batch h f bts))" (is ?D)
    and "set (map fst (with_batch h f bts)) = insert h (set (map fst bts))" (is ?S)
    and "batch_of (with_batch h f bts) = (batch_of bts)(h := f (batch_of bts h))" (is ?B)
proof -
  have "?D \<and> ?S \<and> ?B"
  proof (cases "find_batch bts h")
    case None
    then have n: "h \<notin> set (map fst bts)" by (simp add: find_batch_None)
    then have "with_batch h f bts = bts @ [(h, f empty_batch)]"
      using None by (simp add: with_batch_def getT_def list_update_append)
    moreover have "map_of bts h = None" using n by (simp add: map_of_eq_None_iff)
    ultimately show ?thesis
      using assms n by (auto simp: batch_of_def fun_eq_iff map_add_def split: option.split)
  next
    case (Some i)
    note i = find_batch_Some [OF this]
    then have w: "with_batch h f bts = bts[i := (fst (bts ! i), f (batch_of bts h))]"
      using Some by (simp add: with_batch_def getT_def batch_of_def)
    have "map fst (with_batch h f bts) = map fst bts"
      using i list_update_id [of "map fst bts" i] by (simp add: w map_update)
    moreover have "h \<in> set (map fst bts)"
      using i nth_mem [of i bts] by (metis image_eqI list.set_map)
    moreover have ?B
      using i map_of_update [OF assms, of i "f (batch_of bts h)"]
      by (simp add: w batch_of_def fun_eq_iff)
    ultimately show ?thesis
      using assms by (metis insert_absorb)
  qed
  then show ?D ?S ?B by simp_all
qed

section \<open>The loops of an update\<close>

lemma ndbForKey_no_error: "ndbForKey E key (w, m, []) = Inr (Some n, w', m', err) \<Longrightarrow> err = []"
proof -
  assume a: "ndbForKey E key (w, m, []) = Inr (Some n, w', m', err)"
  then obtain r where r: "route m key = Inr r"
    by (auto simp: ndbForKey_route res_bind_Inr_iff)
  show ?thesis
  proof (cases r)
    case (Inr k)
    then have "db_fetch E k (w, m, []) = (Some n, w', m', err)"
      using a r by (simp add: ndbForKey_route)
    then show ?thesis
      by (cases rule: db_fetch_cases) (auto dest: db_made_err db_failedD)
  qed (use a r in \<open>simp add: ndbForKey_route\<close>)
qed

lemma to_codec_value_Nil [simp]: "to_codec_value [] = None"
  by (simp add: to_codec_value_def)

definition put_request :: "(bytes \<times> bytes) list \<Rightarrow> codec_value list" where
  "put_request kvs = concat (map (\<lambda>(k, v). [VBytes k, VBytes v]) kvs)"

definition add_put :: "bytes \<times> bytes \<Rightarrow> dbBatchUpdateT \<Rightarrow> dbBatchUpdateT" where
  "add_put kv b = b\<lparr>putkeys := putkeys b @ [fst kv], putvalues := putvalues b @ [snd kv]\<rparr>"

definition add_del :: "bytes \<Rightarrow> dbBatchUpdateT \<Rightarrow> dbBatchUpdateT" where
  "add_del k b = b\<lparr>delkeys := delkeys b @ [k]\<rparr>"

lemma put_loop_run:
  "lookups E (map fst kvs) w m = Inr (map Some hs, w', m') \<Longrightarrow>
   put_loop E (put_request kvs) bts w m =
     Inr (ONil, fold (\<lambda>(kv, h). with_batch (Some h) (add_put kv)) (zip kvs hs) bts, w', m')"
proof (induction kvs arbitrary: hs w m bts)
  case (Cons kv kvs)
  obtain k v where kv: "kv = (k, v)" by (cases kv)
  from Cons.prems have "lookups E (k # map fst kvs) w m = Inr (map Some hs, w', m')" by (simp add: kv)
  then show ?case
  proof (rule lookups_ConsE)
    fix h w1 m1 err1 hs1
    assume 1: "ndbForKey E k (w, m, []) = Inr (h, w1, m1, err1)"
      "lookups E (map fst kvs) w1 m1 = Inr (hs1, w', m')" "map Some hs = h # hs1"
    obtain n hs2 where hs: "hs = n # hs2" "h = Some n" "hs1 = map Some hs2"
      using 1(3) by (cases hs) auto
    have step: "ndbForKey E k (w, m, []) = Inr (Some n, w1, m1, [])"
      using 1(1) ndbForKey_no_error [of E k w m n w1 m1 err1] hs(2) by simp
    have "put_loop E (put_request (kv # kvs)) bts w m =
        put_loop E (put_request kvs) (with_batch (Some n) (add_put kv) bts) w1 m1"
      by (simp add: put_request_def kv step bytes_member_def add_put_def [abs_def])
    also have "\<dots> = Inr (ONil, fold (\<lambda>(kv, h). with_batch (Some h) (add_put kv)) (zip kvs hs2)
        (with_batch (Some n) (add_put kv) bts), w', m')"
      by (rule Cons.IH) (use 1(2) hs(3) in simp)
    finally show ?thesis by (simp add: hs(1))
  qed
qed (simp add: put_request_def)

lemma del_loop_run:
  "lookups E dks w m = Inr (map Some hs, w', m') \<Longrightarrow>
   del_loop E (map VBytes dks) bts w m =
     Inr (ONil, fold (\<lambda>(k, h). with_batch (Some h) (add_del k)) (zip dks hs) bts, w', m')"
proof (induction dks arbitrary: hs w m bts)
  case (Cons k dks)
  from Cons.prems show ?case
  proof (rule lookups_ConsE)
    fix h w1 m1 err1 hs1
    assume 1: "ndbForKey E k (w, m, []) = Inr (h, w1, m1, err1)"
      "lookups E dks w1 m1 = Inr (hs1, w', m')" "map Some hs = h # hs1"
    obtain n hs2 where hs: "hs = n # hs2" "h = Some n" "hs1 = map Some hs2"
      using 1(3) by (cases hs) auto
    have step: "ndbForKey E k (w, m, []) = Inr (Some n, w1, m1, [])"
      using 1(1) ndbForKey_no_error [of E k w m n w1 m1 err1] hs(2) by simp
    have "del_loop E (map VBytes (k # dks)) bts w m =
        del_loop E (map VBytes dks) (with_batch (Some n) (add_del k) bts) w1 m1"
      by (simp add: step bytes_member_def add_del_def [abs_def])
    also have "\<dots> = Inr (ONil, fold (\<lambda>(k, h). with_batch (Some h) (add_del k)) (zip dks hs2)
        (with_batch (Some n) (add_del k) bts), w', m')"
      by (rule Cons.IH) (use 1(2) hs(3) in simp)
    finally show ?thesis by (simp add: hs(1))
  qed
qed simp

text \<open>What the loops leave in the batch of one handle: the puts and deletes routed to it, in order.\<close>

definition routed :: "('a \<times> nat) list \<Rightarrow> nat \<Rightarrow> 'a list" where
  "routed xs n = map fst (filter (\<lambda>x. snd x = n) xs)"

lemma routed_Nil [simp]: "routed [] n = []"
  by (simp add: routed_def)

lemma routed_Cons [simp]: "routed (x # xs) n = (if snd x = n then fst x # routed xs n else routed xs n)"
  by (simp add: routed_def)

lemma fold_with_batch:
  assumes "distinct (map fst bts)"
  shows "distinct (map fst (fold (\<lambda>(x, h). with_batch (Some h) (f x)) xs bts))"
    and "set (map fst (fold (\<lambda>(x, h). with_batch (Some h) (f x)) xs bts)) =
      set (map fst bts) \<union> Some ` set (map snd xs)"
    and "batch_of (fold (\<lambda>(x, h). with_batch (Some h) (f x)) xs bts) (Some n) =
      fold f (routed xs n) (batch_of bts (Some n))"
  using assms
proof (induction xs arbitrary: bts)
  case (Cons x xs)
  obtain a h where x: "x = (a, h)" by (cases x)
  { case 1
    show ?case by (simp add: x) (rule Cons.IH(1) [OF with_batch(1) [OF 1]])
  next
    case 2
    show ?case using Cons.IH(2) [OF with_batch(1) [OF 2]] with_batch(2) [OF 2, of "Some h" "f a"] by (simp add: x)
  next
    case 3
    show ?case using Cons.IH(3) [OF with_batch(1) [OF 3]] with_batch(3) [OF 3, of "Some h" "f a"] by (simp add: x) }
qed simp_all

lemma fold_add_put: "fold add_put kvs b =
   b\<lparr>putkeys := putkeys b @ map fst kvs, putvalues := putvalues b @ map snd kvs\<rparr>"
  by (induction kvs arbitrary: b) (simp_all add: add_put_def)

lemma fold_add_del: "fold add_del ks b = b\<lparr>delkeys := delkeys b @ ks\<rparr>"
  by (induction ks arbitrary: b) (simp_all add: add_del_def)

definition batch_ops :: "dbBatchUpdateT \<Rightarrow> batch_op list" where
  "batch_ops b = map (\<lambda>(k, v). Put k v) (zip (putkeys b) (putvalues b)) @ map Delete (delkeys b)"

definition writes_succeed :: "('d, 'it, 'z) rocksdb_scheme \<Rightarrow> bool" where
  "writes_succeed R \<longleftrightarrow> (\<forall>d b. st_ok (fst (db_write R d b)))"

text \<open>An \<^verbatim>\<open>unordered_map\<close> is walked in some order, every key once.\<close>

definition order_laws :: "(nat option list \<Rightarrow> nat option list) \<Rightarrow> bool" where
  "order_laws ord \<longleftrightarrow> (\<forall>xs. distinct xs \<longrightarrow> distinct (ord xs) \<and> set (ord xs) = set xs)"

lemma in_order_map_of:
  assumes "order_laws ord" "distinct (map fst bts)"
  shows "map_of (in_order ord bts) = map_of bts" "distinct (map fst (in_order ord bts))"
    "set (map fst (in_order ord bts)) = set (map fst bts)"
proof -
  have o: "distinct (ord (map fst bts))" "set (ord (map fst bts)) = fst ` set bts"
    using assms by (auto simp: order_laws_def)
  show "distinct (map fst (in_order ord bts))" "set (map fst (in_order ord bts)) = set (map fst bts)"
    using o by (simp_all add: in_order_def comp_def)
  have m: "map_of (map (\<lambda>h. (h, f h)) hs) h = (if h \<in> set hs then Some (f h) else None)" for hs f and h :: "nat option"
    by (induction hs) auto
  show "map_of (in_order ord bts) = map_of bts"
  proof
    fix h
    show "map_of (in_order ord bts) h = map_of bts h"
      using o(2) map_of_eq_None_iff [of bts h]
      by (cases "map_of bts h") (simp_all add: in_order_def m)
  qed
qed

definition written :: "('d, 'it, 'z) rocksdb_scheme \<Rightarrow> (nat option \<rightharpoonup> dbBatchUpdateT) \<Rightarrow> 'd list \<Rightarrow> 'd list" where
  "written R f ds = map (\<lambda>n. case f (Some n) of
       None \<Rightarrow> ds ! n | Some b \<Rightarrow> snd (db_write R (ds ! n) (batch_ops b))) [0..<length ds]"

lemma length_written: "length (written R f ds) = length ds"
  by (simp add: written_def)

lemma Ndb_update_ok:
  assumes "writes_succeed R" "length (putkeys b) = length (putvalues b)"
  shows "Ndb_update R d (putkeys b) (putvalues b) (delkeys b) [] = Inr (snd (db_write R d (batch_ops b)), [])"
  using assms(1) by (simp add: Ndb_update_def put_ops_zip assms(2) writes_succeed_def batch_ops_def split_beta)

lemma write_loop_run:
  assumes "writes_succeed R" "distinct (map fst bts)"
    and "\<And>h. h \<in> set (map fst bts) \<Longrightarrow> \<exists>n < length (dbs m). h = Some n"
    and "\<And>h b. (h, b) \<in> set bts \<Longrightarrow> length (putkeys b) = length (putvalues b)"
  shows "write_loop R bts m = Inr (ONil, m\<lparr>dbs := written R (map_of bts) (dbs m)\<rparr>)"
  using assms
proof (induction bts arbitrary: m)
  case Nil
  have "written R Map.empty (dbs m) = dbs m"
    by (simp add: written_def map_nth)
  then show ?case by simp
next
  case (Cons e bts)
  obtain n b where e: "e = (Some n, b)" "n < length (dbs m)"
    using Cons.prems(3) [of "fst e"] by (cases e) auto
  let ?d = "snd (db_write R (dbs m ! n) (batch_ops b))"
  have "write_loop R (e # bts) m = write_loop R bts (m\<lparr>dbs := (dbs m)[n := ?d]\<rparr>)"
    using Cons.prems(4) [of "Some n" b] e
    by (simp add: db_at_def put_db_def Ndb_update_ok [OF assms(1)])
  also have "\<dots> = Inr (ONil, m\<lparr>dbs := written R (map_of bts) ((dbs m)[n := ?d])\<rparr>)"
    using Cons.IH [of "m\<lparr>dbs := (dbs m)[n := ?d]\<rparr>"] Cons.prems by fastforce
  also have "written R (map_of bts) ((dbs m)[n := ?d]) = written R (map_of (e # bts)) (dbs m)"
  proof -
    have "map_of bts (Some n) = None"
      using Cons.prems(2) e(1) by (simp add: map_of_eq_None_iff)
    then show ?thesis
      using e by (auto simp: written_def nth_list_update split: option.split)
  qed
  finally show ?case .
qed

lemma batch_stored:
  assumes "db_laws R cont snap pos" "writes_succeed R"
  shows "map_of (cont (snd (db_write R d (batch_ops b)))) k =
    (if k \<in> set (delkeys b) then None
     else case map_of (rev (zip (putkeys b) (putvalues b))) k of
            Some v \<Rightarrow> Some v | None \<Rightarrow> map_of (cont d) k)"
  using db_lawsD(8) [OF assms(1), of d "batch_ops b"] assms(2)
  by (auto simp: writes_succeed_def batch_ops_def apply_batch_append apply_batch_puts
      apply_batch_deletes restrict_map_def map_add_def split: option.split)

lemma update_batches:
  assumes "length kvs = length ps" "length dks = length ds"
    and "bts = fold (\<lambda>(k, h). with_batch (Some h) (add_del k)) (zip dks ds)
           (fold (\<lambda>(kv, h). with_batch (Some h) (add_put kv)) (zip kvs ps) [])"
  shows "distinct (map fst bts)" "set (map fst bts) = Some ` (set ps \<union> set ds)"
    "batch_of bts (Some n) = \<lparr>putkeys = map fst (routed (zip kvs ps) n),
       putvalues = map snd (routed (zip kvs ps) n), delkeys = routed (zip dks ds) n\<rparr>"
proof -
  have d: "distinct (map fst ([] :: db2BatchUpdateT))" by simp
  note p = fold_with_batch [OF d, of add_put "zip kvs ps"]
  note q = fold_with_batch [OF p(1), of add_del "zip dks ds"]
  show "distinct (map fst bts)"
    using q(1) by (simp add: assms(3))
  show "set (map fst bts) = Some ` (set ps \<union> set ds)"
    using p(2) q(2) assms(1,2) by (simp add: assms(3) image_Un)
  show "batch_of bts (Some n) = \<lparr>putkeys = map fst (routed (zip kvs ps) n),
       putvalues = map snd (routed (zip kvs ps) n), delkeys = routed (zip dks ds) n\<rparr>"
    using q(3) [of n] by (simp add: assms(3) p(3) fold_add_put fold_add_del) (simp add: batch_of_def empty_batch_def)
qed

text \<open>A request \<^verbatim>\<open>[id, letter, params]\<close>.\<close>

definition request :: "codec_value \<Rightarrow> char \<Rightarrow> codec_value list \<Rightarrow> codec_value" where
  "request rid c params = VArray [rid, VString [of_char c], VArray params]"

definition respond ::
    "('w, 'd, 'it, 'o) server \<Rightarrow> codec_value \<Rightarrow> codec_value \<Rightarrow> codec_value \<Rightarrow> 'o \<Rightarrow> 'w \<Rightarrow> 'd manager \<Rightarrow>
     ('o \<times> string option \<times> 'w \<times> 'd manager)" where
  "respond S rid e r out w m = (let (out, err) = sv_encode S (VArray [rid, e, r]) out in (out, err, w, m))"

lemma handle_request:
  assumes "sv_decode S inp = (request rid c params, None)"
  shows "ReqHandler_handle S inp out w m =
    map_option (\<lambda>r. res_bind r (\<lambda>r. handle_encode S rid r out)) (handle_switch S (of_char c) params w m)"
  by (simp add: ReqHandler_handle_def assms request_def arr_def rd_def)

lemma handle_encode_plain:
  "\<not> dangling out1 \<Longrightarrow> \<not> dangling out2 \<Longrightarrow>
   handle_encode S rid (out1, out2, w, m) out = Inr (respond S rid (plain out1) (plain out2) out w m)"
  by (simp add: handle_encode_def respond_def split_beta)

lemma of_char_u8_inject: "(of_char c :: u8) = of_char d \<longleftrightarrow> c = d"
proof -
  have "unat (of_char e :: u8) = of_char e" for e :: char
    using nat_of_char_less_256 [of e] unat_of_nat [of "of_char e", where 'a = 8] by (simp add: of_nat_of_char)
  then show ?thesis by (metis of_char_eq_iff)
qed

lemma letters [simp]:
  "(of_char CHR ''G'' :: u8) \<noteq> of_char CHR ''N''" "(of_char CHR ''Q'' :: u8) \<noteq> of_char CHR ''N''"
  "(of_char CHR ''U'' :: u8) \<noteq> of_char CHR ''N''" "(of_char CHR ''Q'' :: u8) \<noteq> of_char CHR ''G''"
  "(of_char CHR ''U'' :: u8) \<noteq> of_char CHR ''G''" "(of_char CHR ''U'' :: u8) \<noteq> of_char CHR ''Q''"
  by simp_all

section \<open>Faults of a request\<close>

text \<open>Rules for the parts: which faults they have and what holds of their results.\<close>

named_theorems safe_rules \<open>faults and results of the parts of a request\<close>

abbreviation read_faults :: "fault set" where
  "read_faults \<equiv> {OobRead, BadUnion}"

lemma safe_members [safe_rules]:
  "safe read_faults (\<lambda>_. True) (arr v)" "safe read_faults (\<lambda>_. True) (bytes_member v)"
  "safe read_faults (\<lambda>_. True) (uint_member v)" "safe read_faults (\<lambda>_. True) (bool_member v)"
  by (simp_all add: arr_def bytes_member_def uint_member_def bool_member_def split: codec_value.split)

lemma safe_rd_any [safe_rules]: "safe read_faults (\<lambda>_. True) (rd b i)"
  by (simp add: rd_def)

lemma safe_res_map: "(\<And>x. safe F (\<lambda>_. True) (f x)) \<Longrightarrow> safe F (\<lambda>_. True) (res_map f xs)"
  by (induction xs) (auto intro!: safe_bind)

lemma index_scan_faults: "safe {OobRead} (\<lambda>_. True) (index_scan k j el)"
proof (induction k j el rule: index_scan.induct)
  case (1 k j el)
  then show ?case
    by (subst index_scan.simps) (auto simp: rd_def intro!: safe_bind)
qed

lemma ndbEntity_faults: "safe {OobRead} (\<lambda>_. True) (ndbEntityBytesFromSlice k kind shape)"
proof -
  have "safe {OobRead} (\<lambda>_. True) (entity_mismatch k kind shape)"
    by (auto simp: entity_mismatch_def Let_def rd_def)
  then show ?thesis
    by (auto simp: ndbEntityBytesFromSlice_def Let_def rd_def index_scan_faults
        intro!: safe_bind [OF index_scan_faults] safe_bind split: option.split Discriminator.split)
qed

lemma scan_test_faults: "scan_test p d k1 k = Inl f \<Longrightarrow> f = OobRead"
  by (auto simp: scan_test_def rd_def memcmp_def res_bind_Inl_iff split: if_splits)

lemma scan_faults:
  assumes "scan I p discrim k1 kind shape limit f it n s = Some r"
  shows "safe {OobRead} (\<lambda>_. True) r"
proof (rule scan.raw_induct [where P = "\<lambda>I p d k1 kind shape limit f it n s r. safe {OobRead} (\<lambda>_. True) r", OF _ assms],
    goal_cases)
  case (1 scan I p discrim k1 kind shape limit f it n s r)
  show ?case
    using 1(2) ndbEntity_faults [of "it_key I it" kind shape]
    by (auto simp: Let_def dest: scan_test_faults 1(1) split: if_splits sum.splits)
qed

lemma Ndb_query_faults:
  assumes "Ndb_query R d p1 p2 kind shape anc cur op off lim f s err = Some r"
  shows "safe {OobRead} (\<lambda>_. True) r"
proof -
  have fin: "safe {OobRead} (\<lambda>_. True) (res_bind x (\<lambda>x. Inr (query_finish R err x)))"
    if "safe {OobRead} (\<lambda>_. True) x" for x
    using that by (cases x) auto
  show ?thesis
    using assms
    by (auto simp: Ndb_query_def rd_def bind_eq_Some_conv intro!: fin dest!: scan_faults split: sum.splits if_splits)
qed

lemma Ndb_update_faults: "safe {OobRead} (\<lambda>_. True) (Ndb_update R d ks vs ds err)"
  by (simp add: Ndb_update_def put_ops_zip split_beta)

definition opens_report :: "('w, 'd) env \<Rightarrow> bool" where
  "opens_report E \<longleftrightarrow> (\<forall>w opt dir. st_string (fst (db_open E w opt dir)) \<noteq> [])"

definition reply_ok :: "('w, 'd) reply \<Rightarrow> bool" where
  "reply_ok = (\<lambda>(out1, out2, w, m). owned m \<and> \<not> dangling out1 \<and> \<not> dangling out2)"

lemma to_codec_value_plain: "to_codec_value e = Some v \<Longrightarrow> \<not> dangling v"
  by (auto simp: to_codec_value_def split: if_splits)

lemma handle_ok_D:
  assumes "handle_ok l (h, w, m, err)"
  shows "owned m" "l \<le> length (dbs m)" "to_codec_value err = None \<Longrightarrow> \<exists>n. h = Some n \<and> err = [] \<and> n < length (dbs m)"
  using assms by (auto simp: handle_ok_def to_codec_value_def split: option.splits if_splits)

lemma owned_put_db [simp]: "owned (put_db h d m) \<longleftrightarrow> owned m"
  by (simp add: owned_def put_db_def db_look_updates split: option.split)

lemma length_put_db [simp]: "length (dbs (put_db h d m)) = length (dbs m)"
  by (simp add: put_db_def split: option.split)

text \<open>
  The step all the commands share: find the database, answer its error, or go on with a handle
  that is one of the manager's.
\<close>

lemma safe_lookup:
  assumes "opens_report E" "owned m"
    and "\<And>e w m'. owned m' \<Longrightarrow> length (dbs m) \<le> length (dbs m') \<Longrightarrow> \<not> dangling e \<Longrightarrow>
      safe read_faults P (f e w m')"
    and "\<And>n w m'. owned m' \<Longrightarrow> length (dbs m) \<le> length (dbs m') \<Longrightarrow> n < length (dbs m') \<Longrightarrow>
      safe read_faults P (g (Some n) w m' [])"
  shows "safe read_faults P (res_bind (ndbForKey E key (w, m, [])) (\<lambda>(h, w, m, serr).
     case to_codec_value serr of Some e \<Rightarrow> f e w m | None \<Rightarrow> g h w m serr))"
proof (rule safe_bind [OF safe_ndbForKey], goal_cases)
  case (4 x)
  obtain h w m err where e: "x = (h, w, m, err)" by (metis prod_cases4)
  show ?case
    using handle_ok_D [OF 4 [unfolded e]] assms(3,4) to_codec_value_plain
    by (cases "to_codec_value err") (auto simp: e)
qed (use assms(1,2) in \<open>simp_all add: opens_report_def\<close>)

text \<open>What the loops keep.\<close>

definition loop_ok :: "out_value \<times> 'x \<times> 'w \<times> 'd manager \<Rightarrow> bool" where
  "loop_ok = (\<lambda>(e, x, w, m). owned m \<and> \<not> dangling e)"

lemma loop_ok_simps [simp]: "loop_ok (e, x, w, m) \<longleftrightarrow> owned m \<and> \<not> dangling e"
  by (simp add: loop_ok_def)

lemma reply_ok_simps [simp]: "reply_ok (e, r, w, m) \<longleftrightarrow> owned m \<and> \<not> dangling e \<and> \<not> dangling r"
  by (simp add: reply_ok_def)

lemma safe_N:
  assumes "opens_report (sv_env S)" "owned m"
  shows "safe read_faults reply_ok (handle_N S params w m)"
  unfolding handle_N_def
  by (auto intro!: safe_lookup assms
      simp: assms(2) db_at_def Let_def split_beta to_codec_value_plain
      split: list.split codec_value.split option.split)

lemma safe_get_loop:
  assumes "opens_report (sv_env S)" "owned m"
  shows "safe read_faults loop_ok (get_loop S keys cx w m)"
  using assms(2)
proof (induction keys arbitrary: cx w m)
  case (Cons key keys)
  show ?case
    unfolding get_loop.simps
    by (rule safe_lookup [OF assms(1) Cons.prems])
       (auto simp: db_at_def Let_def split_beta to_codec_value_plain Cons.IH split: option.split)
qed simp

lemma safe_G:
  assumes "opens_report (sv_env S)" "owned m"
  shows "safe read_faults reply_ok (handle_G S params w m)"
  unfolding handle_G_def GET_VIA_ITER_def if_False
  by (rule safe_bind [OF safe_rd_any], rule safe_bind [OF safe_members(1)],
      rule safe_bind [OF safe_res_map [OF safe_members(2)]], rule safe_bind [OF safe_get_loop [OF assms]])
     auto

text \<open>The handles the batches are for stay those of databases of the manager.\<close>

definition batches_ok :: "db2BatchUpdateT \<Rightarrow> nat \<Rightarrow> bool" where
  "batches_ok bts l \<longleftrightarrow> distinct (map fst bts) \<and> (\<forall>h \<in> set (map fst bts). \<exists>n < l. h = Some n)"

definition update_ok :: "out_value \<times> db2BatchUpdateT \<times> 'w \<times> 'd manager \<Rightarrow> bool" where
  "update_ok = (\<lambda>(e, bts, w, m). owned m \<and> \<not> dangling e \<and> batches_ok bts (length (dbs m)))"

lemma update_ok_simps [simp]:
  "update_ok (e, bts, w, m) \<longleftrightarrow> owned m \<and> \<not> dangling e \<and> batches_ok bts (length (dbs m))"
  by (simp add: update_ok_def)

lemma batches_ok_mono: "batches_ok bts l \<Longrightarrow> l \<le> l' \<Longrightarrow> batches_ok bts l'"
  unfolding batches_ok_def by (meson order.strict_trans2)

lemma batches_ok_with: "batches_ok bts l \<Longrightarrow> n < l \<Longrightarrow> batches_ok (with_batch (Some n) f bts) l"
  using with_batch(1,2) [of bts "Some n" f] by (auto simp: batches_ok_def)

lemma safe_put_loop:
  assumes "opens_report E" "owned m" "batches_ok bts (length (dbs m))"
  shows "safe read_faults update_ok (put_loop E lx bts w m)"
  using assms(2,3)
proof (induction lx arbitrary: bts w m rule: induct_list012)
  case (2 k)
  then show ?case
    by (auto intro!: safe_bind [OF safe_members(2)])
next
  case (3 k v lx)
  show ?case
    unfolding put_loop.simps
    by (rule safe_bind [OF safe_members(2)], rule safe_bind [OF safe_members(2)],
        rule safe_lookup [OF assms(1) "3.prems"(1)])
       (auto intro!: "3.IH" batches_ok_with intro: batches_ok_mono [OF "3.prems"(2)])
qed simp

lemma safe_del_loop:
  assumes "opens_report E" "owned m" "batches_ok bts (length (dbs m))"
  shows "safe read_faults update_ok (del_loop E lx bts w m)"
  using assms(2,3)
proof (induction lx arbitrary: bts w m)
  case (Cons k lx)
  show ?case
    unfolding del_loop.simps
    by (rule safe_bind [OF safe_members(2)], rule safe_lookup [OF assms(1) Cons.prems(1)])
       (auto intro!: Cons.IH batches_ok_with intro: batches_ok_mono [OF Cons.prems(2)])
qed simp

lemma safe_write_loop:
  assumes "owned m" "\<forall>h \<in> set (map fst bts). \<exists>n < length (dbs m). h = Some n"
  shows "safe read_faults (\<lambda>(e, m). owned m \<and> \<not> dangling e) (write_loop R bts m)"
  using assms
proof (induction bts arbitrary: m)
  case (Cons e bts)
  obtain n b where e: "e = (Some n, b)" "n < length (dbs m)"
    using Cons.prems(2) by (cases e) auto
  have u: "safe read_faults (\<lambda>_. True) (Ndb_update R d (putkeys b) (putvalues b) (delkeys b) [])" for d
    by (rule safe_mono [OF Ndb_update_faults]) auto
  have IH: "safe read_faults (\<lambda>(e, m). owned m \<and> \<not> dangling e) (write_loop R bts (put_db (Some n) d m))" for d
    by (rule Cons.IH) (use Cons.prems in auto)
  have at: "db_at m (Some n) = Inr (dbs m ! n)" using e(2) by (simp add: db_at_def)
  show ?case
    unfolding e(1) write_loop.simps at res_bind_simps
    by (rule safe_bind [OF u])
       (use Cons.prems(1) IH in \<open>auto simp: to_codec_value_plain split: option.split\<close>)
qed simp

lemma safe_U:
  assumes "opens_report (sv_env S)" "owned m" "order_laws (sv_order S)"
  shows "safe read_faults reply_ok (handle_U S params w m)"
proof -
  have arrs: "safe read_faults (\<lambda>_. True) (res_bind (rd params i) arr)" for i
    by (rule safe_bind [OF safe_rd_any safe_members(1)])
  have wr: "safe read_faults (\<lambda>(e, m). owned m \<and> \<not> dangling e)
      (write_loop (sv_rocks S) (in_order (sv_order S) bts) m')"
    if "owned m'" "batches_ok bts (length (dbs m'))" for bts m'
    using that in_order_map_of(3) [OF assms(3), of bts]
    by (intro safe_write_loop) (auto simp: batches_ok_def)
  have dels: "safe read_faults reply_ok
      (res_bind (write_loop (sv_rocks S) (in_order (sv_order S) bts) m') (\<lambda>(out1, m). Inr (out1, ONil, w', m)))"
    if "owned m'" "batches_ok bts (length (dbs m'))" for bts w' m'
    using that by (auto intro!: safe_bind [OF wr])
  have puts: "safe read_faults reply_ok (if e \<noteq> ONil then Inr (e, ONil, w', m') else
      res_bind (res_bind (rd params 1) arr) (\<lambda>ds. res_bind (del_loop (sv_env S) ds bts w' m')
        (\<lambda>(out1, bts, w, m). if out1 \<noteq> ONil then Inr (out1, ONil, w, m) else
          res_bind (write_loop (sv_rocks S) (in_order (sv_order S) bts) m) (\<lambda>(out1, m). Inr (out1, ONil, w, m)))))"
    if "update_ok (e, bts, w', m')" for e bts w' m'
    using that dels by (auto intro!: safe_bind [OF arrs] safe_bind [OF safe_del_loop [OF assms(1)]])
  show ?thesis
    unfolding handle_U_def
    using puts assms(2)
    by (auto intro!: safe_bind [OF arrs] safe_bind [OF safe_put_loop [OF assms(1)]] simp: batches_ok_def)
qed

definition query_ok :: "out_value \<times> 'w \<times> 'd manager + 'w \<times> 'd manager \<times> 'x res option \<Rightarrow> bool" where
  "query_ok = (\<lambda>x. case x of
      Inl (e, w, m) \<Rightarrow> owned m
    | Inr (w, m, q) \<Rightarrow> owned m \<and> (case q of None \<Rightarrow> True | Some r \<Rightarrow> safe {OobRead} (\<lambda>_. True) r))"

lemma safe_Q:
  assumes "opens_report (sv_env S)" "owned m" "handle_Q S params w m = Some r"
  shows "safe read_faults (\<lambda>(out1, out2, w, m). owned m) r"
proof -
  have mem: "safe read_faults (\<lambda>_. True) (res_bind (rd params i) bytes_member)"
    "safe read_faults (\<lambda>_. True) (res_bind (rd params i) uint_member)"
    "safe read_faults (\<lambda>_. True) (res_bind (rd params i) bool_member)" for i
    by (rule safe_bind [OF safe_rd_any safe_members(2)], rule safe_bind [OF safe_rd_any safe_members(3)],
        rule safe_bind [OF safe_rd_any safe_members(4)])
  have "safe read_faults query_ok (handle_Q_query S params w m)"
    unfolding handle_Q_query_def
    by (rule safe_bind [OF mem(1)], rule safe_bind [OF mem(1)], rule safe_bind [OF mem(2)],
        rule safe_bind [OF mem(2)], rule safe_bind [OF mem(3)], rule safe_bind [OF mem(3)],
        rule safe_bind [OF mem(2)], rule safe_bind [OF mem(2)], rule safe_bind [OF mem(2)],
        rule safe_lookup [OF assms(1,2)])
       (auto simp: query_ok_def db_at_def split: option.split dest: Ndb_query_faults)
  moreover have "safe read_faults (\<lambda>(out1, out2, w, m). owned m) (res_bind y (\<lambda>(sls, serr).
        Inr (case to_codec_value serr of Some e \<Rightarrow> (e, ONil, w', m') | None \<Rightarrow> (ONil, query_reply sls, w', m'))))"
    if "owned m'" "safe {OobRead} (\<lambda>_. True) y" for y w' m'
    using that by (cases y) (auto split: option.split)
  ultimately show ?thesis
    using assms(3)
    by (cases "handle_Q_query S params w m")
       (auto simp: handle_Q_def query_ok_def split: sum.splits option.splits prod.splits)
qed

section \<open>A concrete server\<close>

text \<open>
  A server that is given its request decoded and collects its responses, over databases that are
  opened with the entries \<open>es\<close>.
\<close>

definition demo_server :: "mem_db \<Rightarrow> codec_value \<Rightarrow> (string list, mem_db, mem_it, codec_value list) server" where
  "demo_server es v = \<lparr>sv_env = mem_env\<lparr>db_open := (\<lambda>w opt dir. (st_OK, Some es, w))\<rparr>, sv_rocks = mem_rocks,
     sv_codec64 = be64, sv_decode = (\<lambda>_. (v, None)), sv_encode = (\<lambda>v out. (out @ [v], None)),
     sv_order = rev, sv_junk = 0\<rparr>"

lemma demo_server_simps [simp]:
  "sv_rocks (demo_server es v) = mem_rocks" "sv_codec64 (demo_server es v) = be64"
  "sv_decode (demo_server es v) = (\<lambda>_. (v, None))" "sv_encode (demo_server es v) = (\<lambda>v out. (out @ [v], None))"
  "sv_order (demo_server es v) = rev"
  by (simp_all add: demo_server_def)

lemma demo_server_laws:
  "order_laws (sv_order (demo_server es v))" "opens_report (sv_env (demo_server es v))" "writes_succeed mem_rocks"
  by (simp_all add: order_laws_def opens_report_def demo_server_def st_OK_def writes_succeed_def)

text \<open>The demonstration keys are looked up in an environment that opens with \<open>es\<close>.\<close>

lemma demo_find:
  obtains w m where
    "ndbForKey (sv_env (demo_server es v)) (demo_key 2) ([], mem_manager True, []) = Inr (Some 0, w, m, [])"
    "dbs m = [es]"
proof -
  have k: "demo_key 2 = [32, 2, 0, 0, 0, 9, 17, 26]" by code_simp
  have "extractKeyParts [32, 2, 0, 0, 0, 9, 17, 26] = Inr \<lparr>kp_discrim = 2, kp_shardid = Some 2,
      kp_indexid = None, kp_rootkindid = Some 17, kp_kindid = Some 17, kp_shapeid = Some 3\<rparr>"
    by code_simp
  then show ?thesis
    using that
    by (simp add: k ndbForKey_def Discriminator_of_def shard_in_range_def mem_manager_def dataDb_def
        perkindDb_def shard_map_def ensureDir_def demo_server_def mem_env_def openDb_def)
qed

section \<open>Properties of the requests\<close>

text \<open>The writes of an update: every database once, in any order.\<close>

lemma write_batches:
  assumes "writes_succeed R" "order_laws ord" "length kvs = length ps" "length dks = length ds"
    and "bts = fold (\<lambda>(k, h). with_batch (Some h) (add_del k)) (zip dks ds)
           (fold (\<lambda>(kv, h). with_batch (Some h) (add_put kv)) (zip kvs ps) [])"
    and "\<forall>n \<in> set ps \<union> set ds. n < length (dbs m)"
  shows "write_loop R (in_order ord bts) m = Inr (ONil, m\<lparr>dbs := written R (map_of bts) (dbs m)\<rparr>)"
proof -
  note b = update_batches [OF assms(3-5)]
  note o = in_order_map_of [OF assms(2) b(1)]
  have h: "\<exists>n < length (dbs m). h = Some n" if "h \<in> set (map fst (in_order ord bts))" for h
    using that o(3) b(2) assms(6) by auto
  have "length (putkeys bt) = length (putvalues bt)" if a: "(h, bt) \<in> set (in_order ord bts)" for h bt
  proof -
    obtain n where "h = Some n" using h [of h] a by force
    then show ?thesis
      using b(3) [of n] map_of_is_SomeI [OF o(2) a] o(1) by (simp add: batch_of_def)
  qed
  then show ?thesis
    using write_loop_run [OF assms(1) o(2), of m] h by (simp add: o(1))
qed

text \<open>What the written batches leave in a database.\<close>

lemma written_batches:
  assumes "db_laws R cont snap pos" "writes_succeed R" "n < length dl"
    and "batch_of bts (Some n) = \<lparr>putkeys = map fst kvs, putvalues = map snd kvs, delkeys = ks\<rparr>"
  shows "map_of (cont (written R (map_of bts) dl ! n)) k =
        (if k \<in> set ks then None
         else case map_of (rev kvs) k of Some v \<Rightarrow> Some v | None \<Rightarrow> map_of (cont (dl ! n)) k)"
proof (cases "map_of bts (Some n)")
  case None
  then have "written R (map_of bts) dl ! n = dl ! n" "kvs = []" "ks = []"
    using assms(3,4) by (simp_all add: written_def batch_of_def empty_batch_def)
  then show ?thesis by simp
next
  case (Some bt)
  then have "written R (map_of bts) dl ! n = snd (db_write R (dl ! n) (batch_ops bt))"
    "bt = batch_of bts (Some n)"
    using assms(3) by (simp_all add: written_def batch_of_def)
  then show ?thesis
    using batch_stored [OF assms(1,2), of "dl ! n" bt k] by (simp add: assms(4) zip_map_fst_snd)
qed

text \<open>
  C4. Updates: a \<^verbatim>\<open>'U'\<close> request whose keys all have a database answers with no error, and
  leaves every database with exactly the puts and deletes that are routed to it, whatever the
  order in which the databases are written: a deleted key is gone, any other key has the value of
  its last put, and every other entry is what it was.
\<close>

theorem update_request:
  assumes "db_laws (sv_rocks S) cont snap pos" "writes_succeed (sv_rocks S)" "order_laws (sv_order S)"
    and "sv_decode S inp = (request rid CHR ''U'' [VArray (put_request kvs), VArray (map VBytes dks)], None)"
    and "lookups (sv_env S) (map fst kvs) w m = Inr (map Some ps, w1, m1)"
    and "lookups (sv_env S) dks w1 m1 = Inr (map Some ds, w2, m2)"
    and "\<forall>n \<in> set ps \<union> set ds. n < length (dbs m2)"
  shows "\<exists>m'. ReqHandler_handle S inp out w m = Some (Inr (respond S rid VNil VNil out w2 m'))
    \<and> length (dbs m') = length (dbs m2)
    \<and> (\<forall>n < length (dbs m2). \<forall>k. map_of (cont (dbs m' ! n)) k =
        (if k \<in> set (routed (zip dks ds) n) then None
         else case map_of (rev (routed (zip kvs ps) n)) k of
                Some v \<Rightarrow> Some v | None \<Rightarrow> map_of (cont (dbs m2 ! n)) k))"
proof -
  let ?R = "sv_rocks S"
  let ?bts = "fold (\<lambda>(k, h). with_batch (Some h) (add_del k)) (zip dks ds)
           (fold (\<lambda>(kv, h). with_batch (Some h) (add_put kv)) (zip kvs ps) [])"
  let ?m' = "m2\<lparr>dbs := written ?R (map_of ?bts) (dbs m2)\<rparr>"
  have len: "length kvs = length ps" "length dks = length ds"
    using lookups_length [OF assms(5)] lookups_length [OF assms(6)] by simp_all
  note wl = write_batches [OF assms(2,3) len refl assms(7)]
  have "handle_U S [VArray (put_request kvs), VArray (map VBytes dks)] w m = Inr (ONil, ONil, w2, ?m')"
    by (simp add: handle_U_def arr_def rd_def put_loop_run [OF assms(5)] del_loop_run [OF assms(6)] wl)
  then have "ReqHandler_handle S inp out w m = Some (Inr (respond S rid VNil VNil out w2 ?m'))"
    by (simp add: handle_request [OF assms(4)] handle_switch_def handle_encode_plain)
  moreover have "dbs ?m' = written ?R (map_of ?bts) (dbs m2)" by simp
  ultimately show ?thesis
    using written_batches [OF assms(1,2) _ update_batches(3) [OF len refl]]
    by (intro exI [of _ ?m'] conjI allI impI) (simp_all only: length_written)
qed

theorem update_request_witness:
  "\<exists>w m. ReqHandler_handle (demo_server [Put (demo_key 2) [7]]
        (request VNil CHR ''U'' [VArray (put_request [(demo_key 2, [1]), (demo_key 2, [2])]), VArray (map VBytes [])]))
       [] [] [] (mem_manager True) = Some (Inr ([VArray [VNil, VNil, VNil]], None, w, m))
     \<and> map_of (mem_entries (dbs m ! 0)) (demo_key 2) = Some [2]"
proof -
  define S where "S = demo_server [Put (demo_key 2) [7]]
    (request VNil CHR ''U'' [VArray (put_request [(demo_key 2, [1]), (demo_key 2, [2])]), VArray (map VBytes [])])"
  have parts: "sv_rocks S = mem_rocks" "sv_order S = rev" "sv_encode S = (\<lambda>v out. (out @ [v], None))"
    "sv_decode S [] = (request VNil CHR ''U'' [VArray (put_request [(demo_key 2, [1]), (demo_key 2, [2])]),
       VArray (map VBytes [])], None)" "order_laws rev"
    using demo_server_laws(1) by (simp_all add: S_def)
  obtain w m where f: "ndbForKey (sv_env S) (demo_key 2) ([], mem_manager True, []) = Inr (Some 0, w, m, [])"
    "dbs m = [[Put (demo_key 2) [7]]]"
    unfolding S_def by (rule demo_find)
  obtain k where k: "route (mem_manager True :: mem_db manager) (demo_key 2) = Inr (Inr k)" "db_look m k = Some 0"
    using ndbForKey_step(4) [OF f(1), of 0] by auto
  have "ndbForKey (sv_env S) (demo_key 2) (w, m, []) = Inr (Some 0, w, m, [])"
    using route_same_setup [OF ndbForKey_step(1) [OF f(1)], of "demo_key 2"] k
    by (simp add: ndbForKey_route db_fetch_hit)
  then have "lookups (sv_env S) (map fst [(demo_key 2, [1]), (demo_key 2, [2])]) [] (mem_manager True) =
      Inr (map Some [0, 0], w, m)"
    by (simp add: f)
  from update_request [OF _ _ _ parts(4) this, of mem_entries mem_snap mem_pos "[]" w m "[]"]
  show ?thesis
    unfolding S_def [symmetric]
    using f(2) by (auto simp: parts mem_db_laws demo_server_laws respond_def)
qed

text \<open>The answer of a counter, and what it leaves.\<close>

definition next_count :: "bool \<Rightarrow> u64 \<Rightarrow> u64 \<Rightarrow> u64" where
  "next_count incr delta old = (if incr then old + ucast (ucast delta :: u16) else old - ucast (ucast delta :: u16))"

lemma next_count_value:
  "int (unat (next_count incr delta old)) = (if incr then int (unat old) + int (unat delta) mod 2 ^ 16
     else int (unat old) - int (unat delta) mod 2 ^ 16) mod 2 ^ 64"
proof -
  have "int (unat (ucast delta :: u16)) = int (unat delta) mod 2 ^ 16"
    by (simp add: unsigned_ucast_eq take_bit_eq_mod zmod_int)
  then show ?thesis
    using counter_value [of incr old "ucast delta"] by (simp add: next_count_def)
qed

lemma incrdecr_answer:
  assumes "db_laws (sv_rocks S) cont snap pos" "puts_succeed (sv_rocks S)"
    and "sv_decode S inp = (request rid CHR ''N'' (VBytes key # VBool incr # VPosInt delta # VPosInt initVal # ps), None)"
    and "ndbForKey (sv_env S) key (w, m, []) = Inr (Some n, w1, m1, err)" "n < length (dbs m1)"
    and "map_of (cont (dbs m1 ! n)) key = None \<or> (\<exists>t. map_of (cont (dbs m1 ! n)) key = Some t \<and> length t = 8)"
    and "old = (case map_of (cont (dbs m1 ! n)) key of
            Some t \<Rightarrow> be_read (sv_codec64 S) t | None \<Rightarrow> ucast (ucast initVal :: u16))"
  shows "\<exists>d'. ReqHandler_handle S inp out w m =
      Some (Inr (respond S rid VNil (VPosInt (next_count incr delta old)) out w1 (m1\<lparr>dbs := (dbs m1)[n := d']\<rparr>)))
    \<and> map_of (cont d') = (map_of (cont (dbs m1 ! n)))(key \<mapsto> be_write (sv_codec64 S) (next_count incr delta old))"
proof -
  let ?v = "next_count incr delta old"
  obtain d' where d': "Ndb_incrdecr (sv_codec64 S) (sv_rocks S) (dbs m1 ! n) key incr (ucast delta)
      (ucast initVal) (sv_junk S, []) = (d', ?v, [])"
    "map_of (cont d') = (map_of (cont (dbs m1 ! n)))(key \<mapsto> be_write (sv_codec64 S) ?v)"
    using lawful_db.incrdecr_step [OF lawful_db.intro [OF assms(1)] assms(6) _ assms(7) refl,
        of incr "ucast delta" "sv_junk S" "[]"] assms(2)
    by (auto simp: puts_succeed_def next_count_def)
  have "err = []" using ndbForKey_no_error [OF assms(4)] .
  then have "handle_N S (VBytes key # VBool incr # VPosInt delta # VPosInt initVal # ps) w m =
      Inr (ONil, OPosInt ?v, w1, m1\<lparr>dbs := (dbs m1)[n := d']\<rparr>)"
    using assms(5) d'(1) by (simp add: handle_N_def assms(4) db_at_def put_db_def)
  then have "ReqHandler_handle S inp out w m =
      Some (Inr (respond S rid VNil (VPosInt ?v) out w1 (m1\<lparr>dbs := (dbs m1)[n := d']\<rparr>)))"
    by (simp add: handle_request [OF assms(3)] handle_switch_def handle_encode_plain)
  then show ?thesis using d'(2) by blast
qed

text \<open>
  Counters: an \<^verbatim>\<open>'N'\<close> request on a key that is missing or holds eight bytes answers with the
  stored number (the initial value, if missing) plus or minus the delta modulo 2^64, where delta
  and initial value are cut to 16 bits, and stores that number in the database of the key; no
  other key and no other database changes.
\<close>

theorem incrdecr_request:
  assumes "db_laws (sv_rocks S) cont snap pos" "puts_succeed (sv_rocks S)"
    and "sv_decode S inp = (request rid CHR ''N'' (VBytes key # VBool incr # VPosInt delta # VPosInt initVal # ps), None)"
    and "ndbForKey (sv_env S) key (w, m, []) = Inr (Some n, w1, m1, err)" "n < length (dbs m1)"
    and "map_of (cont (dbs m1 ! n)) key = None \<or> (\<exists>t. map_of (cont (dbs m1 ! n)) key = Some t \<and> length t = 8)"
    and "old = (case map_of (cont (dbs m1 ! n)) key of
            Some t \<Rightarrow> be_read (sv_codec64 S) t | None \<Rightarrow> ucast (ucast initVal :: u16))"
  shows "\<exists>v d'. ReqHandler_handle S inp out w m =
      Some (Inr (respond S rid VNil (VPosInt v) out w1 (m1\<lparr>dbs := (dbs m1)[n := d']\<rparr>)))
    \<and> int (unat v) = (if incr then int (unat old) + int (unat delta) mod 2 ^ 16
                      else int (unat old) - int (unat delta) mod 2 ^ 16) mod 2 ^ 64
    \<and> map_of (cont d') = (map_of (cont (dbs m1 ! n)))(key \<mapsto> be_write (sv_codec64 S) v)"
  using incrdecr_answer [OF assms, of out] next_count_value by blast

theorem incrdecr_request_witness:
  "\<exists>v w m. ReqHandler_handle (demo_server [] (request VNil CHR ''N'' [VBytes (demo_key 2), VBool True, VPosInt 5, VPosInt 100]))
       [] [] [] (mem_manager True) = Some (Inr ([VArray [VNil, VNil, VPosInt v]], None, w, m))
     \<and> int (unat v) = 105"
proof -
  let ?S = "demo_server [] (request VNil CHR ''N'' [VBytes (demo_key 2), VBool True, VPosInt 5, VPosInt 100])"
  obtain w m where f: "ndbForKey (sv_env ?S) (demo_key 2) ([], mem_manager True, []) = Inr (Some 0, w, m, [])"
    "dbs m = [[]]"
    by (rule demo_find)
  show ?thesis
    using incrdecr_request [of ?S mem_entries mem_snap mem_pos "[]" VNil "demo_key 2" True 5 100 "[]" "[]"
        "mem_manager True" 0 w m "[]" 100 "[]"] f
    by (auto simp: mem_db_laws mem_puts_succeed mem_entries_def respond_def)
qed

text \<open>
  C32. Reads: whatever a \<^verbatim>\<open>'G'\<close> request asks for, the result of its answer is nil.  The values
  read are put in a local value that is never stored in the response.
\<close>

theorem get_request_no_result:
  assumes "sv_decode S inp = (request rid CHR ''G'' params, None)"
    and "ReqHandler_handle S inp out w m = Some (Inr (out', err, w', m'))"
  shows "\<exists>e. sv_encode S (VArray [rid, e, VNil]) out = (out', err)"
proof -
  obtain r where r: "handle_G S params w m = Inr r" "handle_encode S rid r out = Inr (out', err, w', m')"
    using assms(2) by (auto simp: handle_request [OF assms(1)] handle_switch_def res_bind_Inr_iff)
  obtain out1 w1 m1 where o: "r = (out1, ONil, w1, m1)"
    using r(1) by (auto simp: handle_G_def res_bind_Inr_iff split: prod.splits)
  show ?thesis
    using r(2) by (auto simp: handle_encode_def o Let_def split: if_splits prod.splits)
qed

theorem get_request_no_result_witness:
  "\<exists>e w m. ReqHandler_handle (demo_server [Put (demo_key 2) [7]] (request VNil CHR ''G'' [VArray [VBytes (demo_key 2)]]))
       [] [] [] (mem_manager True) = Some (Inr ([VArray [VNil, e, VNil]], None, w, m))"
proof -
  let ?S = "demo_server [Put (demo_key 2) [7]] (request VNil CHR ''G'' [VArray [VBytes (demo_key 2)]])"
  obtain w m where f: "ndbForKey (sv_env ?S) (demo_key 2) ([], mem_manager True, []) = Inr (Some 0, w, m, [])"
    "dbs m = [[Put (demo_key 2) [7]]]"
    by (rule demo_find)
  have "handle_G ?S [VArray [VBytes (demo_key 2)]] [] (mem_manager True) = Inr (ONil, ONil, w, m)"
    by (simp add: handle_G_def GET_VIA_ITER_def arr_def bytes_member_def f db_at_def Ndb_get_def mem_get_def mem_entries_def)
  then have h: "ReqHandler_handle ?S [] [] [] (mem_manager True) = Some (Inr ([VArray [VNil, VNil, VNil]], None, w, m))"
    by (simp add: handle_request handle_switch_def handle_encode_def)
  obtain e where "[VArray [VNil, e, VNil]] = [VArray [VNil, VNil, VNil]]"
    using get_request_no_result [OF _ h, of VNil "[VArray [VBytes (demo_key 2)]]"] by auto
  then show ?thesis using h by blast
qed

text \<open>
  C31. Queries: a \<^verbatim>\<open>'Q'\<close> request with an existing operator and a seek position, on a database that keeps the laws and
  whose keys are long enough to be compared, is answered only when the query selects nothing, with an empty list; as soon as it selects an entity, the answer is encoded from
  slices into an iterator that no longer exists.
\<close>

theorem query_request:
  assumes "db_laws (sv_rocks S) cont snap pos"
    and "sv_decode S inp = (request rid CHR ''Q'' (VBytes p1 # VBytes p2 # VPosInt kind # VPosInt shape #
           VBool anc # VBool cur # VPosInt op # VPosInt offset # VPosInt limit # ps), None)"
    and "ndbForKey (sv_env S) p1 (w, m, []) = Inr (Some n, w1, m1, err)" "n < length (dbs m1)" "p1 \<noteq> []"
    and "query_plan p2 anc cur (ucast op) = Inr p" "\<forall>k \<in> set (map fst (cont (dbs m1 ! n))). row_ok p k"
  shows "ReqHandler_handle S inp out w m =
    Some (if query_results p p1 (ucast kind) (ucast shape) (unat offset) (unat limit)
               (map fst (cont (dbs m1 ! n))) = []
          then Inr (respond S rid VNil (VArray []) out w1 m1) else Inl UseAfterFree)"
proof -
  have f: "fold (\<lambda>sl sls. sls @ [sl]) xs ys = ys @ xs" for xs ys :: "bytes list"
    by (induction xs arbitrary: ys) simp_all
  note q = Ndb_query_spec [OF assms(1,5-7)]
  have "err = []" using ndbForKey_no_error [OF assms(3)] .
  then have "handle_Q S (VBytes p1 # VBytes p2 # VPosInt kind # VPosInt shape # VBool anc # VBool cur #
        VPosInt op # VPosInt offset # VPosInt limit # ps) w m =
      Some (Inr (ONil, query_reply (query_results p p1 (ucast kind) (ucast shape) (unat offset)
        (unat limit) (map fst (cont (dbs m1 ! n)))), w1, m1))"
    using assms(4)
    by (simp add: handle_Q_def handle_Q_query_def bytes_member_def uint_member_def bool_member_def rd_def assms(3) db_at_def q f)
  then show ?thesis
    by (auto simp: handle_request [OF assms(2)] handle_switch_def handle_encode_def respond_def
        query_reply_def list_ex_iff split_beta)
qed

theorem query_request_witness:
  "ReqHandler_handle (demo_server [Put (demo_key 2) [7]] (request VNil CHR ''Q'' [VBytes (demo_key 2), VBytes [],
       VPosInt 0, VPosInt 0, VBool False, VBool False, VPosInt 1, VPosInt 0, VPosInt 10]))
     [] [] [] (mem_manager True) = Some (Inl UseAfterFree)"
proof -
  let ?S = "demo_server [Put (demo_key 2) [7]] (request VNil CHR ''Q'' [VBytes (demo_key 2), VBytes [],
       VPosInt 0, VPosInt 0, VBool False, VBool False, VPosInt 1, VPosInt 0, VPosInt 10])"
  obtain w m where f: "ndbForKey (sv_env ?S) (demo_key 2) ([], mem_manager True, []) = Inr (Some 0, w, m, [])"
    "dbs m = [[Put (demo_key 2) [7]]]"
    by (rule demo_find)
  define p where "p = \<lparr>q_forward = True, q_skipOne = False, q_skipFirstMatch = False,
     q_stopIfNotMatch = True, q_seekpos2 = []\<rparr>"
  have p: "query_plan [] False False 1 = Inr p" "q_seekpos2 p = []"
    using query_plan_simps(2) [of "[]" False] by (simp_all add: QueryFilterOp_val.simps p_def)
  have k: "demo_key 2 \<noteq> []" "2 \<le> length (demo_key 2)" by code_simp+
  have "query_results p (demo_key 2) 0 0 0 10 [demo_key 2] \<noteq> []"
    unfolding p_def by code_simp
  then show ?thesis
    using query_request [where S = ?S and cont = mem_entries and snap = mem_snap and pos = mem_pos
        and inp = "[]" and rid = VNil and ?p1.0 = "demo_key 2" and ?p2.0 = "[]" and kind = 0 and shape = 0
        and anc = False and cur = False and op = 1 and offset = 0 and limit = 10 and ps = "[]" and w = "[]"
        and m = "mem_manager True" and n = 0 and ?w1.0 = w and ?m1.0 = m and err = "[]" and p = p and out = "[]"]
      f k p
    by (simp add: mem_db_laws mem_entries_def row_ok_no_end)
qed

lemma put_loop_odd:
  assumes "lookups E (map fst kvs) w m = Inr (map Some hs, w', m')"
  shows "put_loop E (put_request kvs @ [VBytes k]) bts w m = Inl OobRead"
  using assms
proof (induction kvs arbitrary: hs w m bts)
  case Nil
  then show ?case by (simp add: put_request_def bytes_member_def)
next
  case (Cons kv kvs)
  obtain a v where kv: "kv = (a, v)" by (cases kv)
  from Cons.prems have "lookups E (a # map fst kvs) w m = Inr (map Some hs, w', m')" by (simp add: kv)
  then show ?case
  proof (rule lookups_ConsE)
    fix h w1 m1 err1 hs1
    assume 1: "ndbForKey E a (w, m, []) = Inr (h, w1, m1, err1)"
      "lookups E (map fst kvs) w1 m1 = Inr (hs1, w', m')" "map Some hs = h # hs1"
    obtain n hs2 where hs: "hs = n # hs2" "h = Some n" "hs1 = map Some hs2"
      using 1(3) by (cases hs) auto
    have step: "ndbForKey E a (w, m, []) = Inr (Some n, w1, m1, [])"
      using 1(1) ndbForKey_no_error [of E a w m n w1 m1 err1] hs(2) by simp
    have "put_loop E (put_request (kv # kvs) @ [VBytes k]) bts w m =
        put_loop E (put_request kvs @ [VBytes k]) (with_batch (Some n) (add_put kv) bts) w1 m1"
      by (simp add: put_request_def kv step bytes_member_def add_put_def [abs_def])
    also have "\<dots> = Inl OobRead"
      by (rule Cons.IH) (use 1(2) hs(3) in simp)
    finally show ?thesis .
  qed
qed

text \<open>
  An update request whose list of puts has a key without a value reads outside that list, once
  the keys in front of it have their databases.
\<close>

theorem update_odd_puts:
  assumes "sv_decode S inp = (request rid CHR ''U'' (VArray (put_request kvs @ [VBytes k]) # ps), None)"
    and "lookups (sv_env S) (map fst kvs) w m = Inr (map Some hs, w1, m1)"
  shows "ReqHandler_handle S inp out w m = Some (Inl OobRead)"
  by (simp add: handle_request [OF assms(1)] handle_switch_def handle_U_def arr_def rd_def
      put_loop_odd [OF assms(2)])

theorem update_odd_puts_witness:
  "ReqHandler_handle (demo_server [] (request VNil CHR ''U'' [VArray (put_request [] @ [VBytes [1]])]))
     [] [] [] (mem_manager True) = Some (Inl OobRead)"
  by (rule update_odd_puts [where hs = "[]" and kvs = "[]" and ps = "[]" and rid = VNil]) simp_all

text \<open>
  C33. Requests that are refused: a request that cannot be decoded and one whose method is not a
  string of one character end with an error and no response; an unknown letter, and an \<^verbatim>\<open>'N'\<close>
  request whose parameters are too few or of another type, are answered with an error.  None of
  them touches the world or the manager.
\<close>

theorem refused_requests:
  "(\<forall>v e. sv_decode S inp = (v, Some e) \<longrightarrow> ReqHandler_handle S inp out w m = Some (Inr (out, Some e, w, m)))
   \<and> (\<forall>rid meth ps. sv_decode S inp = (VArray (rid # meth # ps), None) \<and> (\<forall>c. meth \<noteq> VString [c]) \<longrightarrow>
        ReqHandler_handle S inp out w m = Some (Inr (out, Some method_msg, w, m)))
   \<and> (\<forall>rid c ps. sv_decode S inp = (request rid c ps, None) \<and> c \<notin> set ''NGQU'' \<longrightarrow>
        ReqHandler_handle S inp out w m =
          Some (Inr (respond S rid (VString (bytes_of (bad_method_msg (of_char c)))) VNil out w m)))
   \<and> (\<forall>rid ps. sv_decode S inp = (request rid CHR ''N'' ps, None)
        \<and> (\<forall>key incr d i qs. ps \<noteq> VBytes key # VBool incr # VPosInt d # VPosInt i # qs) \<longrightarrow>
        ReqHandler_handle S inp out w m =
          Some (Inr (respond S rid (VString (bytes_of ''Invalid input'')) VNil out w m)))"
proof (intro conjI allI impI)
  fix v e assume "sv_decode S inp = (v, Some e)"
  then show "ReqHandler_handle S inp out w m = Some (Inr (out, Some e, w, m))"
    by (simp add: ReqHandler_handle_def)
next
  fix rid meth ps
  assume a: "sv_decode S inp = (VArray (rid # meth # ps), None) \<and> (\<forall>c. meth \<noteq> VString [c])"
  show "ReqHandler_handle S inp out w m = Some (Inr (out, Some method_msg, w, m))"
  proof (cases meth)
    case (VString cs)
    then show ?thesis
      using a by (cases cs rule: remdups_adj.cases) (simp_all add: ReqHandler_handle_def arr_def rd_def)
  qed (use a in \<open>simp_all add: ReqHandler_handle_def arr_def rd_def\<close>)
next
  fix rid c ps assume a: "sv_decode S inp = (request rid c ps, None) \<and> c \<notin> set ''NGQU''"
  then have "of_char c \<noteq> (of_char CHR ''N'' :: u8)" "of_char c \<noteq> (of_char CHR ''G'' :: u8)"
    "of_char c \<noteq> (of_char CHR ''Q'' :: u8)" "of_char c \<noteq> (of_char CHR ''U'' :: u8)"
    unfolding of_char_u8_inject by auto
  then show "ReqHandler_handle S inp out w m =
          Some (Inr (respond S rid (VString (bytes_of (bad_method_msg (of_char c)))) VNil out w m))"
    using a by (simp add: handle_request handle_switch_def handle_encode_plain)
next
  fix rid ps
  assume a: "sv_decode S inp = (request rid CHR ''N'' ps, None)
      \<and> (\<forall>key incr d i qs. ps \<noteq> VBytes key # VBool incr # VPosInt d # VPosInt i # qs)"
  then have "handle_N S ps w m = Inr (OString (bytes_of ''Invalid input''), ONil, w, m)"
    by (auto simp: handle_N_def split: list.split codec_value.split)
  then show "ReqHandler_handle S inp out w m =
          Some (Inr (respond S rid (VString (bytes_of ''Invalid input'')) VNil out w m))"
    using a by (simp add: handle_request handle_switch_def handle_encode_plain)
qed

theorem refused_requests_witness:
  "ReqHandler_handle (demo_server [] (request VNil CHR ''X'' [])) [] [] [] (mem_manager True) =
     Some (Inr ([VArray [VNil, VString (bytes_of ''Invalid desc byte: 0x58''), VNil]], None, [], mem_manager True))"
proof -
  have "bytes_of (bad_method_msg (of_char CHR ''X'')) = bytes_of ''Invalid desc byte: 0x58''"
    by code_simp
  then show ?thesis
    using refused_requests [of "demo_server [] (request VNil CHR ''X'' [])" "[]" "[]" "[]" "mem_manager True",
        THEN conjunct2, THEN conjunct2, THEN conjunct1, rule_format, of VNil "CHR ''X''" "[]"]
    by (simp add: respond_def)
qed

lemma safe_switch:
  assumes "opens_report (sv_env S)" "order_laws (sv_order S)" "owned m"
    and "handle_switch S c params w m = Some r"
  shows "safe read_faults (\<lambda>(out1, out2, w, m). owned m) r"
    and "c \<noteq> of_char CHR ''Q'' \<Longrightarrow> safe read_faults reply_ok r"
proof -
  show a: "c \<noteq> of_char CHR ''Q'' \<Longrightarrow> safe read_faults reply_ok r"
    using assms(4) safe_N [OF assms(1,3), of params w] safe_G [OF assms(1,3), of params w]
      safe_U [OF assms(1,3,2), of params w] assms(3)
    by (auto simp: handle_switch_def split: if_splits)
  show "safe read_faults (\<lambda>(out1, out2, w, m). owned m) r"
  proof (cases "c = of_char CHR ''Q''")
    case True
    then show ?thesis
      using assms(4) by (auto simp: handle_switch_def intro: safe_Q [OF assms(1,3)])
  next
    case False
    show ?thesis
      by (rule safe_mono [OF a [OF False]]) auto
  qed
qed

lemma handle_encode_faults:
  assumes "safe read_faults (\<lambda>(out1, out2, w, m). owned m) r" "\<not> q \<Longrightarrow> safe read_faults reply_ok r"
  shows "case res_bind r (\<lambda>r. handle_encode S rid r out) of
      Inl f \<Rightarrow> f = OobRead \<or> f = BadUnion \<or> f = UseAfterFree \<and> q
    | Inr (out', err, w', m') \<Rightarrow> owned m'"
proof (cases r)
  case (Inr x)
  obtain e v w m where x: "x = (e, v, w, m)" by (metis prod_cases4)
  then show ?thesis
    using assms Inr by (cases q) (auto simp: handle_encode_def split_beta)
qed (use assms(1) in auto)

text \<open>A request is an array of the request id, a one-character string and the parameters, or refused.\<close>

lemma handle_shape:
  assumes "ReqHandler_handle S inp out w m = Some r"
  obtains (stopped) f where "r = Inl f" "f \<in> read_faults"
  | (refused) e where "r = Inr (out, Some e, w, m)"
  | (handled) rid c ps params r0 where "fst (sv_decode S inp) = VArray (rid # VString [c] # ps)"
      "handle_switch S c params w m = Some r0" "r = res_bind r0 (\<lambda>r. handle_encode S rid r out)"
proof (cases "sv_decode S inp")
  case (Pair cv err)
  note h = ReqHandler_handle_def [of S inp out w m] Pair
  consider (error) e where "err = Some e" | (other) "err = None" "\<nexists>req. cv = VArray req"
    | (short) "err = None" "cv = VArray []" | (one) rid where "err = None" "cv = VArray [rid]"
    | (two) rid meth ps where "err = None" "cv = VArray (rid # meth # ps)"
    by (metis neq_Nil_conv option.exhaust)
  then show ?thesis
  proof cases
    case (two rid meth ps)
    note a = arr_def [of "VArray _"] rd_def [of _ 0] rd_def [of _ 1]
    show ?thesis
    proof (cases "\<exists>c. meth = VString [c]")
      case True
      then obtain c where c: "meth = VString [c]" by blast
      show ?thesis
      proof (cases "res_bind (rd (rid # meth # ps) 2) arr")
        case (Inl f)
        moreover have "safe read_faults (\<lambda>_. True) (res_bind (rd (rid # meth # ps) 2) arr)"
          by (rule safe_bind [OF safe_rd_any safe_members(1)])
        ultimately show ?thesis
          using assms stopped [of f] by (auto simp: h two a c)
      next
        case (Inr params)
        then show ?thesis
          using assms handled [of rid c ps params] by (auto simp: h two a c)
      qed
    next
      case False
      have "r = Inr (out, Some method_msg, w, m)"
      proof (cases meth)
        case (VString cs)
        then show ?thesis
          using False assms by (cases cs rule: remdups_adj.cases) (auto simp: h two a)
      qed (use assms in \<open>auto simp: h two a\<close>)
      then show ?thesis by (rule refused)
    qed
  next
    case (error e)
    then show ?thesis using assms refused [of e] by (auto simp: h)
  next
    case other
    then have "arr cv = Inl BadUnion" by (cases cv) (auto simp: arr_def)
    then show ?thesis using assms other(1) stopped [of BadUnion] by (auto simp: h)
  qed (use assms stopped [of OobRead] in \<open>auto simp: h arr_def rd_def\<close>)
qed

lemma handle_faults:
  assumes "opens_report (sv_env S)" "order_laws (sv_order S)" "owned m"
    and "ReqHandler_handle S inp out w m = Some r"
  shows "case r of
      Inl f \<Rightarrow> f = OobRead \<or> f = BadUnion
        \<or> f = UseAfterFree \<and> (\<exists>rid ps. fst (sv_decode S inp) = VArray (rid # VString [of_char CHR ''Q''] # ps))
    | Inr (out', err, w', m') \<Rightarrow> owned m'"
proof (cases rule: handle_shape [OF assms(4), case_names stopped refused handled])
  case (handled rid c ps params r0)
  note sw = safe_switch [OF assms(1-3) handled(2)]
  have "case r of Inl f \<Rightarrow> f = OobRead \<or> f = BadUnion \<or> f = UseAfterFree \<and> c = of_char CHR ''Q''
    | Inr (out', err, w', m') \<Rightarrow> owned m'"
    unfolding handled(3) using sw by (intro handle_encode_faults) auto
  then show ?thesis
    by (auto simp: handled(1) split: sum.splits)
qed (use assms(3) in auto)

text \<open>
  Safety of the dispatcher: whatever the bytes of the request, on a manager whose handles are
  its databases' the only faults of a request are reads outside an array or of another union
  member than is stored, and, for \<^verbatim>\<open>'Q'\<close> only, of freed memory; a null or stale database pointer is
  never used.  A request that is answered leaves the handles of the manager valid.
\<close>

theorem request_faults:
  assumes "opens_report (sv_env S)" "order_laws (sv_order S)" "owned m"
    and "ReqHandler_handle S inp out w m = Some r"
  shows "case r of
      Inl f \<Rightarrow> f = OobRead \<or> f = BadUnion
        \<or> f = UseAfterFree \<and> (\<exists>rid ps. fst (sv_decode S inp) = VArray (rid # VString [of_char CHR ''Q''] # ps))
    | Inr (out', err, w', m') \<Rightarrow> owned m'"
  using handle_faults [OF assms] .

theorem request_faults_witness:
  "\<exists>f. ReqHandler_handle (demo_server [] (request VNil CHR ''G'' [VNil])) [] [] [] (mem_manager True) = Some (Inl f)
     \<and> (f = OobRead \<or> f = BadUnion)"
proof -
  have h: "ReqHandler_handle (demo_server [] (request VNil CHR ''G'' [VNil])) [] [] [] (mem_manager True) =
      Some (Inl BadUnion)"
    by (simp add: handle_request handle_switch_def handle_G_def arr_def)
  have "owned (mem_manager True :: mem_db manager)"
    by (rule no_dbs_owned [OF no_dbs_mem])
  from request_faults [OF demo_server_laws(2,1) this h]
  show ?thesis using h by simp
qed

end
