(* ===== verification/Updates.thy ===== *)
theory Updates
  imports Handler
begin

text \<open>
  Update requests served at the same time.  The last loop of the \<^verbatim>\<open>'U'\<close> command (\<^verbatim>\<open>conn.cc\<close>) writes one
  batch per database, and no lock is held over the loop: requests of other connections run between
  two of its writes.  Each write of a batch is one call of RocksDB and is not divided.  A write that reports an error ends
  the loop.
\<close>

section \<open>Interleaved loops\<close>

text \<open>The batches every request has still to write.\<close>

type_synonym 'd writers = "'d manager \<times> (nat \<Rightarrow> db2BatchUpdateT)"

inductive write_step :: "('d, 'it, 'z) rocksdb_scheme \<Rightarrow> 'd writers \<Rightarrow> 'd writers \<Rightarrow> bool" for R where
  batch: "todo i = (h, bt) # bts \<Longrightarrow> db_at m h = Inr d \<Longrightarrow>
    Ndb_update R d (putkeys bt) (putvalues bt) (delkeys bt) [] = Inr (d', serr) \<Longrightarrow>
    write_step R (m, todo) (put_db h d' m, todo(i := if to_codec_value serr = None then bts else []))"

inductive_cases write_stepE: "write_step R s s'"

text \<open>A request that is alone takes the steps of its loop.\<close>

lemma write_loop_steps:
  assumes "write_loop R (todo i) m = Inr (e, m')"
  shows "(write_step R)\<^sup>*\<^sup>* (m, todo) (m', todo(i := []))"
proof -
  have "(write_step R)\<^sup>*\<^sup>* (m, todo) (m', todo(i := []))" if "write_loop R bts m = Inr (e, m')" "todo i = bts" for bts todo
    using that
  proof (induction bts arbitrary: m todo)
    case Nil
    then have "m' = m" "todo(i := []) = todo" by (simp_all add: fun_upd_idem)
    then show ?case by simp
  next
    case (Cons x bts)
    obtain h bt where x: "x = (h, bt)" by (cases x)
    obtain d d' serr where d: "db_at m h = Inr d"
      "Ndb_update R d (putkeys bt) (putvalues bt) (delkeys bt) [] = Inr (d', serr)"
      "(case to_codec_value serr of Some e \<Rightarrow> Inr (e, put_db h d' m) | None \<Rightarrow> write_loop R bts (put_db h d' m)) = Inr (e, m')"
      using Cons.prems(1) by (auto simp: x res_bind_Inr_iff)
    let ?todo = "todo(i := if to_codec_value serr = None then bts else [])"
    have step: "write_step R (m, todo) (put_db h d' m, ?todo)"
      using write_step.batch [OF _ d(1,2)] Cons.prems(2) x by simp
    have "(write_step R)\<^sup>*\<^sup>* (put_db h d' m, ?todo) (m', todo(i := []))"
    proof (cases "to_codec_value serr")
      case None
      have "(write_step R)\<^sup>*\<^sup>* (put_db h d' m, todo(i := bts)) (m', (todo(i := bts))(i := []))"
        by (rule Cons.IH) (use d(3) None in simp_all)
      then show ?thesis by (simp add: None)
    qed (use d(3) in simp)
    with step show ?case by (rule converse_rtranclp_into_rtranclp)
  qed
  then show ?thesis using assms by blast
qed

text \<open>The batches of a request: one for each of some databases that exist, every put with its value.\<close>

definition writable :: "nat \<Rightarrow> db2BatchUpdateT \<Rightarrow> bool" where
  "writable l bts \<longleftrightarrow> batches_ok bts l \<and> list_all (\<lambda>(h, b). length (putkeys b) = length (putvalues b)) bts"

definition written_by :: "(nat \<Rightarrow> db2BatchUpdateT) \<Rightarrow> (nat \<Rightarrow> db2BatchUpdateT) \<Rightarrow> nat \<Rightarrow> nat set" where
  "written_by todo0 todo n = {i. Some n \<in> set (map fst (todo0 i)) \<and> Some n \<notin> set (map fst (todo i))}"

text \<open>The effect of some requests, one after the other, on one database.\<close>

definition applied :: "(nat \<Rightarrow> db2BatchUpdateT) \<Rightarrow> nat \<Rightarrow> nat list \<Rightarrow> (bytes \<rightharpoonup> bytes) \<Rightarrow> (bytes \<rightharpoonup> bytes)" where
  "applied todo n order = fold (\<lambda>i. apply_batch (batch_ops (batch_of (todo i) (Some n)))) order"

context lawful_db
begin

definition written_in_order :: "'d manager \<Rightarrow> (nat \<Rightarrow> db2BatchUpdateT) \<Rightarrow> 'd writers \<Rightarrow> bool" where
  "written_in_order m0 todo0 = (\<lambda>(m, todo). length (dbs m) = length (dbs m0)
     \<and> (\<forall>i. \<exists>pre. todo0 i = pre @ todo i)
     \<and> (\<forall>n < length (dbs m0). \<exists>order. distinct order \<and> set order = written_by todo0 todo n
          \<and> map_of (cont (dbs m ! n)) = applied todo0 n order (map_of (cont (dbs m0 ! n)))))"

lemma written_in_order_step:
  assumes "writes_succeed R" "\<And>i. writable (length (dbs m0)) (todo0 i)"
    and "written_in_order m0 todo0 s" "write_step R s s'"
  shows "written_in_order m0 todo0 s'"
  using assms(4)
proof (cases rule: write_stepE [consumes 1, case_names batch])
  case (batch todo i h bt bts m d d' serr)
  note I = assms(3) [unfolded batch(1) written_in_order_def prod.case]
  obtain pre where pre: "todo0 i = pre @ (h, bt) # bts" using I batch(3) by metis
  note w = assms(2) [of i, unfolded writable_def batches_ok_def pre]
  then obtain k where k: "h = Some k" "k < length (dbs m0)" by auto
  have d: "d = dbs m ! k" using batch(4) k I by (simp add: db_at_def)
  have u: "d' = snd (db_write R (dbs m ! k) (batch_ops bt))" "serr = []"
    using Ndb_update_ok [OF assms(1), of bt d] batch(5) w d by simp_all
  let ?todo = "todo(i := bts)"
  let ?m = "put_db h d' m"
  have s': "s' = (?m, ?todo)" using batch(2) u(2) by simp
  have dbs: "dbs ?m = (dbs m)[k := d']" by (simp add: put_db_def k(1))
  have new: "written_by todo0 ?todo n = (if n = k then insert i (written_by todo0 todo n) else written_by todo0 todo n)"
    "i \<notin> written_by todo0 todo k" for n
    using w k(1) pre batch(3) by (auto simp: written_by_def)
  have bt: "batch_of (todo0 i) (Some k) = bt"
    using map_of_is_SomeI [of "todo0 i" h bt] w k(1) by (simp add: batch_of_def pre)
  have eff: "map_of (cont d') = apply_batch (batch_ops bt) (map_of (cont (dbs m ! k)))"
    using db_lawsD(8) [OF laws, of "dbs m ! k" "batch_ops bt"] assms(1) u(1) by (simp add: writes_succeed_def)
  have "\<exists>order. distinct order \<and> set order = written_by todo0 ?todo n
      \<and> map_of (cont (dbs ?m ! n)) = applied todo0 n order (map_of (cont (dbs m0 ! n)))" if n: "n < length (dbs m0)" for n
  proof -
    obtain order where o: "distinct order" "set order = written_by todo0 todo n"
      "map_of (cont (dbs m ! n)) = applied todo0 n order (map_of (cont (dbs m0 ! n)))"
      using I n by blast
    show ?thesis
    proof (cases "n = k")
      case True
      then have "map_of (cont (dbs ?m ! n)) = applied todo0 n (order @ [i]) (map_of (cont (dbs m0 ! n)))"
        using I n o(3) eff bt by (simp add: dbs applied_def)
      then show ?thesis
        using o(1,2) new True by (intro exI [of _ "order @ [i]"]) simp
    next
      case False
      then show ?thesis using o new(1) [of n] by (intro exI [of _ order]) (simp add: dbs)
    qed
  qed
  moreover have "\<exists>pre. todo0 j = pre @ ?todo j" for j
    using I pre by (cases "j = i") (auto intro: exI [of _ "pre @ [(h, bt)]"])
  ultimately show ?thesis
    using I unfolding s' written_in_order_def prod.case by (simp add: dbs)
qed

lemma written_in_order_steps:
  assumes "writes_succeed R" "\<And>i. writable (length (dbs m0)) (todo0 i)" "(write_step R)\<^sup>*\<^sup>* (m0, todo0) s"
  shows "written_in_order m0 todo0 s"
  using assms(3)
proof (induction rule: rtranclp_induct)
  case base
  show ?case
    unfolding written_in_order_def prod.case
    by (auto simp: written_by_def applied_def intro: exI [of _ "[] :: nat list"])
qed (rule written_in_order_step [OF assms(1,2)])

end

section \<open>The batches of a request\<close>

definition request_batches ::
    "(nat option list \<Rightarrow> nat option list) \<Rightarrow> ((bytes \<times> bytes) \<times> nat) list \<Rightarrow> (bytes \<times> nat) list \<Rightarrow> db2BatchUpdateT" where
  "request_batches ord puts dels = in_order ord
     (fold (\<lambda>(k, h). with_batch (Some h) (add_del k)) dels (fold (\<lambda>(kv, h). with_batch (Some h) (add_put kv)) puts []))"

text \<open>They are what the loops of the command leave for the last one, and can be written.\<close>

lemma handle_U_batches:
  assumes "lookups (sv_env S) (map fst kvs) w m = Inr (map Some ps, w1, m1)"
    and "lookups (sv_env S) dks w1 m1 = Inr (map Some ds, w2, m2)"
  shows "handle_U S [VArray (put_request kvs), VArray (map VBytes dks)] w m =
    res_bind (write_loop (sv_rocks S) (request_batches (sv_order S) (zip kvs ps) (zip dks ds)) m2)
      (\<lambda>(out1, m). Inr (out1, ONil, w2, m))"
  by (simp add: handle_U_def arr_def rd_def put_loop_run [OF assms(1)] del_loop_run [OF assms(2)] request_batches_def)

lemma request_batches:
  assumes "order_laws ord" "\<forall>n \<in> snd ` (set puts) \<union> snd ` (set dels). n < l"
  shows "writable l (request_batches ord puts dels)"
    "batch_of (request_batches ord puts dels) (Some n) =
      \<lparr>putkeys = map fst (routed puts n), putvalues = map snd (routed puts n), delkeys = routed dels n\<rparr>"
    "set (map fst (request_batches ord puts dels)) = Some ` (snd ` set puts \<union> snd ` set dels)"
proof -
  define bts where "bts = fold (\<lambda>(k, h). with_batch (Some h) (add_del k)) (zip (map fst dels) (map snd dels))
    (fold (\<lambda>(kv, h). with_batch (Some h) (add_put kv)) (zip (map fst puts) (map snd puts)) [])"
  have eq: "request_batches ord puts dels = in_order ord bts"
    by (simp add: request_batches_def bts_def zip_map_fst_snd)
  note b = update_batches [OF length_map [THEN trans, OF length_map [symmetric]]
      length_map [THEN trans, OF length_map [symmetric]] bts_def]
  note o = in_order_map_of [OF assms(1) b(1)]
  have of_bts: "batch_of (in_order ord bts) = batch_of bts" by (simp add: batch_of_def fun_eq_iff o(1))
  then show b': "batch_of (request_batches ord puts dels) (Some n) =
      \<lparr>putkeys = map fst (routed puts n), putvalues = map snd (routed puts n), delkeys = routed dels n\<rparr>" for n
    using b(3) [of n] by (simp add: eq zip_map_fst_snd)
  show "set (map fst (request_batches ord puts dels)) = Some ` (snd ` set puts \<union> snd ` set dels)"
    unfolding eq o(3) b(2) by simp
  have ok: "batches_ok (in_order ord bts) l"
    using o(2,3) b(2) assms(2) by (auto simp: batches_ok_def)
  have "length (putkeys bt) = length (putvalues bt)" if a: "(h, bt) \<in> set (in_order ord bts)" for h bt
  proof -
    obtain n where "h = Some n" using ok a by (force simp: batches_ok_def)
    then show ?thesis
      using b' [of n] map_of_is_SomeI [OF o(2) a] by (simp add: batch_of_def eq)
  qed
  then show "writable l (request_batches ord puts dels)"
    using ok by (auto simp: writable_def eq list_all_iff)
qed

section \<open>Writes that fail\<close>

text \<open>
  The loop stops at the first write that reports an error: the databases before it are written, those after it are not.
\<close>

definition stopped ::
    "('d, 'it, 'z) rocksdb_scheme \<Rightarrow> db2BatchUpdateT \<Rightarrow> db2BatchUpdateT \<Rightarrow> 'd list \<Rightarrow> 'd list \<Rightarrow> out_value \<Rightarrow> bool" where
  "stopped R pre post old new e \<longleftrightarrow> length new = length old
     \<and> (\<forall>n b. (Some n, b) \<in> set pre \<longrightarrow>
          st_ok (fst (db_write R (old ! n) (batch_ops b))) \<and> new ! n = snd (db_write R (old ! n) (batch_ops b)))
     \<and> (\<forall>n. Some n \<notin> set (map fst pre) \<longrightarrow> (post \<noteq> [] \<longrightarrow> fst (hd post) \<noteq> Some n) \<longrightarrow> new ! n = old ! n)
     \<and> (case post of [] \<Rightarrow> e = ONil | (h, b) # _ \<Rightarrow> \<exists>f s. h = Some f \<and> db_write R (old ! f) (batch_ops b) = (s, new ! f)
          \<and> \<not> st_ok s \<and> e = OString (bytes_of (st_string s)))"

lemma stopped_Cons:
  assumes "stopped R pre post (old[n := d]) new e" "Some n \<notin> set (map fst (pre @ post))" "n < length old"
    and "db_write R (old ! n) (batch_ops b) = (s, d)" "st_ok s"
  shows "stopped R ((Some n, b) # pre) post old new e"
proof -
  note S = assms(1) [unfolded stopped_def]
  note written = S [THEN conjunct2, THEN conjunct1, rule_format]
    and others = S [THEN conjunct2, THEN conjunct2, THEN conjunct1, rule_format]
    and last = S [THEN conjunct2, THEN conjunct2, THEN conjunct2]
  have len: "length new = length old" using S [THEN conjunct1] by simp
  have pre: "st_ok (fst (db_write R (old ! i) (batch_ops c))) \<and> new ! i = snd (db_write R (old ! i) (batch_ops c))"
    if "(Some i, c) \<in> set pre" for i c
  proof -
    have "i \<noteq> n" using assms(2) that by force
    then show ?thesis using written [OF that] by simp
  qed
  have "new ! n = d" using others [of n] assms(2,3) by (cases post) auto
  moreover have "case post of [] \<Rightarrow> e = ONil | (h, b) # _ \<Rightarrow> \<exists>f s. h = Some f \<and> db_write R (old ! f) (batch_ops b) = (s, new ! f)
          \<and> \<not> st_ok s \<and> e = OString (bytes_of (st_string s))"
  proof (cases post)
    case (Cons y ys)
    obtain f c where y: "y = (Some f, c)" using last Cons by (cases y) auto
    then have "f \<noteq> n" using assms(2) Cons by force
    then show ?thesis using last Cons y by simp
  qed (use last in simp)
  moreover have "new ! i = old ! i" if "Some i \<notin> set (map fst ((Some n, b) # pre))" "post \<noteq> [] \<longrightarrow> fst (hd post) \<noteq> Some i" for i
    using others [of i] that by simp
  ultimately show ?thesis
    using len pre assms(4,5) unfolding stopped_def by simp
qed

lemma write_loop_stops:
  assumes "\<And>d b. status_wf (fst (db_write R d b))" "writable (length (dbs m)) bts"
  shows "\<exists>e ds pre post. write_loop R bts m = Inr (e, m\<lparr>dbs := ds\<rparr>) \<and> bts = pre @ post \<and> stopped R pre post (dbs m) ds e"
  using assms(2)
proof (induction bts arbitrary: m)
  case Nil
  show ?case by (intro exI [of _ ONil] exI [of _ "dbs m"]) (simp add: stopped_def)
next
  case (Cons x bts)
  obtain n b where x: "x = (Some n, b)" "n < length (dbs m)" "length (putkeys b) = length (putvalues b)"
    "Some n \<notin> set (map fst bts)"
    using Cons.prems by (cases x) (auto simp: writable_def batches_ok_def)
  obtain s d where w: "db_write R (dbs m ! n) (batch_ops b) = (s, d)" by fastforce
  let ?m = "m\<lparr>dbs := (dbs m)[n := d]\<rparr>"
  have loop: "write_loop R (x # bts) m = (if st_ok s then write_loop R bts ?m else Inr (OString (bytes_of (st_string s)), ?m))"
    using assms(1) [of "dbs m ! n" "batch_ops b"] x w
    by (simp add: db_at_def put_db_def Ndb_update_def put_ops_zip batch_ops_def to_codec_value_def status_wf_def)
  show ?case
  proof (cases "st_ok s")
    case True
    have "writable (length (dbs ?m)) bts" using Cons.prems by (simp add: writable_def batches_ok_def)
    from Cons.IH [OF this] obtain e ds pre post where IH: "write_loop R bts ?m = Inr (e, m\<lparr>dbs := ds\<rparr>)" "bts = pre @ post"
      "stopped R pre post ((dbs m)[n := d]) ds e"
      by auto
    from stopped_Cons [OF IH(3) _ x(2) w True] x(4) have "stopped R (x # pre) post (dbs m) ds e"
      by (simp add: IH(2) x(1))
    then show ?thesis
      using loop True IH(1,2) by (intro exI [of _ e] exI [of _ ds] exI [of _ "x # pre"] exI [of _ post]) simp
  next
    case False
    then have "stopped R [] (x # bts) (dbs m) (dbs ?m) (OString (bytes_of (st_string s)))"
      using w x by (auto simp: stopped_def)
    then show ?thesis using loop False by (intro exI) auto
  qed
qed

section \<open>Requests that run at the same time\<close>

text \<open>The database of a key is open, and is found in the state as it is.\<close>

definition at_home :: "('w, 'd, 'it, 'o) server \<Rightarrow> 'w \<Rightarrow> 'd manager \<Rightarrow> bytes \<Rightarrow> nat \<Rightarrow> bool" where
  "at_home S w m k n \<longleftrightarrow> ndbForKey (sv_env S) k (w, m, []) = Inr (Some n, w, m, []) \<and> n < length (dbs m)"

lemma at_home_again: "at_home S w m k n \<Longrightarrow> length ds = length (dbs m) \<Longrightarrow> at_home S w' (m\<lparr>dbs := ds\<rparr>) k n"
  using lookup_again [of "sv_env S" k w m n w' ds] by (simp add: at_home_def)

lemma lookups_home: "\<forall>k \<in> set ks. at_home S w m k (db k) \<Longrightarrow> lookups (sv_env S) ks w m = Inr (map Some (map db ks), w, m)"
  by (induction ks) (simp_all add: at_home_def)

text \<open>The first two loops of the command end without an error and leave these batches for the last one.\<close>

definition leaves :: "('w, 'd, 'it, 'o) server \<Rightarrow> (bytes \<times> bytes) list \<Rightarrow> bytes list \<Rightarrow> 'w \<Rightarrow> 'd manager \<Rightarrow> db2BatchUpdateT \<Rightarrow> bool" where
  "leaves S kvs dks w m bts \<longleftrightarrow>
     res_bind (put_loop (sv_env S) (put_request kvs) [] w m) (\<lambda>(out1, bts, w, m).
       if out1 \<noteq> ONil then Inr (out1, bts, w, m) else del_loop (sv_env S) (map VBytes dks) bts w m) = Inr (ONil, bts, w, m)"

lemma handle_U_leaves:
  assumes "leaves S kvs dks w m bts"
  shows "handle_U S [VArray (put_request kvs), VArray (map VBytes dks)] w m =
    res_bind (write_loop (sv_rocks S) (in_order (sv_order S) bts) m) (\<lambda>(out1, m). Inr (out1, ONil, w, m))"
  using assms by (auto simp: leaves_def handle_U_def arr_def rd_def res_bind_Inr_iff split: if_splits)

text \<open>All the changes of a request to the database \<open>n\<close>, when \<open>db\<close> gives the database of a key.\<close>

definition changes :: "(bytes \<Rightarrow> nat) \<Rightarrow> nat \<Rightarrow> (bytes \<times> bytes) list \<Rightarrow> bytes list \<Rightarrow> batch_op list" where
  "changes db n kvs dks = map (\<lambda>(k, v). Put k v) (filter (\<lambda>(k, v). db k = n) kvs) @ map Delete (filter (\<lambda>k. db k = n) dks)"

lemma routed_zip: "routed (zip xs (map f xs)) n = filter (\<lambda>x. f x = n) xs"
  by (induction xs) simp_all

definition left_batches :: "(bytes \<Rightarrow> nat) \<Rightarrow> (bytes \<times> bytes) list \<Rightarrow> bytes list \<Rightarrow> db2BatchUpdateT" where
  "left_batches db kvs dks = fold (\<lambda>(k, h). with_batch (Some h) (add_del k)) (zip dks (map db dks))
     (fold (\<lambda>(kv, h). with_batch (Some h) (add_put kv)) (zip kvs (map (db \<circ> fst) kvs)) [])"

lemma leaves_batches:
  assumes "\<forall>k \<in> set (map fst kvs @ dks). at_home S w m k (db k)"
  shows "leaves S kvs dks w m (left_batches db kvs dks)"
proof -
  have l: "lookups (sv_env S) (map fst kvs) w m = Inr (map Some (map (db \<circ> fst) kvs), w, m)"
    "lookups (sv_env S) dks w m = Inr (map Some (map db dks), w, m)"
    using lookups_home [of "map fst kvs" S w m db] lookups_home [of dks S w m db] assms by simp_all
  show ?thesis by (simp add: leaves_def put_loop_run [OF l(1)] del_loop_run [OF l(2)] left_batches_def)
qed

lemma left_batches:
  assumes "order_laws ord" "\<forall>k \<in> set (map fst kvs @ dks). db k < l"
  shows "writable l (in_order ord (left_batches db kvs dks))"
    "batch_ops (batch_of (in_order ord (left_batches db kvs dks)) (Some n)) = changes db n kvs dks"
    "fst ` set (in_order ord (left_batches db kvs dks)) = Some ` db ` set (map fst kvs @ dks)"
proof -
  let ?p = "zip kvs (map (db \<circ> fst) kvs)" and ?d = "zip dks (map db dks)"
  have eq: "in_order ord (left_batches db kvs dks) = request_batches ord ?p ?d"
    by (simp add: left_batches_def request_batches_def)
  have homes: "snd ` set ?p \<union> snd ` set ?d = db ` set (map fst kvs @ dks)"
    by (simp flip: set_map add: image_Un image_comp)
  have "\<forall>n \<in> snd ` set ?p \<union> snd ` set ?d. n < l" unfolding homes using assms(2) by blast
  note b = request_batches [OF assms(1) this]
  show "writable l (in_order ord (left_batches db kvs dks))" unfolding eq by (rule b(1))
  show "fst ` set (in_order ord (left_batches db kvs dks)) = Some ` db ` set (map fst kvs @ dks)"
    using b(3) unfolding eq homes by (simp add: image_comp)
  have eq_fun: "(\<lambda>(k :: bytes, v :: bytes). db k = n) = (\<lambda>x. db (fst x) = n)" for n by (rule ext) (simp add: split_beta)
  show "batch_ops (batch_of (in_order ord (left_batches db kvs dks)) (Some n)) = changes db n kvs dks"
    unfolding eq b(2) by (simp add: batch_ops_def changes_def routed_zip zip_map_fst_snd eq_fun)
qed

text \<open>Two requests that put the same keys of two databases.\<close>

abbreviation put_one :: "bytes \<Rightarrow> bytes \<Rightarrow> dbBatchUpdateT" where
  "put_one k v \<equiv> \<lparr>putkeys = [k], putvalues = [v], delkeys = []\<rparr>"

context lawful_db
begin

lemma put_one_step:
  assumes "writes_succeed R" "todo i = (Some n, put_one k v) # bts" "n < length (dbs m)"
  obtains d where "write_step R (m, todo) (m\<lparr>dbs := (dbs m)[n := d]\<rparr>, todo(i := bts))" "map_of (cont d) k = Some v"
proof
  let ?d = "snd (db_write R (dbs m ! n) (batch_ops (put_one k v)))"
  show "write_step R (m, todo) (m\<lparr>dbs := (dbs m)[n := ?d]\<rparr>, todo(i := bts))"
    using write_step.batch [of todo i "Some n" "put_one k v" bts m "dbs m ! n" R ?d "[]", OF assms(2)] Ndb_update_ok [OF assms(1), of "put_one k v" "dbs m ! n"] assms(3)
    by (simp add: db_at_def put_db_def)
  show "map_of (cont ?d) k = Some v"
    using batch_stored [OF laws assms(1), of "dbs m ! n" "put_one k v" k] by simp
qed

text \<open>The request \<open>p\<close> writes \<open>a\<close> first and \<open>b\<close> last; \<open>q\<close> writes both in between.\<close>

lemma mixed_run:
  assumes "writes_succeed R" "a < length (dbs m)" "b < length (dbs m)" "a \<noteq> b" "p \<noteq> q"
    and "todo p = [(Some a, put_one ka x), (Some b, put_one kb x)]" "todo q = [(Some a, put_one ka y), (Some b, put_one kb y)]"
    and "\<forall>i. i \<noteq> p \<longrightarrow> i \<noteq> q \<longrightarrow> todo i = []"
  shows "\<exists>m'. (write_step R)\<^sup>*\<^sup>* (m, todo) (m', \<lambda>_. [])
    \<and> map_of (cont (dbs m' ! a)) ka = Some y \<and> map_of (cont (dbs m' ! b)) kb = Some x"
proof -
  let ?t1 = "todo(p := [(Some b, put_one kb x)])"
  let ?t2 = "?t1(q := [(Some b, put_one kb y)])"
  let ?t3 = "?t2(q := [])"
  obtain d1 where 1: "write_step R (m, todo) (m\<lparr>dbs := (dbs m)[a := d1]\<rparr>, ?t1)"
    by (rule put_one_step [of todo p a ka x "[(Some b, put_one kb x)]" m, OF assms(1,6,2)])
  obtain d2 where 2: "write_step R (m\<lparr>dbs := (dbs m)[a := d1]\<rparr>, ?t1) (m\<lparr>dbs := (dbs m)[a := d2]\<rparr>, ?t2)"
    "map_of (cont d2) ka = Some y"
    using put_one_step [OF assms(1), of ?t1 q a ka y "[(Some b, put_one kb y)]" "m\<lparr>dbs := (dbs m)[a := d1]\<rparr>"] assms by auto
  obtain d3 where 3: "write_step R (m\<lparr>dbs := (dbs m)[a := d2]\<rparr>, ?t2) (m\<lparr>dbs := (dbs m)[a := d2, b := d3]\<rparr>, ?t3)"
    using put_one_step [OF assms(1), of ?t2 q b kb y "[]" "m\<lparr>dbs := (dbs m)[a := d2]\<rparr>"] assms by auto
  obtain d4 where 4: "write_step R (m\<lparr>dbs := (dbs m)[a := d2, b := d3]\<rparr>, ?t3) (m\<lparr>dbs := (dbs m)[a := d2, b := d4]\<rparr>, ?t3(p := []))"
    "map_of (cont d4) kb = Some x"
    using put_one_step [OF assms(1), of ?t3 p b kb x "[]" "m\<lparr>dbs := (dbs m)[a := d2, b := d3]\<rparr>"] assms by auto
  note steps = converse_rtranclp_into_rtranclp [OF 1 converse_rtranclp_into_rtranclp [OF 2(1)
      converse_rtranclp_into_rtranclp [OF 3 r_into_rtranclp [of "write_step R", OF 4(1)]]]]
  have "?t3(p := []) = (\<lambda>_. [])" using assms(8) by auto
  then show ?thesis
    using steps 2(2) 4(2) assms(2-4) by (intro exI [of _ "m\<lparr>dbs := (dbs m)[a := d2, b := d4]\<rparr>"]) simp
qed

end

lemma two_keys:
  assumes "at_home S w m k0 n0" "at_home S w m k1 n1" "n0 \<noteq> n1"
  shows "leaves S [(k0, x), (k1, x)] [] w m [(Some n0, put_one k0 x), (Some n1, put_one k1 x)]"
    "lookups (sv_env S) (map fst [(k0, x), (k1, x)]) w m = Inr (map Some [n0, n1], w, m)"
  using assms
  by (simp_all add: leaves_def put_request_def at_home_def bytes_member_def with_batch_def getT_def empty_batch_def)

lemma distinct_two:
  assumes "distinct xs" "set xs = {a, b}" "a \<noteq> b"
  shows "xs = [a, b] \<or> xs = [b, a]"
proof -
  have "length xs = 2" using distinct_card [OF assms(1)] assms(2,3) by simp
  then obtain x y where "xs = [x, y]" by (auto simp: length_Suc_conv numeral_2_eq_2)
  then show ?thesis using assms by (auto simp: doubleton_eq_iff)
qed

lemma two_in_order:
  assumes "order_laws ord" "n0 \<noteq> n1"
  shows "(\<forall>b0 b1. in_order ord [(Some n0, b0), (Some n1, b1)] = [(Some n0, b0), (Some n1, b1)])
       \<or> (\<forall>b0 b1. in_order ord [(Some n0, b0), (Some n1, b1)] = [(Some n1, b1), (Some n0, b0)])"
proof -
  have "distinct (ord [Some n0, Some n1])" "set (ord [Some n0, Some n1]) = {Some n0, Some n1}"
    using assms unfolding order_laws_def by (metis (no_types) distinct_length_2_or_more distinct_singleton option.inject
        empty_set list.simps(15))+
  from distinct_two [OF this] assms(2) show ?thesis by (auto simp: in_order_def)
qed

text \<open>One of these requests that is served alone.\<close>

lemma two_keys_alone:
  assumes "db_laws (sv_rocks S) cont snap pos" "writes_succeed (sv_rocks S)" "order_laws (sv_order S)"
    and "at_home S w m k0 n0" "at_home S w m k1 n1" "n0 \<noteq> n1" "length ds = length (dbs m)"
  shows "\<exists>ds'. handle_U S [VArray (put_request [(k0, x), (k1, x)]), VArray []] w (m\<lparr>dbs := ds\<rparr>) = Inr (ONil, ONil, w, m\<lparr>dbs := ds'\<rparr>)
    \<and> length ds' = length (dbs m) \<and> map_of (cont (ds' ! n0)) k0 = Some x \<and> map_of (cont (ds' ! n1)) k1 = Some x"
proof -
  let ?m = "m\<lparr>dbs := ds\<rparr>"
  let ?bts = "fold (\<lambda>(k, h). with_batch (Some h) (add_del k)) (zip [] [])
      (fold (\<lambda>(kv, h). with_batch (Some h) (add_put kv)) (zip [(k0, x), (k1, x)] [n0, n1]) [])"
  let ?ds' = "written (sv_rocks S) (map_of ?bts) ds"
  have h: "at_home S w ?m k0 n0" "at_home S w ?m k1 n1" by (rule at_home_again [OF assms(4,7)], rule at_home_again [OF assms(5,7)])
  then have n: "n0 < length ds" "n1 < length ds" by (simp_all add: at_home_def)
  have len: "length [(k0, x), (k1, x)] = length [n0, n1]" "length ([] :: bytes list) = length ([] :: nat list)" by simp_all
  have "write_loop (sv_rocks S) (in_order (sv_order S) ?bts) ?m = Inr (ONil, ?m\<lparr>dbs := ?ds'\<rparr>)"
    using write_batches [OF assms(2,3) len refl, of ?m] n by simp
  then have "handle_U S [VArray (put_request [(k0, x), (k1, x)]), VArray (map VBytes [])] w ?m = Inr (ONil, ONil, w, ?m\<lparr>dbs := ?ds'\<rparr>)"
    using handle_U_batches [OF two_keys(2) [OF h assms(6)], of "[]" "[]" w ?m x] by (simp add: request_batches_def)
  moreover have "map_of (cont (?ds' ! n0)) k0 = Some x" "map_of (cont (?ds' ! n1)) k1 = Some x"
    using written_batches [OF assms(1,2) n(1) update_batches(3) [OF len refl], of k0]
      written_batches [OF assms(1,2) n(2) update_batches(3) [OF len refl], of k1] assms(6) by simp_all
  ultimately show ?thesis using assms(7) by (intro exI [of _ ?ds']) (simp add: length_written)
qed

text \<open>Two databases of a server that are open.\<close>

lemma full_lookups:
  obtains w m where "lookups (sv_env (demo_server [] v)) [demo_key 2, demo_key 3] [] (mem_manager True) = Inr (map Some [0, 1], w, m)"
    "dbs m = [[], []]"
proof -
  have "case lookups mem_env [demo_key 2, demo_key 3] [] (mem_manager True) of
      Inl _ \<Rightarrow> False | Inr (hs, w, m) \<Rightarrow> hs = [Some 0, Some 1] \<and> dbs m = [[], []]"
    by code_simp
  moreover have "sv_env (demo_server [] v) = mem_env" by (simp add: demo_server_def mem_env_def)
  ultimately show ?thesis using that by (auto split: sum.splits prod.splits)
qed


lemma full_homes:
  obtains w m where "at_home (demo_server [] v) w m (demo_key 2) 0" "at_home (demo_server [] v) w m (demo_key 3) 1" "dbs m = [[], []]"
proof -
  obtain w m where l: "lookups (sv_env (demo_server [] v)) [demo_key 2, demo_key 3] [] (mem_manager True) = Inr (map Some [0, 1], w, m)"
    "dbs m = [[], []]"
    by (rule full_lookups)
  have "at_home (demo_server [] v) w m ([demo_key 2, demo_key 3] ! i) i" if i: "i < 2" for i
  proof -
    obtain k where "route (mem_manager True :: mem_db manager) ([demo_key 2, demo_key 3] ! i) = Inr (Inr k)" "db_look m k = Some i"
      using lookups_route [OF l(1), of i i] i by (auto simp: less_2_cases_iff)
    then show ?thesis
      using route_same_setup [OF lookups_setup [OF l(1)]] l(2) i by (simp add: at_home_def ndbForKey_route db_fetch_hit)
  qed
  from this [of 0] this [of 1] show ?thesis using that l(2) by simp
qed

section \<open>Properties\<close>

text \<open>
  C7. Updates that run at the same time, over databases that are open, when all writes succeed.  The first two loops of each request
  leave the same batches whenever it runs them, whatever the others have stored by then, and the request goes on to
  write exactly these.  Let the writes of all
  these batches interleave in any way: at any time every database is what the requests that have written to it make of it
  one after the other in some order.  These are requests with keys of that database, each counts once, and each has
  then made all its changes there: the puts and the deletes of all of its keys that go to the database.  So no
  request is ever seen in part within a database.  That RocksDB writes one batch undivided is what the step assumes.
\<close>

theorem updates_atomic_per_database:
  assumes "db_laws (sv_rocks S) cont snap pos" "writes_succeed (sv_rocks S)" "order_laws (sv_order S)"
    and "\<And>i k. k \<in> set (map fst (kvs i) @ dks i) \<Longrightarrow> at_home S w m k (db k)"
  shows "\<exists>left. (\<forall>i w' ds. length ds = length (dbs m) \<longrightarrow> leaves S (kvs i) (dks i) w' (m\<lparr>dbs := ds\<rparr>) (left i)
        \<and> handle_U S [VArray (put_request (kvs i)), VArray (map VBytes (dks i))] w' (m\<lparr>dbs := ds\<rparr>) =
            res_bind (write_loop (sv_rocks S) (in_order (sv_order S) (left i)) (m\<lparr>dbs := ds\<rparr>)) (\<lambda>(e, m). Inr (e, ONil, w', m)))
    \<and> (\<forall>m' todo. (write_step (sv_rocks S))\<^sup>*\<^sup>* (m, \<lambda>i. in_order (sv_order S) (left i)) (m', todo) \<longrightarrow>
        (\<forall>n < length (dbs m). \<exists>order. distinct order
           \<and> set order = {i. n \<in> db ` set (map fst (kvs i) @ dks i) \<and> Some n \<notin> fst ` set (todo i)}
           \<and> map_of (cont (dbs m' ! n)) = fold (\<lambda>i. apply_batch (changes db n (kvs i) (dks i))) order (map_of (cont (dbs m ! n)))))"
proof -
  let ?left = "\<lambda>i. left_batches db (kvs i) (dks i)"
  let ?todo0 = "\<lambda>i. in_order (sv_order S) (?left i)"
  have home: "\<forall>k \<in> set (map fst (kvs i) @ dks i). at_home S w m k (db k)" for i using assms(4) by blast
  then have bound: "\<forall>k \<in> set (map fst (kvs i) @ dks i). db k < length (dbs m)" for i by (simp add: at_home_def)
  note b = left_batches [OF assms(3) bound]
  have law: "lawful_db (sv_rocks S) cont snap pos" by unfold_locales (rule assms(1))
  have "\<exists>order. distinct order \<and> set order = {i. n \<in> db ` set (map fst (kvs i) @ dks i) \<and> Some n \<notin> fst ` set (todo i)}
      \<and> map_of (cont (dbs m' ! n)) = fold (\<lambda>i. apply_batch (changes db n (kvs i) (dks i))) order (map_of (cont (dbs m ! n)))"
    if run: "(write_step (sv_rocks S))\<^sup>*\<^sup>* (m, ?todo0) (m', todo)" and n: "n < length (dbs m)" for m' todo n
  proof -
    have "written_by ?todo0 todo n = {i. n \<in> db ` set (map fst (kvs i) @ dks i) \<and> Some n \<notin> fst ` set (todo i)}"
      using b(3) by (auto simp: written_by_def)
    moreover have "applied ?todo0 n = fold (\<lambda>i. apply_batch (changes db n (kvs i) (dks i)))"
      by (simp add: applied_def b(2) fun_eq_iff)
    moreover obtain order where "distinct order" "set order = written_by ?todo0 todo n"
      "map_of (cont (dbs m' ! n)) = applied ?todo0 n order (map_of (cont (dbs m ! n)))"
      using lawful_db.written_in_order_steps [OF law assms(2) b(1) run] n
      unfolding lawful_db.written_in_order_def [OF law] prod.case by blast
    ultimately show ?thesis by (intro exI [of _ order]) (simp only: simp_thms)
  qed
  moreover have "leaves S (kvs i) (dks i) w' (m\<lparr>dbs := ds\<rparr>) (?left i)" if "length ds = length (dbs m)" for i w' ds
    by (rule leaves_batches, intro ballI, erule at_home_again [OF assms(4) that])
  note this handle_U_leaves [OF this]
  ultimately show ?thesis by (intro exI [of _ ?left] conjI allI impI)
qed

theorem updates_atomic_per_database_witness:
  "\<exists>w (m :: mem_db manager) left m' order. (\<forall>i < 2. leaves (demo_server [] VNil) [(demo_key 2, [of_nat i]), (demo_key 3, [of_nat i])] [] w m (left i))
     \<and> (write_step mem_rocks)\<^sup>*\<^sup>* (m, \<lambda>i. in_order rev (left i)) (m', \<lambda>_. [])
     \<and> set order = {0, 1} \<and> map_of (mem_entries (dbs m' ! 1)) =
         fold (\<lambda>i :: nat. apply_batch [Put (demo_key 3) [of_nat i]]) order Map.empty"
proof -
  let ?S = "demo_server [] VNil"
  obtain w m where h: "at_home ?S w m (demo_key 2) 0" "at_home ?S w m (demo_key 3) 1" "dbs m = [[], []]"
    by (rule full_homes)
  have ne: "demo_key 2 \<noteq> demo_key 3" by code_simp
  define kvs :: "nat \<Rightarrow> (bytes \<times> bytes) list" where
    "kvs = (\<lambda>i. if i < 2 then [(demo_key 2, [of_nat i]), (demo_key 3, [of_nat i])] else [])"
  define db where "db = (\<lambda>k. if k = demo_key 2 then 0 else 1 :: nat)"
  have homes: "at_home ?S w m k (db k)" if "k \<in> set (map fst (kvs i) @ [])" for i k
    using that h ne by (auto simp: kvs_def db_def split: if_splits)
  have laws: "db_laws (sv_rocks ?S) mem_entries mem_snap mem_pos" "writes_succeed (sv_rocks ?S)" "order_laws (sv_order ?S)"
    using mem_db_laws demo_server_laws(1) [of "[]" VNil] demo_server_laws(3) by simp_all
  obtain left where leaves: "\<forall>i w' ds. length ds = length (dbs m) \<longrightarrow> leaves ?S (kvs i) [] w' (m\<lparr>dbs := ds\<rparr>) (left i)"
    and runs: "\<forall>m' todo. (write_step (sv_rocks ?S))\<^sup>*\<^sup>* (m, \<lambda>i. in_order (sv_order ?S) (left i)) (m', todo) \<longrightarrow>
        (\<forall>n < length (dbs m). \<exists>order. distinct order \<and> set order = {i. n \<in> db ` set (map fst (kvs i) @ []) \<and> Some n \<notin> fst ` set (todo i)}
           \<and> map_of (mem_entries (dbs m' ! n)) = fold (\<lambda>i. apply_batch (changes db n (kvs i) [])) order (map_of (mem_entries (dbs m ! n))))"
    by (rule exE [OF updates_atomic_per_database [where kvs = kvs and dks = "\<lambda>_. []" and w = w and m = m and db = db, OF laws]])
      (erule homes, elim conjE, rule that, simp_all)
  have L: "leaves ?S (kvs i) [] w m (left i)" for i
    using leaves [rule_format, of "dbs m" i w] by simp
  have left: "left i = [(Some 0, put_one (demo_key 2) [of_nat i]), (Some 1, put_one (demo_key 3) [of_nat i])]" if "i < 2" for i
    using L [of i] two_keys(1) [OF h(1,2), of "[of_nat i]"] that by (simp add: leaves_def kvs_def)
  have empty: "left i = []" if "2 \<le> i" for i
    using L [of i] that by (simp add: leaves_def kvs_def put_request_def)
  have in_ord: "in_order rev (left i) = [(Some 1, put_one (demo_key 3) [of_nat i]), (Some 0, put_one (demo_key 2) [of_nat i])]" if "i < 2" for i
    using that by (simp add: left in_order_def)
  have in_none: "\<forall>i. i \<noteq> 0 \<longrightarrow> i \<noteq> 1 \<longrightarrow> in_order rev (left i) = []"
    using empty by (simp add: in_order_def)
  obtain m' where r: "(write_step mem_rocks)\<^sup>*\<^sup>* (m, \<lambda>i. in_order rev (left i)) (m', \<lambda>_. [])"
    using mem.mixed_run [of 1 m 0 0 1 "\<lambda>i. in_order rev (left i)" "demo_key 3" "[of_nat 0]" "demo_key 2" "[of_nat 1]"] h(3)
      in_ord [of 0] in_ord [of 1] in_none by (auto simp: demo_server_laws(3))
  obtain order where o: "set order = {i. 1 \<in> db ` set (map fst (kvs i))}"
    "map_of (mem_entries (dbs m' ! 1)) = fold (\<lambda>i. apply_batch (changes db 1 (kvs i) [])) order (map_of (mem_entries (dbs m ! 1)))"
    using runs [rule_format, of m' "\<lambda>_. []" 1] r h(3) by auto
  have firsts: "map fst (kvs i) = (if i < 2 then [demo_key 2, demo_key 3] else [])" for i by (simp add: kvs_def)
  have "1 \<in> db ` set (map fst (kvs i)) \<longleftrightarrow> i < 2" for i unfolding firsts using ne by (cases "i < 2") (simp_all add: db_def)
  then have s: "set order = {0, 1}" unfolding o(1) by (auto simp: less_2_cases_iff)
  have "changes db 1 (kvs i) [] = [Put (demo_key 3) [of_nat i]]" if "i \<in> set order" for i
    using that ne unfolding s by (auto simp: changes_def kvs_def db_def)
  then have "map_of (mem_entries (dbs m' ! 1)) = fold (\<lambda>i. apply_batch [Put (demo_key 3) [of_nat i]]) order Map.empty"
    using o(2) h(3) by (simp add: mem_entries_def cong: fold_cong)
  moreover have "leaves ?S [(demo_key 2, [of_nat i]), (demo_key 3, [of_nat i])] [] w m (left i)" if "i < 2" for i
    using L [of i] that by (simp add: kvs_def)
  ultimately show ?thesis
    using r s by (intro exI [of _ w] exI [of _ m] exI [of _ left] exI [of _ m'] exI [of _ order]) simp
qed

text \<open>
  C26. Over several databases updates are not atomic.  Let two keys have different databases that are open, and let
  update requests put a value \<open>x\<close> for both keys.  The loops of a request leave two batches.  For any two such
  requests, with \<open>u\<close> and with \<open>v\<close>, there is an interleaving of their writes, each in the order of the map, that ends with both
  served, with the first key at \<open>u\<close> and the second at \<open>v\<close>; served one after the other, and so in either order, they leave
  both keys at the value of the last.
\<close>

theorem updates_can_mix:
  assumes "db_laws (sv_rocks S) cont snap pos" "writes_succeed (sv_rocks S)" "order_laws (sv_order S)"
    and "at_home S w m k0 n0" "at_home S w m k1 n1" "n0 \<noteq> n1"
  shows "\<exists>left. (\<forall>x. leaves S [(k0, x), (k1, x)] [] w m (left x))
    \<and> (\<forall>u v. (\<exists>m'. (write_step (sv_rocks S))\<^sup>*\<^sup>* (m, (\<lambda>_. [])(0 := in_order (sv_order S) (left u), 1 := in_order (sv_order S) (left v))) (m', \<lambda>_. [])
           \<and> map_of (cont (dbs m' ! n0)) k0 = Some u \<and> map_of (cont (dbs m' ! n1)) k1 = Some v)
       \<and> (\<exists>m1 m2. handle_U S [VArray (put_request [(k0, u), (k1, u)]), VArray []] w m = Inr (ONil, ONil, w, m1)
           \<and> handle_U S [VArray (put_request [(k0, v), (k1, v)]), VArray []] w m1 = Inr (ONil, ONil, w, m2)
           \<and> map_of (cont (dbs m2 ! n0)) k0 = Some v \<and> map_of (cont (dbs m2 ! n1)) k1 = Some v))"
proof -
  let ?left = "\<lambda>x. [(Some n0, put_one k0 x), (Some n1, put_one k1 x)]"
  have law: "lawful_db (sv_rocks S) cont snap pos" by unfold_locales (rule assms(1))
  have n: "n0 < length (dbs m)" "n1 < length (dbs m)" using assms(4,5) by (simp_all add: at_home_def)
  note mixed = lawful_db.mixed_run [OF law assms(2)]
  have mix: "\<exists>m'. (write_step (sv_rocks S))\<^sup>*\<^sup>* (m, (\<lambda>_. [])(0 := in_order (sv_order S) (?left u), 1 := in_order (sv_order S) (?left v))) (m', \<lambda>_. [])
      \<and> map_of (cont (dbs m' ! n0)) k0 = Some u \<and> map_of (cont (dbs m' ! n1)) k1 = Some v" for u v
    using two_in_order [OF assms(3,6)]
  proof
    assume o: "\<forall>b0 b1. in_order (sv_order S) [(Some n0, b0), (Some n1, b1)] = [(Some n0, b0), (Some n1, b1)]"
    show ?thesis by (rule mixed [where p = 1 and q = 0]) (use n assms(6) o in simp_all)
  next
    assume o: "\<forall>b0 b1. in_order (sv_order S) [(Some n0, b0), (Some n1, b1)] = [(Some n1, b1), (Some n0, b0)]"
    have "\<exists>m'. (write_step (sv_rocks S))\<^sup>*\<^sup>* (m, (\<lambda>_. [])(0 := in_order (sv_order S) (?left u), 1 := in_order (sv_order S) (?left v))) (m', \<lambda>_. [])
      \<and> map_of (cont (dbs m' ! n1)) k1 = Some v \<and> map_of (cont (dbs m' ! n0)) k0 = Some u"
      by (rule mixed [where p = 0 and q = 1]) (use n assms(6) o in simp_all)
    then show ?thesis by (simp only: conj_commute conj_left_commute)
  qed
  have serial: "\<exists>m1 m2. handle_U S [VArray (put_request [(k0, u), (k1, u)]), VArray []] w m = Inr (ONil, ONil, w, m1)
      \<and> handle_U S [VArray (put_request [(k0, v), (k1, v)]), VArray []] w m1 = Inr (ONil, ONil, w, m2)
      \<and> map_of (cont (dbs m2 ! n0)) k0 = Some v \<and> map_of (cont (dbs m2 ! n1)) k1 = Some v" for u v
  proof -
    note alone = two_keys_alone [OF assms]
    obtain d1 where 1: "handle_U S [VArray (put_request [(k0, u), (k1, u)]), VArray []] w m = Inr (ONil, ONil, w, m\<lparr>dbs := d1\<rparr>)"
      "length d1 = length (dbs m)"
      using alone [OF refl, of u] by auto
    obtain d2 where "handle_U S [VArray (put_request [(k0, v), (k1, v)]), VArray []] w (m\<lparr>dbs := d1\<rparr>) = Inr (ONil, ONil, w, m\<lparr>dbs := d2\<rparr>)"
      "map_of (cont (d2 ! n0)) k0 = Some v" "map_of (cont (d2 ! n1)) k1 = Some v"
      using alone [OF 1(2), of v] by auto
    with 1(1) show ?thesis by (intro exI [of _ "m\<lparr>dbs := d1\<rparr>"] exI [of _ "m\<lparr>dbs := d2\<rparr>"]) simp
  qed
  show ?thesis
    by (rule exI [of _ ?left], intro conjI allI two_keys(1) [OF assms(4-6)] mix serial)
qed

theorem updates_can_mix_witness:
  "\<exists>w (m :: mem_db manager) left m'. (\<forall>x. leaves (demo_server [] VNil) [(demo_key 2, x), (demo_key 3, x)] [] w m (left x))
     \<and> (write_step mem_rocks)\<^sup>*\<^sup>* (m, (\<lambda>_. [])(0 := in_order rev (left [5]), 1 := in_order rev (left [6]))) (m', \<lambda>_. [])
     \<and> map_of (mem_entries (dbs m' ! 0)) (demo_key 2) = Some [5] \<and> map_of (mem_entries (dbs m' ! 1)) (demo_key 3) = Some [6]"
proof -
  let ?S = "demo_server [] VNil"
  obtain w m where h: "at_home ?S w m (demo_key 2) 0" "at_home ?S w m (demo_key 3) 1"
    by (rule full_homes)
  have o: "order_laws rev" using demo_server_laws(1) [of "[]" VNil] by simp
  show ?thesis
    using updates_can_mix [of ?S mem_entries mem_snap mem_pos w m, OF _ _ _ h] o
    by (simp add: mem_db_laws demo_server_laws(3)) blast
qed

text \<open>What a batch makes of the entries of a database.\<close>

lemma apply_batch_ops:
  "apply_batch (batch_ops b) c k = (if k \<in> set (delkeys b) then None
     else case map_of (rev (zip (putkeys b) (putvalues b))) k of Some v \<Rightarrow> Some v | None \<Rightarrow> c k)"
  by (auto simp: batch_ops_def apply_batch_append apply_batch_puts apply_batch_deletes restrict_map_def map_add_def split: option.split)

lemma request_batch_effect:
  assumes "order_laws ord" "\<forall>n \<in> snd ` (set puts) \<union> snd ` (set dels). n < l" "(Some n, c) \<in> set (request_batches ord puts dels)"
  shows "batch_ops c = map (\<lambda>(k, v). Put k v) (routed puts n) @ map Delete (routed dels n)"
    "apply_batch (batch_ops c) g k = (if k \<in> set (routed dels n) then None
       else case map_of (rev (routed puts n)) k of Some v \<Rightarrow> Some v | None \<Rightarrow> g k)"
proof -
  note b = request_batches [OF assms(1,2)]
  have "map_of (request_batches ord puts dels) (Some n) = Some c"
    by (rule map_of_is_SomeI [OF _ assms(3)]) (use b(1) in \<open>simp add: writable_def batches_ok_def\<close>)
  then have "c = \<lparr>putkeys = map fst (routed puts n), putvalues = map snd (routed puts n), delkeys = routed dels n\<rparr>"
    using b(2) [of n] by (simp add: batch_of_def)
  then show "batch_ops c = map (\<lambda>(k, v). Put k v) (routed puts n) @ map Delete (routed dels n)"
    "apply_batch (batch_ops c) g k = (if k \<in> set (routed dels n) then None
       else case map_of (rev (routed puts n)) k of Some v \<Rightarrow> Some v | None \<Rightarrow> g k)"
    by (simp_all only: apply_batch_ops) (simp_all add: batch_ops_def zip_map_fst_snd)
qed

lemma handle_update:
  assumes "sv_decode S inp = (request rid CHR ''U'' params, None)" "handle_U S params w m = Inr (e, ONil, w', m')" "\<not> dangling e"
  shows "ReqHandler_handle S inp out w m = Some (Inr (respond S rid (plain e) VNil out w' m'))"
  using assms(2,3) by (simp add: handle_request [OF assms(1)] handle_switch_def handle_encode_plain)

lemma stopped_stored:
  assumes "db_laws R cont snap pos" "stopped R pre post old new e" "(Some n, c) \<in> set pre"
  shows "map_of (cont (new ! n)) = apply_batch (batch_ops c) (map_of (cont (old ! n)))"
  using assms(2,3) db_lawsD(8) [OF assms(1), of "old ! n" "batch_ops c"] by (auto simp: stopped_def)

text \<open>
  What may become of the databases of a request with the routed puts and deletes: all those of \<open>U\<close> have their puts and
  deletes; without an error these are all, with an error it is that of the write of one more, \<open>f\<close>; the others are as before.
\<close>

definition update_outcome ::
    "('d, 'it, 'z) rocksdb_scheme \<Rightarrow> ('d \<Rightarrow> (bytes \<times> bytes) list) \<Rightarrow> ((bytes \<times> bytes) \<times> nat) list \<Rightarrow> (bytes \<times> nat) list \<Rightarrow>
     nat set \<Rightarrow> 'd list \<Rightarrow> 'd list \<Rightarrow> codec_value \<Rightarrow> bool" where
  "update_outcome R cont puts dels U old new e \<longleftrightarrow> length new = length old \<and> U \<subseteq> snd ` set puts \<union> snd ` set dels
     \<and> (\<forall>n \<in> U. \<forall>k. map_of (cont (new ! n)) k = (if k \<in> set (routed dels n) then None
          else case map_of (rev (routed puts n)) k of Some v \<Rightarrow> Some v | None \<Rightarrow> map_of (cont (old ! n)) k))
     \<and> (e = VNil \<and> U = snd ` set puts \<union> snd ` set dels \<and> (\<forall>n. n \<notin> U \<longrightarrow> new ! n = old ! n)
       \<or> (\<exists>f \<in> (snd ` set puts \<union> snd ` set dels) - U. \<exists>s.
           db_write R (old ! f) (map (\<lambda>(k, v). Put k v) (routed puts f) @ map Delete (routed dels f)) = (s, new ! f)
           \<and> \<not> st_ok s \<and> e = VString (bytes_of (st_string s)) \<and> (\<forall>n. n \<notin> insert f U \<longrightarrow> new ! n = old ! n)))"

lemma request_writes:
  assumes "db_laws R cont snap pos" "\<forall>d b. status_wf (fst (db_write R d b))" "order_laws ord"
    and "\<forall>n \<in> snd ` set puts \<union> snd ` set dels. n < length (dbs m)"
  shows "\<exists>e new U. write_loop R (request_batches ord puts dels) m = Inr (e, m\<lparr>dbs := new\<rparr>)
    \<and> \<not> dangling e \<and> update_outcome R cont puts dels U (dbs m) new (plain e)"
proof -
  let ?T = "snd ` set puts \<union> snd ` set dels"
  note b = request_batches [OF assms(3) assms(4)]
  obtain e new pre post where loop: "write_loop R (request_batches ord puts dels) m = Inr (e, m\<lparr>dbs := new\<rparr>)"
    "request_batches ord puts dels = pre @ post" and stop: "stopped R pre post (dbs m) new e"
    using write_loop_stops [OF assms(2) [rule_format] b(1)] by blast
  note effect = request_batch_effect [OF assms(3) assms(4), unfolded loop(2)]
  define U where "U = {n. Some n \<in> set (map fst pre)}"
  have distinct: "distinct (map fst (pre @ post))" using b(1) unfolding loop(2) by (simp add: writable_def batches_ok_def)
  have touched: "Some ` ?T = set (map fst (pre @ post))" using b(3) unfolding loop(2) by simp
  have frame: "new ! n = dbs m ! n" if "n \<notin> U" "post \<noteq> [] \<longrightarrow> fst (hd post) \<noteq> Some n" for n
    using stop that by (simp add: stopped_def U_def)
  have stored: "\<forall>n \<in> U. \<forall>k. map_of (cont (new ! n)) k = (if k \<in> set (routed dels n) then None
      else case map_of (rev (routed puts n)) k of Some v \<Rightarrow> Some v | None \<Rightarrow> map_of (cont (dbs m ! n)) k)"
  proof (intro ballI allI)
    fix n k assume "n \<in> U"
    then obtain c where c: "(Some n, c) \<in> set pre" by (auto simp: U_def)
    show "map_of (cont (new ! n)) k = (if k \<in> set (routed dels n) then None
        else case map_of (rev (routed puts n)) k of Some v \<Rightarrow> Some v | None \<Rightarrow> map_of (cont (dbs m ! n)) k)"
      unfolding stopped_stored [OF assms(1) stop c] by (rule effect(2)) (use c in simp)
  qed
  have outcome: "\<not> dangling e \<and> (plain e = VNil \<and> U = ?T \<and> (\<forall>n. n \<notin> U \<longrightarrow> new ! n = dbs m ! n)
      \<or> (\<exists>f \<in> ?T - U. \<exists>s. db_write R (dbs m ! f) (map (\<lambda>(k, v). Put k v) (routed puts f) @ map Delete (routed dels f)) = (s, new ! f)
          \<and> \<not> st_ok s \<and> plain e = VString (bytes_of (st_string s)) \<and> (\<forall>n. n \<notin> insert f U \<longrightarrow> new ! n = dbs m ! n)))"
  proof (cases post)
    case Nil
    then have "U = {n. Some n \<in> Some ` ?T}" using touched by (simp add: U_def)
    then have "U = ?T" by auto
    then show ?thesis using stop Nil frame by (simp add: stopped_def)
  next
    case (Cons y ys)
    obtain f c s where f: "y = (Some f, c)" "db_write R (dbs m ! f) (batch_ops c) = (s, new ! f)" "\<not> st_ok s"
      "e = OString (bytes_of (st_string s))"
      using stop Cons by (cases y) (auto simp: stopped_def)
    have "Some f \<in> Some ` ?T" unfolding touched by (simp add: Cons f(1))
    moreover have "f \<notin> U" using distinct by (simp add: U_def Cons f(1))
    ultimately show ?thesis using f effect(1) [of f c] frame Cons by auto
  qed
  have "U \<subseteq> ?T" using touched by (auto simp: U_def)
  then show ?thesis
    using loop(1) stored outcome stop by (intro exI [of _ e] exI [of _ new] exI [of _ U]) (simp add: stopped_def update_outcome_def)
qed

text \<open>A disk that is full for the first of two databases, which a server writes last.\<close>

definition st_Full :: status where
  "st_Full = \<lparr>st_ok = False, st_not_found = False, st_string = ''IO error: No space left on device''\<rparr>"

definition full_rocks :: "(mem_db, mem_it) rocksdb" where
  "full_rocks = mem_rocks\<lparr>db_write := (\<lambda>d b. if Put (demo_key 2) [1] \<in> set b then (st_Full, d) else db_write mem_rocks d b)\<rparr>"

lemma db_laws_write:
  assumes "db_laws R cont snap pos" "\<And>d b. st_ok (fst (f d b)) \<Longrightarrow> f d b = db_write R d b"
  shows "db_laws (R\<lparr>db_write := f\<rparr>) cont snap pos"
proof -
  have "iterator_laws (R\<lparr>db_write := f\<rparr>) snap pos"
    using assms(1) by (simp add: db_laws_def iterator_laws_def)
  moreover have "map_of (cont (snd (f d b))) = apply_batch b (map_of (cont d))" if "st_ok (fst (f d b))" for d b
    using db_lawsD(8) [OF assms(1), of d b] assms(2) [OF that] that by simp
  ultimately show ?thesis using assms(1) by (simp add: db_laws_def cong: option.case_cong)
qed

lemma full_rocks_laws:
  "db_laws full_rocks mem_entries mem_snap mem_pos" "\<forall>d b. status_wf (fst (db_write full_rocks d b))"
proof -
  show "db_laws full_rocks mem_entries mem_snap mem_pos"
    unfolding full_rocks_def by (rule db_laws_write [OF mem_db_laws]) (simp add: st_Full_def split: if_splits)
  show "\<forall>d b. status_wf (fst (db_write full_rocks d b))"
    by (simp add: full_rocks_def status_wf_def st_Full_def st_OK_def)
qed

text \<open>
  C10. Updates whose writes can fail: whatever the order in which the databases are written, the answer of a \<^verbatim>\<open>'U'\<close>
  request has no error and every database has its puts and deletes; or it has the error of one write.  Then some databases of
  the request have all of their puts and deletes, and what has been written there is not undone; the database whose write
  failed is what that write left of it, about which nothing is assumed; and all others are what they were.
\<close>

theorem update_stops_at_failure:
  assumes "db_laws (sv_rocks S) cont snap pos" "\<forall>d b. status_wf (fst (db_write (sv_rocks S) d b))" "order_laws (sv_order S)"
    and "sv_decode S inp = (request rid CHR ''U'' [VArray (put_request kvs), VArray (map VBytes dks)], None)"
    and "lookups (sv_env S) (map fst kvs) w m = Inr (map Some ps, w1, m1)"
    and "lookups (sv_env S) dks w1 m1 = Inr (map Some ds, w2, m2)"
    and "\<forall>n \<in> set ps \<union> set ds. n < length (dbs m2)"
  shows "\<exists>e new U. ReqHandler_handle S inp out w m = Some (Inr (respond S rid e VNil out w2 (m2\<lparr>dbs := new\<rparr>)))
    \<and> update_outcome (sv_rocks S) cont (zip kvs ps) (zip dks ds) U (dbs m2) new e"
proof -
  have len: "length kvs = length ps" "length dks = length ds"
    using lookups_length [OF assms(5)] lookups_length [OF assms(6)] by simp_all
  have T: "snd ` set (zip kvs ps) \<union> snd ` set (zip dks ds) = set ps \<union> set ds"
    using len by (metis list.set_map map_snd_zip)
  obtain e new U where w: "write_loop (sv_rocks S) (request_batches (sv_order S) (zip kvs ps) (zip dks ds)) m2 = Inr (e, m2\<lparr>dbs := new\<rparr>)"
    "\<not> dangling e" "update_outcome (sv_rocks S) cont (zip kvs ps) (zip dks ds) U (dbs m2) new (plain e)"
    using request_writes [OF assms(1-3) assms(7) [folded T]] by blast
  have "handle_U S [VArray (put_request kvs), VArray (map VBytes dks)] w m = Inr (e, ONil, w2, m2\<lparr>dbs := new\<rparr>)"
    by (simp add: handle_U_batches [OF assms(5,6)] w(1))
  from handle_update [OF assms(4) this w(2)] w(3) show ?thesis by blast
qed

theorem update_stops_at_failure_witness:
  "\<exists>e w m U. ReqHandler_handle ((demo_server [] (request VNil CHR ''U'' [VArray (put_request [(demo_key 2, [1]), (demo_key 3, [2])]), VArray []]))
       \<lparr>sv_rocks := full_rocks\<rparr>) [] [] [] (mem_manager True) = Some (Inr ([VArray [VNil, e, VNil]], None, w, m))
     \<and> e = VString (bytes_of (st_string st_Full)) \<and> dbs m = [[], [Put (demo_key 3) [2]]]
     \<and> update_outcome full_rocks mem_entries [((demo_key 2, [1]), 0), ((demo_key 3, [2]), 1)] [] U [[], []] (dbs m) e"
proof -
  define S where "S = (demo_server [] (request VNil CHR ''U'' [VArray (put_request [(demo_key 2, [1]), (demo_key 3, [2])]), VArray []]))
       \<lparr>sv_rocks := full_rocks\<rparr>"
  have parts: "sv_rocks S = full_rocks" "sv_order S = rev" "sv_encode S = (\<lambda>v out. (out @ [v], None))" "order_laws rev"
    "sv_decode S [] = (request VNil CHR ''U'' [VArray (put_request [(demo_key 2, [1]), (demo_key 3, [2])]), VArray (map VBytes [])], None)"
    "sv_env S = sv_env (demo_server [] VNil)"
    using demo_server_laws(1) by (simp_all add: S_def demo_server_def)
  obtain w m where l: "lookups (sv_env S) (map fst [(demo_key 2, [1 :: u8]), (demo_key 3, [2])]) [] (mem_manager True) = Inr (map Some [0, 1], w, m)"
    "dbs m = [[], []]"
    unfolding parts(6) list.map fst_conv by (rule full_lookups [of VNil]) simp
  have l0: "lookups (sv_env S) [] w m = Inr (map Some [], w, m)" by simp
  have ne: "demo_key 2 \<noteq> demo_key 3" by code_simp
  have loop: "write_loop full_rocks (request_batches rev (zip [(demo_key 2, [1]), (demo_key 3, [2])] [0, 1]) (zip [] [])) m =
      Inr (OString (bytes_of (st_string st_Full)), m\<lparr>dbs := [[], [Put (demo_key 3) [2]]]\<rparr>)"
    using l(2) ne by (simp add: request_batches_def with_batch_def getT_def in_order_def add_put_def empty_batch_def
        db_at_def put_db_def Ndb_update_def full_rocks_def to_codec_value_def st_Full_def st_OK_def)
  have "handle_U S [VArray (put_request [(demo_key 2, [1]), (demo_key 3, [2])]), VArray (map VBytes [])] [] (mem_manager True) =
      Inr (OString (bytes_of (st_string st_Full)), ONil, w, m\<lparr>dbs := [[], [Put (demo_key 3) [2]]]\<rparr>)"
    unfolding handle_U_batches [OF l(1) l0] parts(1,2) loop by simp
  from handle_update [OF parts(5) this]
  have h: "ReqHandler_handle S [] [] [] (mem_manager True) =
      Some (Inr ([VArray [VNil, VString (bytes_of (st_string st_Full)), VNil]], None, w, m\<lparr>dbs := [[], [Put (demo_key 3) [2]]]\<rparr>))"
    by (simp add: respond_def parts(3))
  obtain e new U where o: "ReqHandler_handle S [] [] [] (mem_manager True) = Some (Inr (respond S VNil e VNil [] w (m\<lparr>dbs := new\<rparr>)))"
    "update_outcome full_rocks mem_entries [((demo_key 2, [1]), 0), ((demo_key 3, [2]), 1)] [] U (dbs m) new e"
    using update_stops_at_failure [of S mem_entries mem_snap mem_pos "[]", OF _ _ _ parts(5) l(1) l0, of "[]"] l(2) full_rocks_laws
    by (auto simp: parts)
  have same: "e = VString (bytes_of (st_string st_Full))" "m\<lparr>dbs := new\<rparr> = m\<lparr>dbs := [[], [Put (demo_key 3) [2]]]\<rparr>"
    using h o(1) by (simp_all add: respond_def parts(3))
  have "new = [[], [Put (demo_key 3) [2]]]" using arg_cong [OF same(2), of dbs] by simp
  with o(2) l(2) show ?thesis
    unfolding S_def [symmetric] using h same(1)
    by (intro exI [of _ e] exI [of _ w] exI [of _ "m\<lparr>dbs := new\<rparr>"] exI [of _ U]) simp
qed

end
