(* ===== verification/Conn.thy ===== *)
theory Conn
  imports Handler
begin

text \<open>
  The connection handler of \<^verbatim>\<open>conn.h\<close> and \<^verbatim>\<open>conn.cc\<close>: \<^verbatim>\<open>connFdStateMach\<close>, the state of one client
  socket, and \<^verbatim>\<open>ConnHandler\<close>, which reads a request, has it handled and writes the response,
  resuming where it stopped each time the socket is ready.

  The results of the system calls are given as two scripts, one for the calls of \<^verbatim>\<open>read\<close> and one
  for those of \<^verbatim>\<open>write\<close>; a call that finds its script empty does not return.  \<^verbatim>\<open>errno\<close> is part of the
  state, since it keeps its value over calls that succeed.
\<close>

section \<open>State\<close>

datatype errno = EINTR | EAGAIN | EWOULDBLOCK | EOTHER nat

datatype read_result = Got bytes | ReadFail errno

datatype write_result = Wrote nat | WriteFail errno

datatype ConnState = CONN_READY | CONN_READING | CONN_PROCESSING | CONN_WRITING

text \<open>
  \<^verbatim>\<open>slice_bytes\<close>: \<open>sl_buf\<close> is the memory \<^verbatim>\<open>v\<close> points to, of any size, \<open>sl_len\<close> its \<^verbatim>\<open>len\<close>; \<open>sl_set\<close> says
  whether anything was stored in its pointer and its capacity.  While nothing was, what is in \<open>sl_buf\<close> means nothing.
\<close>

record slice =
  sl_buf :: bytes
  sl_len :: u64
  sl_set :: bool

record connFdStateMach =
  xin :: slice
  xout :: slice
  xfd :: int
  reqlen :: u64
  cursor :: u64
  cstate :: ConnState

definition reinit :: "connFdStateMach \<Rightarrow> connFdStateMach" where
  "reinit x = x\<lparr>xin := (xin x)\<lparr>sl_len := 0\<rparr>, xout := (xout x)\<lparr>sl_len := 0\<rparr>,
     reqlen := 0, cursor := 0, cstate := CONN_READY\<rparr>"

text \<open>
  The constructor calls \<^verbatim>\<open>reinit\<close>, which sets the lengths of the two slices and leaves their pointers and
  capacities as they are.  The type \<^verbatim>\<open>slice_bytes\<close> is not in the repository: if it gives its members a value (\<open>init\<close>), a new
  slice has no memory; if it is a plain struct, as C has them, pointer and capacity are not set.
\<close>

definition new_conn :: "bool \<Rightarrow> int \<Rightarrow> connFdStateMach" where
  "new_conn init fd = reinit \<lparr>xin = \<lparr>sl_buf = [], sl_len = 0, sl_set = init\<rparr>, xout = \<lparr>sl_buf = [], sl_len = 0, sl_set = init\<rparr>,
     xfd = fd, reqlen = 0, cursor = 0, cstate = CONN_READY\<rparr>"

text \<open>
  What the handler is built on: the request handler's server; whether a new \<^verbatim>\<open>slice_bytes\<close> is set; \<^verbatim>\<open>slice_bytes_expand\<close>
  as a function of the memory, the length and the number of bytes asked for; the eight bytes an uninitialised
  array holds; \<^verbatim>\<open>errnoStr\<close>.
\<close>

record ('w, 'd, 'it) conn_env =
  ce_server :: "('w, 'd, 'it, slice) server"
  ce_init :: bool
  ce_expand :: "bytes \<Rightarrow> u64 \<Rightarrow> u64 \<Rightarrow> bytes"
  ce_junk :: bytes
  ce_errstr :: "errno \<Rightarrow> string"

text \<open>
  The state of a call of \<^verbatim>\<open>handleFd\<close>: the connection, the world and the manager behind the request
  handler, \<^verbatim>\<open>errno\<close>, the \<^verbatim>\<open>err\<close> string, the scripts, and the bytes the socket has taken and given.
\<close>

record ('w, 'd) call =
  cx :: connFdStateMach
  cworld :: 'w
  cmgr :: "'d manager"
  cerrno :: errno
  cerr :: string
  creads :: "read_result list"
  cwrites :: "write_result list"
  csent :: bytes
  creceived :: bytes

abbreviation set_x :: "(connFdStateMach \<Rightarrow> connFdStateMach) \<Rightarrow> ('w, 'd) call \<Rightarrow> ('w, 'd) call" where
  "set_x f c \<equiv> c\<lparr>cx := f (cx c)\<rparr>"

text \<open>An error ends the call: its message (127 characters of it) and a fresh state.\<close>

definition call_error :: "string \<Rightarrow> ('w, 'd) call \<Rightarrow> ('w, 'd) call" where
  "call_error msg c = set_x reinit (c\<lparr>cerr := take 127 msg\<rparr>)"

definition read_msg :: "('w, 'd, 'it) conn_env \<Rightarrow> int \<Rightarrow> errno \<Rightarrow> string" where
  "read_msg E n2 e = ''read returned '' @ to_string n2 @ '', with errno: '' @ ce_errstr E e"

definition write_msg :: "('w, 'd, 'it) conn_env \<Rightarrow> int \<Rightarrow> errno \<Rightarrow> string" where
  "write_msg E n2 e = ''write returned '' @ to_string n2 @ '', with errno: '' @ ce_errstr E e"

text \<open>
  Memory: bytes stored at a position, and the bytes of a slice.  \<open>expand\<close> is \<^verbatim>\<open>slice_bytes_expand\<close> on a slice that
  is set; it reads the capacity, so its callers stop with a fault when that is not set.
\<close>

definition write_at :: "bytes \<Rightarrow> nat \<Rightarrow> bytes \<Rightarrow> bytes res" where
  "write_at b pos ds =
     (if pos + length ds \<le> length b then Inr (take pos b @ ds @ drop (pos + length ds) b) else Inl OobWrite)"

definition slice_range :: "slice \<Rightarrow> nat \<Rightarrow> nat \<Rightarrow> bytes res" where
  "slice_range s pos n =
     (if \<not> sl_set s then Inl Uninit
      else if pos + n \<le> length (sl_buf s) then Inr (take n (drop pos (sl_buf s))) else Inl OobRead)"

definition expand :: "('w, 'd, 'it) conn_env \<Rightarrow> u64 \<Rightarrow> slice \<Rightarrow> slice" where
  "expand E n s = s\<lparr>sl_buf := ce_expand E (sl_buf s) (sl_len s) n\<rparr>"

section \<open>Writing the response\<close>

text \<open>
  The loop of \<^verbatim>\<open>doWriteFd\<close>.  A call of \<^verbatim>\<open>write\<close> takes at most the bytes it is given,
  and on Linux never more than an \<^verbatim>\<open>int\<close> holds, so that \<^verbatim>\<open>int n2\<close> keeps its result.
\<close>

fun write_loop_fd :: "('w, 'd, 'it) conn_env \<Rightarrow> write_result list \<Rightarrow> ('w, 'd) call \<Rightarrow> ('w, 'd) call res option" where
  "write_loop_fd E ws c =
     (if cursor (cx c) < sl_len (xout (cx c)) then
        (case ws of
           [] \<Rightarrow> None
         | WriteFail e # ws \<Rightarrow>
             (let c = c\<lparr>cerrno := e, cwrites := ws\<rparr> in
              if e = EINTR then write_loop_fd E ws c
              else if e = EAGAIN \<or> e = EWOULDBLOCK then Some (Inr c)
              else Some (Inr (call_error (write_msg E (-1) e) c)))
         | Wrote n # ws \<Rightarrow>
             (let n = min n (unat (sl_len (xout (cx c)) - cursor (cx c))) in
              case slice_range (xout (cx c)) (unat (cursor (cx c))) n of
                Inl f \<Rightarrow> Some (Inl f)
              | Inr ds \<Rightarrow>
                  write_loop_fd E ws (set_x (\<lambda>x. x\<lparr>cursor := cursor x + of_nat n\<rparr>)
                    (c\<lparr>cwrites := ws, csent := csent c @ ds\<rparr>))))
      else Some (Inr (set_x reinit c)))"

declare write_loop_fd.simps [simp del]

definition doWriteFd :: "('w, 'd, 'it) conn_env \<Rightarrow> ('w, 'd) call \<Rightarrow> ('w, 'd) call res option" where
  "doWriteFd E c = write_loop_fd E (cwrites c) c"

section \<open>Handling the request\<close>

definition doProcessFd :: "('w, 'd, 'it) conn_env \<Rightarrow> ('w, 'd) call \<Rightarrow> ('w, 'd) call res option" where
  "doProcessFd E c =
     (case slice_range (xin (cx c)) 0 (unat (sl_len (xin (cx c)))) of
        Inl f \<Rightarrow> Some (Inl f)
      | Inr inp \<Rightarrow>
          run_bind (ReqHandler_handle (ce_server E) inp (xout (cx c)) (cworld c) (cmgr c)) (\<lambda>(out, err, w, m).
          let c = set_x (\<lambda>x. x\<lparr>xout := out\<rparr>) (c\<lparr>cworld := w, cmgr := m\<rparr>) in
          case err of
            Some e \<Rightarrow> Some (Inr (set_x reinit (c\<lparr>cerr := e\<rparr>)))
          | None \<Rightarrow> doWriteFd E (set_x (\<lambda>x. x\<lparr>cstate := CONN_WRITING\<rparr>) c)))"

section \<open>Reading the request\<close>

definition FD_BUF_INCR :: u64 where
  "FD_BUF_INCR = 256"

definition set_in :: "slice \<Rightarrow> connFdStateMach \<Rightarrow> connFdStateMach" where
  "set_in s x = x\<lparr>xin := s\<rparr>"

text \<open>
  One call \<^verbatim>\<open>n2 = ::read(fd, &in.v[in.len], n2)\<close>: its result as the \<^verbatim>\<open>size_t\<close> it is stored in, so
  that the \<^verbatim>\<open>-1\<close> of a failed call is the largest value.
\<close>

fun read_into :: "read_result \<Rightarrow> u64 \<Rightarrow> ('w, 'd) call \<Rightarrow> (u64 \<times> ('w, 'd) call) res" where
  "read_into (Got ds) n c =
     (let ds = take (unat n) ds; s = xin (cx c)
      in res_bind (write_at (sl_buf s) (unat (sl_len s)) ds) (\<lambda>b.
         Inr (of_nat (length ds), set_x (set_in (s\<lparr>sl_buf := b\<rparr>)) (c\<lparr>creceived := creceived c @ ds\<rparr>))))"
| "read_into (ReadFail e) n c = Inr (- 1, c\<lparr>cerrno := e\<rparr>)"

definition add_len :: "u64 \<Rightarrow> ('w, 'd) call \<Rightarrow> ('w, 'd) call" where
  "add_len n c = set_x (\<lambda>x. set_in ((xin x)\<lparr>sl_len := sl_len (xin x) + n\<rparr>) x) c"

text \<open>
  The loop of \<^verbatim>\<open>doReadFd\<close>; true when the request is complete, false when the function returns.
  The tests behind \<^verbatim>\<open>n2 == 0\<close> are the code's: no \<^verbatim>\<open>size_t\<close> reaches them.
\<close>

definition read_count :: "('w, 'd) call \<Rightarrow> u64" where
  "read_count c = (let n2 = reqlen (cx c) - sl_len (xin (cx c)) in if FD_BUF_INCR < n2 then FD_BUF_INCR else n2)"

fun read_loop_fd ::
    "('w, 'd, 'it) conn_env \<Rightarrow> read_result list \<Rightarrow> ('w, 'd) call \<Rightarrow> (bool \<times> ('w, 'd) call) res option" where
  "read_loop_fd E rs c =
     (if sl_len (xin (cx c)) < reqlen (cx c) then
        if \<not> sl_set (xin (cx c)) then Some (Inl Uninit)
        else (case rs of
           [] \<Rightarrow> None
         | r # rs \<Rightarrow>
             let n2 = read_count c;
                 c = set_x (\<lambda>x. set_in (expand E n2 (xin x)) x) (c\<lparr>creads := rs\<rparr>)
             in case read_into r n2 c of
                  Inl f \<Rightarrow> Some (Inl f)
                | Inr (n2, c) \<Rightarrow>
                    if 0 < n2 then read_loop_fd E rs (add_len n2 c)
                    else if n2 = 0 then Some (Inr (False, c))
                    else if cerrno c = EINTR then read_loop_fd E rs c
                    else if cerrno c = EAGAIN \<or> cerrno c = EWOULDBLOCK then Some (Inr (False, c))
                    else Some (Inr (False, call_error (read_msg E (uint n2) (cerrno c)) c)))
      else Some (Inr (True, c)))"

declare read_loop_fd.simps [simp del]

definition doReadFd :: "('w, 'd, 'it) conn_env \<Rightarrow> ('w, 'd) call \<Rightarrow> ('w, 'd) call res option" where
  "doReadFd E c =
     run_bind (read_loop_fd E (creads c) c) (\<lambda>(complete, c).
       if complete then doProcessFd E (set_x (\<lambda>x. x\<lparr>cstate := CONN_PROCESSING\<rparr>) c) else Some (Inr c))"

section \<open>The start of a request\<close>

text \<open>
  The first bytes: up to eight are read, the first says how many bytes the length of the request
  has.  What follows these bytes in the array goes to the input slice, however many were read;
  the length is read from the array with its front moved to the end and zeros before it.
\<close>

definition length_array :: "bytes \<Rightarrow> nat \<Rightarrow> bytes" where
  "length_array hdr n2 = (if n2 < 8 then replicate (8 - n2) 0 @ take n2 hdr else hdr)"

definition bad_length_msg :: "u8 \<Rightarrow> string" where
  "bad_length_msg b = ''expect up to 7 bytes for reading length, but received '' @ to_string (uint b)"

definition start_request :: "('w, 'd, 'it) conn_env \<Rightarrow> bytes \<Rightarrow> ('w, 'd) call \<Rightarrow> ('w, 'd) call res option" where
  "start_request E hdr c =
     (let numBytesForLen = hdr ! 0 in
      if 7 < numBytesForLen then Some (Inr (c\<lparr>cerr := take 127 (bad_length_msg numBytesForLen)\<rparr>))
      else
        let n2 = unat numBytesForLen + 1;
            s = (if n2 < 8 then expand E (of_nat (8 - n2)) (xin (cx c)) else xin (cx c))
        in case (if n2 < 8 then if sl_set s then write_at (sl_buf s) 0 (drop n2 hdr) else Inl Uninit else Inr (sl_buf s)) of
             Inl f \<Rightarrow> Some (Inl f)
           | Inr b \<Rightarrow>
               let s = (if n2 < 8 then s\<lparr>sl_buf := b, sl_len := of_nat (8 - n2)\<rparr> else s)
               in doReadFd E (set_x (\<lambda>x. x\<lparr>xin := s,
                     reqlen := be_read (sv_codec64 (ce_server E)) (length_array hdr n2),
                     cstate := CONN_READING\<rparr>) c))"

text \<open>The loop of \<^verbatim>\<open>doStartFd\<close>; at the end of the input \<^verbatim>\<open>errno\<close> is what an earlier call left.\<close>

fun start_loop_fd ::
    "('w, 'd, 'it) conn_env \<Rightarrow> read_result list \<Rightarrow> ('w, 'd) call \<Rightarrow> ('w, 'd) call res option" where
  "start_loop_fd E [] c = None"
| "start_loop_fd E (r # rs) c =
     (let ds = (case r of Got ds \<Rightarrow> take 8 ds | ReadFail e \<Rightarrow> []);
          c = (case r of Got ds \<Rightarrow> c | ReadFail e \<Rightarrow> c\<lparr>cerrno := e\<rparr>)\<lparr>creads := rs, creceived := creceived c @ ds\<rparr>;
          n2 = (case r of Got _ \<Rightarrow> int (length ds) | ReadFail _ \<Rightarrow> -1)
      in if n2 \<le> 0 then
           (if cerrno c = EINTR then start_loop_fd E rs c
            else if cerrno c = EAGAIN \<or> cerrno c = EWOULDBLOCK then Some (Inr c)
            else Some (Inr (call_error (read_msg E n2 (cerrno c)) c)))
         else start_request E (ds @ drop (length ds) (ce_junk E)) c)"

definition doStartFd :: "('w, 'd, 'it) conn_env \<Rightarrow> ('w, 'd) call \<Rightarrow> ('w, 'd) call res option" where
  "doStartFd E c = start_loop_fd E (creads c) (set_x reinit c)"

section \<open>ConnHandler\<close>

text \<open>The connections of a handler, by their descriptor.\<close>

type_synonym conns = "int \<rightharpoonup> connFdStateMach"

definition stateFor :: "bool \<Rightarrow> int \<Rightarrow> conns \<Rightarrow> connFdStateMach option \<times> conns" where
  "stateFor init fd cs = (case cs fd of
      None \<Rightarrow> (Some (new_conn init fd), cs(fd \<mapsto> new_conn init fd))
    | Some x \<Rightarrow> (Some x, cs))"

definition unregisterFd :: "int \<Rightarrow> conns \<Rightarrow> conns" where
  "unregisterFd fd cs = cs(fd := None)"

definition handle_state :: "('w, 'd, 'it) conn_env \<Rightarrow> ('w, 'd) call \<Rightarrow> ('w, 'd) call res option" where
  "handle_state E c = (case cstate (cx c) of
      CONN_READY \<Rightarrow> doStartFd E c
    | CONN_READING \<Rightarrow> doReadFd E c
    | CONN_PROCESSING \<Rightarrow> doProcessFd E c
    | CONN_WRITING \<Rightarrow> doWriteFd E c)"

text \<open>
  \<^verbatim>\<open>handleFd\<close>: \<open>c\<close> has everything but the connection, which is taken from the map and goes back
  to it.
\<close>

definition handleFd ::
    "('w, 'd, 'it) conn_env \<Rightarrow> int \<Rightarrow> conns \<Rightarrow> ('w, 'd) call \<Rightarrow> (conns \<times> ('w, 'd) call) res option" where
  "handleFd E fd cs c =
     (let (x, cs) = stateFor (ce_init E) fd cs in
      case x of
        None \<Rightarrow> None
      | Some x \<Rightarrow> run_bind (handle_state E (c\<lparr>cx := x\<rparr>)) (\<lambda>c. Some (Inr (cs(fd \<mapsto> cx c), c))))"

interpretation connections: find_or_create "\<lambda>cs fd. cs fd" "stateFor init" for init
  by unfold_locales (auto simp: stateFor_def split: option.splits)

end
