(* ===== verification/ConnSpec.thy ===== *)
theory ConnSpec
  imports Conn
begin

text \<open>
  What the connection handler promises: a request is read whatever the pieces it comes in, the
  response is sent whatever the pieces the socket takes, the state of a connection is in order
  between two calls; and what a failed \<^verbatim>\<open>read\<close> does to it.
\<close>

section \<open>Slices\<close>

definition slice_ok :: "slice \<Rightarrow> bool" where
  "slice_ok s \<longleftrightarrow> sl_set s \<and> unat (sl_len s) \<le> length (sl_buf s)"

lemma slice_ok_set [simp]: "slice_ok s \<Longrightarrow> sl_set s"
  by (simp add: slice_ok_def)

lemma expand_set [simp]: "sl_set (expand E n s) = sl_set s"
  by (simp add: expand_def)

definition contents :: "slice \<Rightarrow> bytes" where
  "contents s = take (unat (sl_len s)) (sl_buf s)"

text \<open>\<^verbatim>\<open>slice_bytes_expand\<close> makes room for more bytes and keeps those that are there.\<close>

definition expand_laws :: "('w, 'd, 'it) conn_env \<Rightarrow> bool" where
  "expand_laws E \<longleftrightarrow> (\<forall>b l n. unat l \<le> length b \<longrightarrow>
     take (unat l) (ce_expand E b l n) = take (unat l) b \<and> unat l + unat n \<le> length (ce_expand E b l n))"

lemma expand_ok:
  assumes "expand_laws E" "slice_ok s"
  shows "sl_len (expand E n s) = sl_len s" "contents (expand E n s) = contents s"
    "unat (sl_len s) + unat n \<le> length (sl_buf (expand E n s))" "slice_ok (expand E n s)"
  using assms by (auto simp: expand_laws_def slice_ok_def contents_def expand_def dest: add_leD1)

lemma length_contents: "slice_ok s \<Longrightarrow> length (contents s) = unat (sl_len s)"
  by (simp add: slice_ok_def contents_def)

lemma slice_range_ok: "slice_ok s \<Longrightarrow> slice_range s 0 (unat (sl_len s)) = Inr (contents s)"
  by (simp add: slice_ok_def slice_range_def contents_def)

lemma slice_range_contents:
  "slice_ok s \<Longrightarrow> pos + n \<le> unat (sl_len s) \<Longrightarrow> slice_range s pos n = Inr (take n (drop pos (contents s)))"
  by (simp add: slice_ok_def slice_range_def contents_def drop_take)

lemma write_at_end:
  "pos + length ds \<le> length b \<Longrightarrow>
   \<exists>b'. write_at b pos ds = Inr b' \<and> take (pos + length ds) b' = take pos b @ ds \<and> length b' = length b"
  by (cases "ds = []") (auto simp: write_at_def min_absorb2)

section \<open>Reading in pieces\<close>

text \<open>A call that reads \<open>ds\<close> appends them to the input.\<close>

lemma read_got:
  assumes "expand_laws E" "slice_ok (xin (cx c))" "sl_len (xin (cx c)) < reqlen (cx c)"
    and "ds \<noteq> []" "length ds \<le> unat (read_count c)"
  obtains s where "read_loop_fd E (Got ds # rs) c = read_loop_fd E rs (set_x (set_in s) (c\<lparr>creads := rs, creceived := creceived c @ ds\<rparr>))"
    "slice_ok s" "contents s = contents (xin (cx c)) @ ds" "unat (sl_len s) = unat (sl_len (xin (cx c))) + length ds"
proof -
  let ?s = "expand E (read_count c) (xin (cx c))"
  note e = expand_ok [OF assms(1,2), of "read_count c"]
  obtain b where b: "write_at (sl_buf ?s) (unat (sl_len ?s)) ds = Inr b"
    "take (unat (sl_len ?s) + length ds) b = contents ?s @ ds" "length b = length (sl_buf ?s)"
    using write_at_end [of "unat (sl_len ?s)" ds "sl_buf ?s"] e(1,3) assms(5)
    by (fastforce simp: contents_def)
  have rc: "unat (read_count c) \<le> unat (reqlen (cx c)) - unat (sl_len (xin (cx c)))" "unat (read_count c) \<le> 256"
    using assms(3) by (auto simp: read_count_def Let_def FD_BUF_INCR_def unat_sub word_le_nat_alt word_less_nat_alt)
  have "length ds < 2 ^ 64"
    using assms(5) rc(2) by simp
  then have u: "unat (of_nat (length ds) :: u64) = length ds"
    by (simp add: unat_of_nat take_bit_nat_eq_self)
  have l: "unat (sl_len (xin (cx c)) + of_nat (length ds)) = unat (sl_len (xin (cx c))) + length ds"
    using assms(3,5) rc(1) unsigned_less [where 'a = nat, of "reqlen (cx c)"]
    by (subst unat_add_lem [THEN iffD1]) (simp_all add: u word_less_nat_alt)
  have n: "0 < (of_nat (length ds) :: u64)"
    using assms(4) u by (metis length_0_conv unat_0 word_neq_0_conv)
  let ?t = "?s\<lparr>sl_buf := b, sl_len := sl_len (xin (cx c)) + of_nat (length ds)\<rparr>"
  have "read_loop_fd E (Got ds # rs) c = read_loop_fd E rs (set_x (set_in ?t) (c\<lparr>creads := rs, creceived := creceived c @ ds\<rparr>))"
    using assms(3,5) b(1) n e(1) slice_ok_set [OF assms(2)]
    by (subst read_loop_fd.simps) (simp add: set_in_def add_len_def)
  moreover have "slice_ok ?t" "contents ?t = contents (xin (cx c)) @ ds"
    using e b(2,3) assms(5) by (simp_all add: slice_ok_def contents_def l)
  ultimately show ?thesis
    using that [of ?t] by (simp add: l)
qed

lemma read_chunks:
  assumes "expand_laws E" "slice_ok (xin (cx c))" "\<forall>ds \<in> set dss. ds \<noteq> [] \<and> length ds \<le> 256"
    and "unat (sl_len (xin (cx c))) + length (concat dss) = unat (reqlen (cx c))"
    and "creads c = map Got dss @ rs"
  obtains s where "read_loop_fd E (creads c) c = Some (Inr (True, set_x (set_in s) (c\<lparr>creads := rs, creceived := creceived c @ concat dss\<rparr>)))"
    "slice_ok s" "contents s = contents (xin (cx c)) @ concat dss" "sl_len s = reqlen (cx c)"
  using assms
proof (induction dss arbitrary: c thesis)
  case Nil
  let ?s = "xin (cx c)"
  have l: "sl_len ?s = reqlen (cx c)" using Nil.prems(5) by (simp add: word_unat_eq_iff)
  have "set_in ?s (cx c) = cx c" by (simp add: set_in_def)
  then show ?case
    using Nil.prems(1) [of ?s] Nil.prems(3,6) l by (simp add: read_loop_fd.simps [of E rs])
next
  case (Cons ds dss)
  have lt: "sl_len (xin (cx c)) < reqlen (cx c)"
    using Cons.prems(4,5) by (simp add: word_less_nat_alt) (metis length_greater_0_conv less_add_same_cancel1 trans_less_add1 add.assoc)
  have "length ds \<le> unat (read_count c)"
    using Cons.prems(4,5) lt
    by (auto simp: read_count_def Let_def FD_BUF_INCR_def unat_sub word_le_nat_alt word_less_nat_alt)
  then obtain s where s: "read_loop_fd E (Got ds # map Got dss @ rs) c =
      read_loop_fd E (map Got dss @ rs) (set_x (set_in s) (c\<lparr>creads := map Got dss @ rs, creceived := creceived c @ ds\<rparr>))"
    "slice_ok s" "contents s = contents (xin (cx c)) @ ds" "unat (sl_len s) = unat (sl_len (xin (cx c))) + length ds"
    using read_got [OF Cons.prems(2,3) lt] Cons.prems(4) by (metis list.set_intros(1))
  let ?c = "set_x (set_in s) (c\<lparr>creads := map Got dss @ rs, creceived := creceived c @ ds\<rparr>)"
  obtain s' where "read_loop_fd E (creads ?c) ?c = Some (Inr (True, set_x (set_in s') (?c\<lparr>creads := rs, creceived := creceived ?c @ concat dss\<rparr>)))"
    "slice_ok s'" "contents s' = contents (xin (cx ?c)) @ concat dss" "sl_len s' = reqlen (cx ?c)"
    by (rule Cons.IH [of ?c]) (use Cons.prems s in \<open>auto simp: set_in_def\<close>)
  then show ?case
    using Cons.prems(1) [of s'] s(1,3) Cons.prems(6) by (simp add: set_in_def)
qed

section \<open>Failed reads\<close>

fun failed :: "read_result \<Rightarrow> bool" where
  "failed (Got ds) \<longleftrightarrow> False"
| "failed (ReadFail e) \<longleftrightarrow> True"

text \<open>
  \<^verbatim>\<open>n2\<close> is a \<^verbatim>\<open>size_t\<close>, so the \<^verbatim>\<open>-1\<close> of a failed \<^verbatim>\<open>read\<close> is taken for a count: a byte of the input
  is given up, and the loop goes on.
\<close>

lemma read_fail:
  assumes "sl_set (xin (cx c))" "sl_len (xin (cx c)) < reqlen (cx c)"
  shows "read_loop_fd E (ReadFail e # rs) c = read_loop_fd E rs
    (set_x (set_in ((expand E (read_count c) (xin (cx c)))\<lparr>sl_len := sl_len (xin (cx c)) - 1\<rparr>))
      (c\<lparr>creads := rs, cerrno := e\<rparr>))"
  using assms by (subst read_loop_fd.simps) (simp add: set_in_def add_len_def expand_def word_gt_0)

lemma read_fails:
  assumes "sl_set (xin (cx c))" "sl_len (xin (cx c)) < reqlen (cx c)" "length es = Suc (unat (sl_len (xin (cx c))))"
    and "creads c = map ReadFail es @ rs"
  obtains b e where "read_loop_fd E (creads c) c = Some (Inr (True,
      set_x (set_in \<lparr>sl_buf = ce_expand E b 0 (read_count (set_x (set_in \<lparr>sl_buf = b, sl_len = 0, sl_set = True\<rparr>) c)),
          sl_len = - 1, sl_set = True\<rparr>)
        (c\<lparr>creads := rs, cerrno := e\<rparr>)))"
  using assms
proof (induction es arbitrary: c thesis)
  case (Cons e es)
  let ?l = "sl_len (xin (cx c))"
  let ?c = "set_x (set_in ((expand E (read_count c) (xin (cx c)))\<lparr>sl_len := ?l - 1\<rparr>))
      (c\<lparr>creads := map ReadFail es @ rs, cerrno := e\<rparr>)"
  have step: "read_loop_fd E (creads c) c = read_loop_fd E (creads ?c) ?c"
    using read_fail [OF Cons.prems(2,3), of E e "map ReadFail es @ rs"] Cons.prems(5) by simp
  show ?case
  proof (cases "?l = 0")
    case True
    then have "es = []" using Cons.prems(4) by simp
    have x: "xin (cx c) = \<lparr>sl_buf = sl_buf (xin (cx c)), sl_len = 0, sl_set = True\<rparr>" using True Cons.prems(2) by simp
    have y: "(xin (cx c))\<lparr>sl_buf := v, sl_len := - 1\<rparr> = \<lparr>sl_buf = v, sl_len = - 1, sl_set = True\<rparr>" for v
      by (subst x) simp
    have "read_loop_fd E (creads ?c) ?c = Some (Inr (True, ?c))"
      by (subst read_loop_fd.simps) (simp add: set_in_def True)
    then show ?thesis
      using Cons.prems(1) [of "sl_buf (xin (cx c))" e] step \<open>es = []\<close> x y True
      by (simp add: set_in_def expand_def read_count_def)
  next
    case False
    have l: "unat (?l - 1) = unat ?l - 1" "?l - 1 < ?l"
      using False by (simp_all add: unat_minus_one word_neq_0_conv word_less_nat_alt)
    show ?thesis
    proof (rule Cons.IH [of ?c])
      show "sl_len (xin (cx ?c)) < reqlen (cx ?c)"
        using l(2) Cons.prems(3) by (simp add: set_in_def)
      show "length es = Suc (unat (sl_len (xin (cx ?c))))"
        using Cons.prems(4) False l(1) by (simp add: set_in_def unat_gt_0)
    qed (use Cons.prems(1,2) step in \<open>auto simp: set_in_def read_count_def\<close>)
  qed
qed simp

section \<open>Sending in pieces\<close>

text \<open>What is left to send of the response.\<close>

definition unsent :: "connFdStateMach \<Rightarrow> bytes" where
  "unsent x = drop (unat (cursor x)) (contents (xout x))"

lemma reinit_cursor [simp]: "reinit (x\<lparr>cursor := n\<rparr>) = reinit x"
  by (simp add: reinit_def)

lemma length_unsent:
  "slice_ok (xout x) \<Longrightarrow> cursor x \<le> sl_len (xout x) \<Longrightarrow>
   length (unsent x) = unat (sl_len (xout x) - cursor x)"
  by (simp add: unsent_def length_contents unat_sub)

lemma unsent_advance:
  assumes "slice_ok (xout x)" "cursor x \<le> sl_len (xout x)" "k \<le> length (unsent x)"
  shows "unsent (x\<lparr>cursor := cursor x + of_nat k\<rparr>) = drop k (unsent x)"
    "cursor x + of_nat k \<le> sl_len (xout x)"
proof -
  have k: "k \<le> unat (sl_len (xout x)) - unat (cursor x)" "unat (cursor x) \<le> unat (sl_len (xout x))"
    using assms(2,3) length_unsent [OF assms(1,2)] by (simp_all add: unat_sub word_le_nat_alt)
  have lt: "unat (sl_len (xout x)) < 2 ^ 64" using unsigned_less [where 'a = nat, of "sl_len (xout x)"] by simp
  have "unat (of_nat k :: u64) = k"
    using k lt by (simp add: unat_of_nat)
  then have u: "unat (cursor x + of_nat k) = unat (cursor x) + k"
    using k lt by (subst unat_add_lem [THEN iffD1]) simp_all
  show "unsent (x\<lparr>cursor := cursor x + of_nat k\<rparr>) = drop k (unsent x)"
    by (simp add: unsent_def u add.commute)
  show "cursor x + of_nat k \<le> sl_len (xout x)"
    using u k by (simp add: word_le_nat_alt)
qed

text \<open>
  One call of \<^verbatim>\<open>write\<close>: how the loop goes on, with the bytes taken moved from \<open>unsent\<close> to
  what the socket got.
\<close>

lemma write_loop_step:
  assumes "slice_ok (xout (cx c))" "cursor (cx c) \<le> sl_len (xout (cx c))"
  shows "unsent (cx c) = [] \<Longrightarrow> write_loop_fd E ws c = Some (Inr (set_x reinit c))"
    and "unsent (cx c) \<noteq> [] \<Longrightarrow> write_loop_fd E [] c = None"
    and "unsent (cx c) \<noteq> [] \<Longrightarrow> write_loop_fd E (WriteFail e # ws) c =
      (let c = c\<lparr>cerrno := e, cwrites := ws\<rparr> in
       if e = EINTR then write_loop_fd E ws c
       else if e = EAGAIN \<or> e = EWOULDBLOCK then Some (Inr c)
       else Some (Inr (call_error (write_msg E (-1) e) c)))"
    and "unsent (cx c) \<noteq> [] \<Longrightarrow> write_loop_fd E (Wrote n # ws) c =
      (let k = min n (length (unsent (cx c))) in
       write_loop_fd E ws (set_x (\<lambda>x. x\<lparr>cursor := cursor x + of_nat k\<rparr>)
         (c\<lparr>cwrites := ws, csent := csent c @ take k (unsent (cx c))\<rparr>)))"
proof -
  note len = length_unsent [OF assms]
  have iff: "cursor (cx c) < sl_len (xout (cx c)) \<longleftrightarrow> unsent (cx c) \<noteq> []"
    using len assms(2) by (simp add: unat_sub word_less_nat_alt flip: length_greater_0_conv)
  show "unsent (cx c) = [] \<Longrightarrow> write_loop_fd E ws c = Some (Inr (set_x reinit c))"
    using iff by (subst write_loop_fd.simps) simp
  show "unsent (cx c) \<noteq> [] \<Longrightarrow> write_loop_fd E [] c = None"
    using iff by (subst write_loop_fd.simps) simp
  show "unsent (cx c) \<noteq> [] \<Longrightarrow> write_loop_fd E (WriteFail e # ws) c =
      (let c = c\<lparr>cerrno := e, cwrites := ws\<rparr> in
       if e = EINTR then write_loop_fd E ws c
       else if e = EAGAIN \<or> e = EWOULDBLOCK then Some (Inr c)
       else Some (Inr (call_error (write_msg E (-1) e) c)))"
    using iff by (subst write_loop_fd.simps) (simp add: Let_def)
  have "slice_range (xout (cx c)) (unat (cursor (cx c))) k = Inr (take k (unsent (cx c)))"
    if "k \<le> length (unsent (cx c))" for k
    using that assms len slice_range_contents [OF assms(1), of "unat (cursor (cx c))" k]
    by (simp add: unsent_def unat_sub word_le_nat_alt)
  then show "unsent (cx c) \<noteq> [] \<Longrightarrow> write_loop_fd E (Wrote n # ws) c =
      (let k = min n (length (unsent (cx c))) in
       write_loop_fd E ws (set_x (\<lambda>x. x\<lparr>cursor := cursor x + of_nat k\<rparr>)
         (c\<lparr>cwrites := ws, csent := csent c @ take k (unsent (cx c))\<rparr>)))"
    using iff by (subst write_loop_fd.simps) (simp add: Let_def len [symmetric])
qed

text \<open>
  The outcomes of the loop: all is sent and the connection is fresh; the socket takes no more,
  and the cursor is where the rest begins; another error, and the connection is fresh.
\<close>

definition sent_to :: "('w, 'd) call \<Rightarrow> errno \<Rightarrow> write_result list \<Rightarrow> nat \<Rightarrow> ('w, 'd) call" where
  "sent_to c e ws k = set_x (\<lambda>x. x\<lparr>cursor := cursor x + of_nat k\<rparr>)
     (c\<lparr>cerrno := e, cwrites := ws, csent := csent c @ take k (unsent (cx c))\<rparr>)"

lemma sent_to_again:
  assumes "slice_ok (xout (cx c))" "cursor (cx c) \<le> sl_len (xout (cx c))" "k \<le> length (unsent (cx c))"
  shows "sent_to (sent_to c e ws k) e' ws' j = sent_to c e' ws' (k + j)"
    "unsent (cx (sent_to c e ws k)) = drop k (unsent (cx c))"
    "slice_ok (xout (cx (sent_to c e ws k)))"
    "cursor (cx (sent_to c e ws k)) \<le> sl_len (xout (cx (sent_to c e ws k)))"
  using unsent_advance [OF assms] assms(1) by (simp_all add: sent_to_def take_add add.assoc)

lemma write_loop_peel:
  assumes "slice_ok (xout (cx c))" "cursor (cx c) \<le> sl_len (xout (cx c))" "unsent (cx c) \<noteq> []"
  obtains (more) e k where "k \<le> length (unsent (cx c))"
      "write_loop_fd E (w # ws) c = write_loop_fd E ws (sent_to c e ws k)"
  | (stop) e where "write_loop_fd E (w # ws) c = Some (Inr
      (if e = EAGAIN \<or> e = EWOULDBLOCK then sent_to c e ws 0
       else call_error (write_msg E (-1) e) (sent_to c e ws 0)))"
proof (cases w)
  case (Wrote n)
  let ?k = "min n (length (unsent (cx c)))"
  have "write_loop_fd E (w # ws) c = write_loop_fd E ws (sent_to c (cerrno c) ws ?k)"
    using write_loop_step(4) [OF assms, of E n ws] Wrote by (simp add: sent_to_def Let_def)
  then show ?thesis using more [of ?k "cerrno c"] by simp
next
  case (WriteFail e)
  note s = write_loop_step(3) [OF assms, of E e ws]
  show ?thesis
  proof (cases "e = EINTR")
    case True
    then show ?thesis using more [of 0 e] s WriteFail by (simp add: sent_to_def Let_def)
  next
    case False
    then show ?thesis using stop [of e] s WriteFail by (simp add: sent_to_def Let_def)
  qed
qed

lemma write_outcomes:
  assumes "slice_ok (xout (cx c))" "cursor (cx c) \<le> sl_len (xout (cx c))"
    and "write_loop_fd E ws c = Some r" "cwrites c = ws"
  obtains (sent) e ws' where "r = Inr (set_x reinit (sent_to c e ws' (length (unsent (cx c)))))"
  | (blocked) e ws' k where "e = EAGAIN \<or> e = EWOULDBLOCK" "k < length (unsent (cx c))" "r = Inr (sent_to c e ws' k)"
  | (failed) e ws' k where "k < length (unsent (cx c))"
      "r = Inr (call_error (write_msg E (-1) e) (sent_to c e ws' k))"
  using assms
proof (induction ws arbitrary: c thesis)
  case Nil
  note s = write_loop_step [OF Nil.prems(4,5)]
  have u: "unsent (cx c) = []" by (rule ccontr) (use s(2) [of E] Nil.prems(6) in simp)
  have "r = Inr (set_x reinit c)" using s(1) [OF u, of E "[]"] Nil.prems(6) by simp
  then show ?case
    using Nil.prems(1) [of "cerrno c" "cwrites c"] u by (simp add: sent_to_def)
next
  case (Cons w ws)
  show ?case
  proof (cases "unsent (cx c) = []")
    case True
    then have "r = Inr (set_x reinit c)"
      using write_loop_step(1) [OF Cons.prems(4,5) True, of E "w # ws"] Cons.prems(6) by simp
    then show ?thesis
      using Cons.prems(1) [of "cerrno c" "cwrites c"] True by (simp add: sent_to_def)
  next
    case False
    show ?thesis
    proof (cases rule: write_loop_peel [OF Cons.prems(4,5) False, of E w ws, case_names more stop])
      case (more e k)
      note t = sent_to_again [OF Cons.prems(4,5) more(1), of e ws]
      have l: "write_loop_fd E ws (sent_to c e ws k) = Some r" "cwrites (sent_to c e ws k) = ws"
        using more(2) Cons.prems(6) by (simp_all add: sent_to_def)
      show ?thesis
      proof (rule Cons.IH [OF _ _ _ t(3,4) l])
        fix e' ws' assume "r = Inr (set_x reinit (sent_to (sent_to c e ws k) e' ws' (length (unsent (cx (sent_to c e ws k))))))"
        then show ?thesis using Cons.prems(1) [of e' ws'] more(1) by (simp add: t(1,2))
      next
        fix e' ws' j assume "e' = EAGAIN \<or> e' = EWOULDBLOCK" "j < length (unsent (cx (sent_to c e ws k)))"
          "r = Inr (sent_to (sent_to c e ws k) e' ws' j)"
        then show ?thesis using Cons.prems(2) [of e' "k + j" ws'] by (simp add: t(1,2))
      next
        fix e' ws' j assume "j < length (unsent (cx (sent_to c e ws k)))"
          "r = Inr (call_error (write_msg E (-1) e') (sent_to (sent_to c e ws k) e' ws' j))"
        then show ?thesis using Cons.prems(3) [of "k + j" e' ws'] by (simp add: t(1,2))
      qed
    next
      case (stop e)
      then have "r = Inr (if e = EAGAIN \<or> e = EWOULDBLOCK then sent_to c e ws 0
          else call_error (write_msg E (-1) e) (sent_to c e ws 0))"
        using Cons.prems(6) by simp
      then show ?thesis
        using Cons.prems(2) [of e 0 ws] Cons.prems(3) [of 0 e ws] False by (auto split: if_splits)
    qed
  qed
qed

fun taken :: "write_result \<Rightarrow> nat" where
  "taken (Wrote n) = n"
| "taken (WriteFail e) = 0"

text \<open>Enough capacity, over calls that only signals interrupt, and everything is sent.\<close>

lemma write_completes:
  assumes "slice_ok (xout (cx c))" "cursor (cx c) \<le> sl_len (xout (cx c))"
    and "\<forall>w \<in> set ws. \<forall>e. w = WriteFail e \<longrightarrow> e = EINTR"
    and "length (unsent (cx c)) \<le> sum_list (map taken ws)"
    and "cwrites c = ws @ rs"
  obtains e ws' where "write_loop_fd E (ws @ rs) c = Some (Inr (set_x reinit (sent_to c e ws' (length (unsent (cx c))))))"
  using assms
proof (induction ws arbitrary: c thesis)
  case Nil
  then show ?case
    using Nil.prems(1) [of "cerrno c" "cwrites c"] write_loop_step(1) [OF Nil.prems(2,3), of E rs]
    by (simp add: sent_to_def)
next
  case (Cons w ws)
  show ?case
  proof (cases "unsent (cx c) = []")
    case True
    then show ?thesis
      using Cons.prems(1) [of "cerrno c" "cwrites c"] write_loop_step(1) [OF Cons.prems(2,3) True, of E "w # ws @ rs"]
      by (simp add: sent_to_def)
  next
    case False
    note s = write_loop_step [OF Cons.prems(2,3)]
    define k where "k = min (taken w) (length (unsent (cx c)))"
    define e where "e = (case w of Wrote n \<Rightarrow> cerrno c | WriteFail e \<Rightarrow> e)"
    let ?c = "sent_to c e (ws @ rs) k"
    have k: "k \<le> length (unsent (cx c))" by (simp add: k_def)
    note t = sent_to_again [OF Cons.prems(2,3) k, of e "ws @ rs"]
    have step: "write_loop_fd E ((w # ws) @ rs) c = write_loop_fd E (ws @ rs) ?c"
      using s(3) [OF False, of E e "ws @ rs"] s(4) [OF False, of E "taken w" "ws @ rs"] Cons.prems(4)
      by (cases w) (auto simp: k_def e_def sent_to_def Let_def)
    show ?thesis
    proof (rule Cons.IH [OF _ t(3,4)])
      show "\<forall>w \<in> set ws. \<forall>e. w = WriteFail e \<longrightarrow> e = EINTR" using Cons.prems(4) by simp
      show "length (unsent (cx ?c)) \<le> sum_list (map taken ws)"
        unfolding t(2) using Cons.prems(5) by (simp add: k_def)
      show "cwrites ?c = ws @ rs" by (simp add: sent_to_def)
    qed (use Cons.prems(1) step k t(1,2) in auto)
  qed
qed

section \<open>The state between two calls\<close>

text \<open>
  A connection is never left in \<^verbatim>\<open>CONN_PROCESSING\<close>; a fresh one is empty, one that reads waits for
  more, one that writes has more to send; lengths are within the memory.
\<close>

fun state_ok :: "ConnState \<Rightarrow> connFdStateMach \<Rightarrow> bool" where
  "state_ok CONN_READY x \<longleftrightarrow> cursor x = 0 \<and> reqlen x = 0 \<and> sl_len (xin x) = 0 \<and> sl_len (xout x) = 0"
| "state_ok CONN_READING x \<longleftrightarrow> cursor x = 0 \<and> sl_len (xout x) = 0 \<and> sl_len (xin x) < reqlen x"
| "state_ok CONN_PROCESSING x \<longleftrightarrow> False"
| "state_ok CONN_WRITING x \<longleftrightarrow> cursor x < sl_len (xout x)"

definition conn_ok :: "connFdStateMach \<Rightarrow> bool" where
  "conn_ok x \<longleftrightarrow> slice_ok (xin x) \<and> slice_ok (xout x) \<and> state_ok (cstate x) x"

lemma conn_ok_reinit [simp]: "conn_ok (reinit x) \<longleftrightarrow> sl_set (xin x) \<and> sl_set (xout x)"
  by (simp add: conn_ok_def reinit_def slice_ok_def)

lemma reinit_set [simp]: "sl_set (xin (reinit x)) = sl_set (xin x)" "sl_set (xout (reinit x)) = sl_set (xout x)"
  by (simp_all add: reinit_def)

lemma conn_ok_new [simp]: "conn_ok (new_conn init fd) \<longleftrightarrow> init"
  by (simp add: new_conn_def)

lemma conn_okD: "conn_ok x \<Longrightarrow> sl_set (xin x) \<and> sl_set (xout x)"
  by (simp add: conn_ok_def)

lemma xfd_reinit [simp]: "xfd (reinit x) = xfd x"
  by (simp add: reinit_def)

text \<open>The encoder leaves a valid slice.\<close>

definition encode_laws :: "('w, 'd, 'it) conn_env \<Rightarrow> bool" where
  "encode_laws E \<longleftrightarrow> (\<forall>v s. slice_ok s \<longrightarrow> slice_ok (fst (sv_encode (ce_server E) v s)))"

lemma handle_out:
  assumes "ReqHandler_handle S inp out w m = Some (Inr (out', err, w', m'))"
  shows "out' = out \<or> (\<exists>v. out' = fst (sv_encode S v out))"
proof -
  have e: "\<exists>v. out' = fst (sv_encode S v out)" if "handle_encode S rid r out = Inr (out', err, w', m')" for rid r
    using that by (auto simp: handle_encode_def split_beta split: if_splits)
  show ?thesis
    using assms
    by (auto simp: ReqHandler_handle_def split_beta res_bind_Inr_iff intro: e
        split: option.splits sum.splits codec_value.splits list.splits)
qed

text \<open>
  What a call may leave: \<open>call_ok\<close>.  The laws are those of the parameters: the memory routines,
  the eight bytes of the array, the file system and the map order of the request handler.
\<close>

definition conn_laws :: "('w, 'd, 'it) conn_env \<Rightarrow> bool" where
  "conn_laws E \<longleftrightarrow> expand_laws E \<and> encode_laws E \<and> length (ce_junk E) = 8
     \<and> opens_report (sv_env (ce_server E)) \<and> order_laws (sv_order (ce_server E))"

lemma conn_lawsD:
  assumes "conn_laws E"
  shows "expand_laws E" "encode_laws E" "length (ce_junk E) = 8"
    "opens_report (sv_env (ce_server E))" "order_laws (sv_order (ce_server E))"
  using assms by (simp_all add: conn_laws_def)

abbreviation conn_faults :: "fault set" where
  "conn_faults \<equiv> {OobRead, BadUnion, UseAfterFree}"

definition call_ok :: "int \<Rightarrow> ('w, 'd) call \<Rightarrow> bool" where
  "call_ok fd c \<longleftrightarrow> conn_ok (cx c) \<and> xfd (cx c) = fd \<and> owned (cmgr c)"

lemma doWriteFd_ok:
  assumes "slice_ok (xin (cx c))" "slice_ok (xout (cx c))" "cursor (cx c) \<le> sl_len (xout (cx c))"
    "cstate (cx c) = CONN_WRITING" "owned (cmgr c)" "doWriteFd E c = Some r"
  shows "safe conn_faults (call_ok (xfd (cx c))) r"
proof -
  note w = assms(6) [unfolded doWriteFd_def]
  show ?thesis
  proof (cases rule: write_outcomes [OF assms(2,3) w refl, case_names sent blocked failed])
    case (blocked e ws k)
    let ?c = "sent_to c e ws k"
    have "unsent (cx ?c) \<noteq> []"
      using blocked(2) sent_to_again(2) [OF assms(2,3), of k e ws] by simp
    then have "cursor (cx ?c) \<noteq> sl_len (xout (cx ?c))"
      by (auto simp: unsent_def contents_def)
    then show ?thesis
      using blocked(2,3) sent_to_again(3,4) [OF assms(2,3), of k e ws] assms(1,4,5)
      by (auto simp: conn_ok_def call_ok_def sent_to_def)
  qed (use assms(1,2,5) in \<open>simp_all add: sent_to_def call_error_def call_ok_def\<close>)
qed

lemma doProcessFd_ok:
  assumes "conn_laws E" "slice_ok (xout (cx c))" "cursor (cx c) = 0" "owned (cmgr c)" "doProcessFd E c = Some r"
    and "sl_set (xin (cx c))"
  shows "safe conn_faults (call_ok (xfd (cx c))) r"
proof (cases "slice_range (xin (cx c)) 0 (unat (sl_len (xin (cx c))))")
  case (Inl f)
  then show ?thesis using assms(5,6) by (auto simp: doProcessFd_def slice_range_def split: if_splits)
next
  case (Inr inp)
  then have xin: "slice_ok (xin (cx c))"
    by (simp add: slice_range_def slice_ok_def split: if_splits)
  obtain h where h: "ReqHandler_handle (ce_server E) inp (xout (cx c)) (cworld c) (cmgr c) = Some h"
    using assms(5) Inr by (cases "ReqHandler_handle (ce_server E) inp (xout (cx c)) (cworld c) (cmgr c)")
      (auto simp: doProcessFd_def)
  note f = handle_faults [OF conn_lawsD(4,5) [OF assms(1)] assms(4) h]
  show ?thesis
  proof (cases h)
    case (Inl e)
    then show ?thesis using f h assms(5) Inr by (auto simp: doProcessFd_def)
  next
    case h': (Inr y)
    obtain out err w m where y: "y = (out, err, w, m)" by (metis prod_cases4)
    let ?c = "set_x (\<lambda>x. x\<lparr>xout := out, cstate := CONN_WRITING\<rparr>) (c\<lparr>cworld := w, cmgr := m\<rparr>)"
    have out: "slice_ok out"
      using handle_out [of _ _ _ _ _ out err w m] h h' y assms(2) conn_lawsD(2) [OF assms(1)]
      by (fastforce simp: encode_laws_def)
    have r: "Some r = (case err of Some e \<Rightarrow> Some (Inr (set_x reinit (?c\<lparr>cerr := e\<rparr>))) | None \<Rightarrow> doWriteFd E ?c)"
      using assms(5) Inr h h' y by (simp add: doProcessFd_def reinit_def Let_def split: option.splits)
    have o: "owned m" using f h' y by simp
    show ?thesis
    proof (cases err)
      case None
      then show ?thesis
        using doWriteFd_ok [of ?c E r] r xin out assms(3) o by simp
    qed (use r o xin out in \<open>simp add: call_ok_def\<close>)
  qed
qed

text \<open>No call gives more than it was asked for.\<close>

lemma read_got_take:
  "sl_len (xin (cx c)) < reqlen (cx c) \<Longrightarrow>
   read_loop_fd E (Got ds # rs) c = read_loop_fd E (Got (take (unat (read_count c)) ds) # rs) c"
  by (subst (1 2) read_loop_fd.simps) simp

lemma read_count_pos: "sl_len (xin (cx c)) < reqlen (cx c) \<Longrightarrow> 0 < unat (read_count c)"
  by (auto simp: read_count_def Let_def FD_BUF_INCR_def unat_gt_0)

text \<open>One call of \<^verbatim>\<open>read\<close>, whatever its result.\<close>

lemma read_step:
  assumes "expand_laws E" "slice_ok (xin (cx c))" "sl_len (xin (cx c)) < reqlen (cx c)"
  obtains (eof) s where "read_loop_fd E (r # rs) c = Some (Inr (False, set_x (set_in s) (c\<lparr>creads := rs\<rparr>)))"
    "slice_ok s" "sl_len s = sl_len (xin (cx c))"
  | (more) s e d where "read_loop_fd E (r # rs) c =
      read_loop_fd E rs (set_x (set_in s) (c\<lparr>creads := rs, cerrno := e, creceived := d\<rparr>))"
     "slice_ok s \<or> sl_len s = - 1" "sl_set s"
proof (cases r)
  case (Got ds)
  let ?n = "unat (read_count c)"
  let ?s = "expand E (read_count c) (xin (cx c))"
  note x = expand_ok [OF assms(1,2), of "read_count c"]
  note t = read_got_take [OF assms(3), of E ds rs]
  show ?thesis
  proof (cases "ds = []")
    case True
    have "read_loop_fd E (r # rs) c = Some (Inr (False, set_x (set_in ?s) (c\<lparr>creads := rs\<rparr>)))"
      using True Got assms(3) x(1,3) slice_ok_set [OF assms(2)]
      by (subst read_loop_fd.simps) (simp add: set_in_def write_at_def)
    then show ?thesis using eof x(1,4) by blast
  next
    case False
    have "take ?n ds \<noteq> []" "length (take ?n ds) \<le> ?n" using False read_count_pos [OF assms(3)] by simp_all
    from read_got [OF assms this, of rs] obtain s where s: "slice_ok s" "read_loop_fd E (Got (take ?n ds) # rs) c =
        read_loop_fd E rs (set_x (set_in s) (c\<lparr>creads := rs, creceived := creceived c @ take ?n ds\<rparr>))"
      by blast
    show ?thesis
      by (rule more [of s "creceived c @ take ?n ds" "cerrno c"]) (use s Got t in simp_all)
  qed
next
  case (ReadFail e)
  let ?s = "(expand E (read_count c) (xin (cx c)))\<lparr>sl_len := sl_len (xin (cx c)) - 1\<rparr>"
  have "slice_ok ?s \<or> sl_len ?s = - 1"
  proof (cases "sl_len (xin (cx c)) = 0")
    case False
    then show ?thesis
      using expand_ok(1,4) [OF assms(1,2), of "read_count c"]
      by (auto simp: slice_ok_def unat_minus_one)
  qed simp
  then show ?thesis
    using more [of ?s "creceived c" e] read_fail [OF slice_ok_set [OF assms(2)] assms(3), of E e rs] ReadFail assms(2) by simp
qed

lemma read_loop_ok:
  assumes "expand_laws E" "(slice_ok (xin (cx c)) \<or> sl_len (xin (cx c)) = - 1) \<and> sl_set (xin (cx c))"
    and "read_loop_fd E rs c = Some r" "creads c = rs"
  obtains (complete) s e rs' d where "r = Inr (True, set_x (set_in s) (c\<lparr>creads := rs', cerrno := e, creceived := d\<rparr>))" "sl_set s"
  | (waiting) s e rs' d where "r = Inr (False, set_x (set_in s) (c\<lparr>creads := rs', cerrno := e, creceived := d\<rparr>))"
     "slice_ok s" "sl_len s < reqlen (cx c)"
  using assms
proof (induction rs arbitrary: c thesis)
  case Nil
  then have "r = Inr (True, c)" "set_in (xin (cx c)) (cx c) = cx c"
    by (simp_all add: read_loop_fd.simps [of E "[]" c] set_in_def split: if_splits)
  then show ?case using Nil.prems(1) [of "xin (cx c)" "creceived c" "cerrno c" "creads c"] Nil.prems(4) by simp
next
  case (Cons r' rs)
  show ?case
  proof (cases "sl_len (xin (cx c)) < reqlen (cx c)")
    case False
    then have "r = Inr (True, c)" "set_in (xin (cx c)) (cx c) = cx c"
      using Cons.prems(5) by (simp_all add: read_loop_fd.simps [of E "r' # rs" c] set_in_def)
    then show ?thesis using Cons.prems(1) [of "xin (cx c)" "creceived c" "cerrno c" "creads c"] Cons.prems(4) by simp
  next
    case True
    then have s: "slice_ok (xin (cx c))"
      using Cons.prems(4) word_order.extremum_strict [of "reqlen (cx c)"] by auto
    show ?thesis
    proof (cases rule: read_step [OF Cons.prems(3) s True, of r' rs, case_names eof more])
      case (eof s)
      then show ?thesis
        using Cons.prems(2) [of s "creceived c" "cerrno c" rs] Cons.prems(5) True by simp
    next
      case (more s e d)
      let ?c = "set_x (set_in s) (c\<lparr>creads := rs, cerrno := e, creceived := d\<rparr>)"
      show ?thesis
        by (rule Cons.IH [of ?c]) (use Cons.prems more in \<open>auto simp: set_in_def\<close>)
    qed
  qed
qed

lemma doReadFd_ok:
  assumes "conn_laws E" "slice_ok (xin (cx c))" "slice_ok (xout (cx c))"
    and "sl_len (xout (cx c)) = 0" "cursor (cx c) = 0" "cstate (cx c) = CONN_READING" "owned (cmgr c)"
    and "doReadFd E c = Some r"
  shows "safe conn_faults (call_ok (xfd (cx c))) r"
proof -
  let ?k = "\<lambda>(complete, c).
       if complete then doProcessFd E (set_x (\<lambda>x. x\<lparr>cstate := CONN_PROCESSING\<rparr>) c) else Some (Inr c)"
  obtain r0 where r0: "read_loop_fd E (creads c) c = Some r0" "run_bind (Some r0) ?k = Some r"
    using assms(8) by (cases "read_loop_fd E (creads c) c") (auto simp: doReadFd_def)
  show ?thesis
  proof (cases rule: read_loop_ok [OF conn_lawsD(1) [OF assms(1)] _ r0(1) refl,
        case_names ok complete waiting])
    case ok
    then show ?case using assms(2) by simp
  next
    case (complete s e rs d)
    then have "doProcessFd E (set_x (\<lambda>x. x\<lparr>cstate := CONN_PROCESSING\<rparr>)
        (set_x (set_in s) (c\<lparr>creads := rs, cerrno := e, creceived := d\<rparr>))) = Some r"
      using r0(2) by simp
    from doProcessFd_ok [OF assms(1) _ _ _ this] show ?thesis
      using assms(3,5,7) complete(2) by (simp add: set_in_def)
  next
    case (waiting s e rs d)
    then show ?thesis
      using r0(2) assms(3-7) by (auto simp: conn_ok_def call_ok_def set_in_def)
  qed
qed

lemma write_at_length: "write_at b pos ds = Inr b' \<Longrightarrow> length b' = length b"
  by (auto simp: write_at_def split: if_splits)

text \<open>The input slice and the state after the header.\<close>

definition after_header :: "('w, 'd, 'it) conn_env \<Rightarrow> bytes \<Rightarrow> slice \<Rightarrow> ('w, 'd) call \<Rightarrow> ('w, 'd) call" where
  "after_header E hdr s c = set_x (\<lambda>x. x\<lparr>xin := s,
     reqlen := be_read (sv_codec64 (ce_server E)) (length_array hdr (Suc (unat (hdr ! 0)))),
     cstate := CONN_READING\<rparr>) c"

lemma start_request_cases:
  assumes "expand_laws E" "slice_ok (xin (cx c))" "sl_len (xin (cx c)) = 0" "length hdr = 8"
  obtains (bad) "7 < hdr ! 0" "start_request E hdr c = Some (Inr (c\<lparr>cerr := take 127 (bad_length_msg (hdr ! 0))\<rparr>))"
  | (good) s where "hdr ! 0 \<le> 7" "slice_ok s" "contents s = drop (Suc (unat (hdr ! 0))) hdr"
      "start_request E hdr c = doReadFd E (after_header E hdr s c)"
proof (cases "7 < hdr ! 0")
  case True
  then show ?thesis using bad by (simp add: start_request_def)
next
  case False
  let ?n = "Suc (unat (hdr ! 0))"
  have n: "unat (hdr ! 0) \<le> 7" using False by (simp add: word_le_nat_alt not_less)
  show ?thesis
  proof (cases "?n < 8")
    case True
    let ?s = "expand E (of_nat (8 - ?n)) (xin (cx c))"
    have u: "unat (of_nat (8 - ?n) :: u64) = 8 - ?n" by (simp add: unat_of_nat)
    obtain b where b: "write_at (sl_buf ?s) 0 (drop ?n hdr) = Inr b" "take (8 - ?n) b = drop ?n hdr"
      "length b = length (sl_buf ?s)"
      using write_at_end [of 0 "drop ?n hdr" "sl_buf ?s"] expand_ok(3) [OF assms(1,2), of "of_nat (8 - ?n)"]
        assms(3,4) u by auto
    show ?thesis
    proof (rule good [of "?s\<lparr>sl_buf := b, sl_len := of_nat (8 - ?n)\<rparr>"])
      show "slice_ok (?s\<lparr>sl_buf := b, sl_len := of_nat (8 - ?n)\<rparr>)"
        using b(3) expand_ok(3) [OF assms(1,2), of "of_nat (8 - ?n)"] u assms(2,3) by (simp add: slice_ok_def)
      show "start_request E hdr c = doReadFd E (after_header E hdr (?s\<lparr>sl_buf := b, sl_len := of_nat (8 - ?n)\<rparr>) c)"
        using b(1) True False assms(2) by (simp add: start_request_def after_header_def Let_def)
    qed (use b(2) u False in \<open>simp_all add: contents_def\<close>)
  next
    case nn: False
    then have "?n = 8" using n by simp
    then show ?thesis
      using good [of "xin (cx c)"] False assms nn
      by (simp add: start_request_def after_header_def Let_def contents_def)
  qed
qed

text \<open>
  The header comes whole: the first call that gives anything gives all eight bytes, and no later
  one fails.
\<close>

fun header_whole :: "read_result list \<Rightarrow> bool" where
  "header_whole [] \<longleftrightarrow> True"
| "header_whole (Got ds # rs) \<longleftrightarrow> (if ds = [] then header_whole rs else 8 \<le> length ds \<and> (\<forall>r \<in> set rs. \<not> failed r))"
| "header_whole (ReadFail e # rs) \<longleftrightarrow> header_whole rs"

lemma start_loop_cases:
  assumes "length (ce_junk E) = 8" "start_loop_fd E rs c = Some r"
  obtains (quiet) e rs' where "r = Inr (c\<lparr>creads := rs', cerrno := e\<rparr>)"
  | (refused) n e rs' where "r = Inr (call_error (read_msg E n e) (c\<lparr>creads := rs', cerrno := e\<rparr>))"
  | (request) ds e rs' where "ds \<noteq> []" "length ds \<le> 8" "header_whole rs \<Longrightarrow> length ds = 8 \<and> (\<forall>r \<in> set rs'. \<not> failed r)"
     "start_request E (ds @ drop (length ds) (ce_junk E))
        (c\<lparr>creads := rs', cerrno := e, creceived := creceived c @ ds\<rparr>) = Some r"
  using assms
proof (induction rs arbitrary: c thesis)
  case (Cons x rs)
  define e where "e = (case x of Got ds \<Rightarrow> cerrno c | ReadFail e \<Rightarrow> e)"
  define ds where "ds = (case x of Got ds \<Rightarrow> take 8 ds | ReadFail e \<Rightarrow> [])"
  let ?c = "c\<lparr>creads := rs, cerrno := e, creceived := creceived c @ ds\<rparr>"
  have c: "(case x of Got ds \<Rightarrow> c | ReadFail e \<Rightarrow> c\<lparr>cerrno := e\<rparr>)\<lparr>creads := rs, creceived := creceived c @ ds\<rparr> = ?c"
    by (cases x) (simp_all add: e_def)
  define n where "n = (case x of Got _ \<Rightarrow> int (length ds) | ReadFail _ \<Rightarrow> -1)"
  have l: "length ds \<le> 8" "n \<le> 0 \<longleftrightarrow> ds = []"
    by (auto simp: ds_def n_def min_def split: read_result.split if_splits)
  have w: "header_whole (x # rs) \<Longrightarrow> if ds = [] then header_whole rs else length ds = 8 \<and> (\<forall>r \<in> set rs. \<not> failed r)"
    by (cases x) (auto simp: ds_def split: if_splits)
  have step: "start_loop_fd E (x # rs) c =
     (if n \<le> 0 then
        (if e = EINTR then start_loop_fd E rs ?c
         else if e = EAGAIN \<or> e = EWOULDBLOCK then Some (Inr ?c) else Some (Inr (call_error (read_msg E n e) ?c)))
      else start_request E (ds @ drop (length ds) (ce_junk E)) ?c)"
    by (simp only: start_loop_fd.simps Let_def c flip: ds_def n_def) simp
  note start_loop_fd.simps [simp del]
  show ?case
  proof (cases "ds = []")
    case True
    then have same: "?c = c\<lparr>creads := rs, cerrno := e\<rparr>" by simp
    show ?thesis
    proof (cases "e = EINTR")
      case eintr: True
      have "start_loop_fd E rs (c\<lparr>creads := rs, cerrno := e\<rparr>) = Some r"
        using Cons.prems(5) step l(2) \<open>ds = []\<close> eintr by simp
      then show ?thesis
      proof (rule Cons.IH [OF _ _ _ Cons.prems(4), rotated 3])
        fix ds' e' rs'
        assume "ds' \<noteq> []" "length ds' \<le> 8" "header_whole rs \<Longrightarrow> length ds' = 8 \<and> (\<forall>r \<in> set rs'. \<not> failed r)"
          "start_request E (ds' @ drop (length ds') (ce_junk E))
            (c\<lparr>creads := rs, cerrno := e\<rparr>\<lparr>creads := rs', cerrno := e', creceived := creceived (c\<lparr>creads := rs, cerrno := e\<rparr>) @ ds'\<rparr>) = Some r"
        then show ?thesis using Cons.prems(3) [of ds' rs' e'] w True by simp
      qed (use Cons.prems(1,2) in auto)
    next
      case False
      then show ?thesis
        using Cons.prems(1) [of e rs] Cons.prems(2) [of n e rs] Cons.prems(5) step l \<open>ds = []\<close>
        by (auto simp del: start_loop_fd.simps split: if_splits)
    qed
  next
    case False
    then show ?thesis
      using Cons.prems(3) [OF False l(1), of rs e] Cons.prems(5) step l w by (simp split: if_splits)
  qed
qed simp

lemma doStartFd_ok:
  assumes "conn_laws E" "sl_set (xin (cx c))" "sl_set (xout (cx c))" "owned (cmgr c)" "doStartFd E c = Some r"
  shows "safe conn_faults (call_ok (xfd (cx c))) r"
proof -
  let ?c = "set_x reinit c"
  have s: "start_loop_fd E (creads c) ?c = Some r"
    using assms(5) by (simp add: doStartFd_def)
  have fresh: "slice_ok (xin (cx ?c))" "slice_ok (xout (cx ?c))" "sl_len (xin (cx ?c)) = 0"
    "sl_len (xout (cx ?c)) = 0" "cursor (cx ?c) = 0"
    using assms(2,3) by (simp_all add: reinit_def slice_ok_def)
  show ?thesis
  proof (cases rule: start_loop_cases [OF conn_lawsD(3) [OF assms(1)] s, case_names quiet refused request])
    case (request ds e rs)
    let ?hdr = "ds @ drop (length ds) (ce_junk E)"
    let ?d = "?c\<lparr>creads := rs, cerrno := e, creceived := creceived ?c @ ds\<rparr>"
    have hdr: "length ?hdr = 8" using request(2) conn_lawsD(3) [OF assms(1)] by simp
    show ?thesis
    proof (cases rule: start_request_cases [where c = ?d, OF conn_lawsD(1) [OF assms(1)] _ _ hdr,
          case_names i l bad good])
      case (good s)
      then have "doReadFd E (after_header E ?hdr s ?d) = Some r" using request(4) by simp
      from doReadFd_ok [OF assms(1) _ _ _ _ _ _ this] show ?thesis
        using good(2) fresh assms(4) by (simp add: after_header_def)
    next
      case bad
      then show ?thesis using request(4) assms(2-4) by (auto simp: call_ok_def)
    qed (use fresh in auto)
  qed (use assms(2-4) in \<open>auto simp: call_error_def call_ok_def\<close>)
qed

lemma handle_state_ok:
  assumes "conn_laws E" "call_ok fd c" "handle_state E c = Some r"
  shows "safe conn_faults (call_ok fd) r"
  using assms(2,3) doStartFd_ok [OF assms(1), of c r] doReadFd_ok [OF assms(1), of c r] doWriteFd_ok [of c E r]
  by (cases "cstate (cx c)") (auto simp: handle_state_def call_ok_def conn_ok_def order_less_imp_le)

section \<open>The handler over time\<close>

text \<open>
  The state of a handler: its connections, the world, the manager, \<^verbatim>\<open>errno\<close>.  Each socket may be
  ready at any time, with any results of its system calls, and may be closed at any time.
\<close>

type_synonym ('w, 'd) handler = "conns \<times> 'w \<times> 'd manager \<times> errno"

definition new_call :: "'w \<Rightarrow> 'd manager \<Rightarrow> errno \<Rightarrow> read_result list \<Rightarrow> write_result list \<Rightarrow> ('w, 'd) call" where
  "new_call w m e rs ws = \<lparr>cx = new_conn True 0, cworld = w, cmgr = m, cerrno = e, cerr = [], creads = rs,
     cwrites = ws, csent = [], creceived = []\<rparr>"

inductive handler_step :: "('w, 'd, 'it) conn_env \<Rightarrow> ('w, 'd) handler \<Rightarrow> ('w, 'd) handler \<Rightarrow> bool"
  for E where
  ready: "handleFd E fd cs (new_call w m e rs ws) = Some (Inr (cs', c)) \<Longrightarrow>
    handler_step E (cs, w, m, e) (cs', cworld c, cmgr c, cerrno c)"
| closed: "handler_step E (cs, w, m, e) (unregisterFd fd cs, w, m, e)"
| others: "handler_step E (cs, w, m, e) (cs, w, m, e')"

inductive_cases handler_stepE: "handler_step E s s'"

text \<open>
  A connection that is kept: where the slices of a new connection are set it is well formed; where they are not it is
  still new, because the first call that would use one does not end well.
\<close>

definition conn_kept :: "bool \<Rightarrow> connFdStateMach \<Rightarrow> bool" where
  "conn_kept init x \<longleftrightarrow> (if init then conn_ok x else x = new_conn False (xfd x))"

definition conns_ok :: "bool \<Rightarrow> conns \<Rightarrow> bool" where
  "conns_ok init cs \<longleftrightarrow> (\<forall>fd x. cs fd = Some x \<longrightarrow> conn_kept init x \<and> xfd x = fd)"

definition handler_faults :: "bool \<Rightarrow> fault set" where
  "handler_faults init = (if init then conn_faults else {Uninit})"

lemma xfd_new [simp]: "xfd (new_conn init fd) = fd"
  by (simp add: new_conn_def)

lemma reinit_new [simp]: "reinit (new_conn init fd) = new_conn init fd"
  by (simp add: new_conn_def reinit_def)

lemma new_conn_sel [simp]: "cstate (new_conn init fd) = CONN_READY" "sl_set (xin (new_conn init fd)) = init"
  by (simp_all add: new_conn_def reinit_def)

lemma conn_kept_new [simp]: "conn_kept init (new_conn init fd)"
  by (simp add: conn_kept_def)

lemma stateFor_ok:
  "conns_ok init cs \<Longrightarrow> \<exists>x cs'. stateFor init fd cs = (Some x, cs') \<and> conn_kept init x \<and> xfd x = fd \<and> conns_ok init cs'"
  by (auto simp: stateFor_def conns_ok_def split: option.splits)

text \<open>Calls for a new connection whose slices are not set: the first one that receives a good length byte faults.\<close>

lemma doReadFd_unset: "\<not> sl_set (xin (cx c)) \<Longrightarrow> doReadFd E c = Some (Inl Uninit)"
  by (simp add: doReadFd_def read_loop_fd.simps [of E "creads c" c] doProcessFd_def slice_range_def)

lemma start_request_unset:
  assumes "\<not> sl_set (xin (cx c))"
  shows "start_request E hdr c =
    Some (if 7 < hdr ! 0 then Inr (c\<lparr>cerr := take 127 (bad_length_msg (hdr ! 0))\<rparr>) else Inl Uninit)"
  using assms by (simp add: start_request_def Let_def doReadFd_unset)

lemma error_not_empty [simp]: "read_msg E n e \<noteq> []" "write_msg E n e \<noteq> []" "bad_length_msg b \<noteq> []"
  by (simp_all add: read_msg_def write_msg_def bad_length_msg_def)

definition idle_call :: "('w, 'd) call \<Rightarrow> ('w, 'd) call \<Rightarrow> bool" where
  "idle_call c c' \<longleftrightarrow> cx c' = cx c \<and> cworld c' = cworld c \<and> cmgr c' = cmgr c \<and> csent c' = csent c
     \<and> (header_whole (creads c) \<and> cerr c' = [] \<longrightarrow> creceived c' = creceived c)"

lemma unset_call:
  assumes "length (ce_junk E) = 8" "cx c = new_conn False fd" "handle_state E c = Some r"
  shows "safe {Uninit} (idle_call c) r"
proof -
  have x: "c\<lparr>cx := reinit (cx c)\<rparr> = c" by (rule call.equality) (simp_all add: assms(2))
  have "cstate (cx c) = CONN_READY" by (simp add: assms(2))
  then have s: "start_loop_fd E (creads c) c = Some r"
    using assms(3) unfolding handle_state_def doStartFd_def x by simp
  show ?thesis
  proof (cases rule: start_loop_cases [OF assms(1) s, case_names quiet refused request])
    case (request ds e rs)
    let ?d = "c\<lparr>creads := rs, cerrno := e, creceived := creceived c @ ds\<rparr>"
    have "\<not> sl_set (xin (cx ?d))" by (simp add: assms(2))
    from start_request_unset [OF this, of E "ds @ drop (length ds) (ce_junk E)"] request(4) show ?thesis
      by (auto simp: idle_call_def split: if_splits)
  qed (auto simp: idle_call_def call_error_def assms(2))
qed

lemma handleFd_ok:
  assumes "conn_laws E" "conns_ok (ce_init E) cs" "owned m"
    and "handleFd E fd cs (new_call w m e rs ws) = Some r"
  shows "safe (handler_faults (ce_init E)) (\<lambda>(cs', c). conns_ok (ce_init E) cs' \<and> owned (cmgr c)) r"
proof -
  obtain x cs0 where x: "stateFor (ce_init E) fd cs = (Some x, cs0)" "conn_kept (ce_init E) x" "xfd x = fd" "conns_ok (ce_init E) cs0"
    using stateFor_ok [OF assms(2)] by blast
  let ?c = "(new_call w m e rs ws)\<lparr>cx := x\<rparr>"
  obtain r0 where r0: "handle_state E ?c = Some r0" "run_bind (Some r0) (\<lambda>c. Some (Inr (cs0(fd \<mapsto> cx c), c))) = Some r"
    using assms(4) x(1) by (cases "handle_state E ?c") (auto simp: handleFd_def)
  have "safe (handler_faults (ce_init E)) (\<lambda>c. conn_kept (ce_init E) (cx c) \<and> xfd (cx c) = fd \<and> owned (cmgr c)) r0"
  proof (cases "ce_init E")
    case True
    have "safe conn_faults (call_ok fd) r0"
      by (rule handle_state_ok [OF assms(1) _ r0(1)]) (use x(2,3) assms(3) True in \<open>simp add: call_ok_def conn_kept_def new_call_def\<close>)
    then show ?thesis using True by (cases r0) (auto simp: handler_faults_def call_ok_def conn_kept_def)
  next
    case False
    then have "cx ?c = new_conn False fd" using x(2,3) by (simp add: conn_kept_def)
    from unset_call [OF conn_lawsD(3) [OF assms(1)] this r0(1)] x(2,3) assms(3) False show ?thesis
      by (cases r0) (auto simp: handler_faults_def idle_call_def new_call_def)
  qed
  then show ?thesis
    using r0(2) x(4) by (cases r0) (auto simp: conns_ok_def)
qed

lemma handler_steps_ok:
  assumes "conn_laws E" "(handler_step E)\<^sup>*\<^sup>* s s'" "conns_ok (ce_init E) (fst s)" "owned (fst (snd (snd s)))"
  shows "conns_ok (ce_init E) (fst s') \<and> owned (fst (snd (snd s')))"
  using assms(2)
proof (induction rule: rtranclp_induct)
  case (step s s')
  from step(2) show ?case
  proof (cases rule: handler_stepE [consumes 1, case_names ready closed others])
    case (ready fd cs w m e rs ws cs' c)
    then show ?thesis
      using handleFd_ok [OF assms(1) _ _ ready(3)] step.IH by simp
  qed (use step.IH in \<open>auto simp: conns_ok_def unregisterFd_def\<close>)
qed (use assms(3,4) in simp)

section \<open>The length of a request\<close>

lemma be_value_acc:
  "foldl (\<lambda>a b. push_bit 8 a OR ucast b) a xs = (push_bit (8 * length xs) a OR be_value xs :: u64)"
proof (induction xs rule: rev_induct)
  case (snoc x xs)
  show ?case
    unfolding foldl_append snoc.IH be_value_def
    by (rule bit_word_eqI) (auto simp: bit_simps)
qed (simp add: be_value_def)

lemma be_value_zeros: "be_value (replicate k 0 @ xs) = be_value xs"
  by (induction k) (simp_all add: be_value_def)

lemma be_value_short: "take_bit (8 * length xs) (be_value xs) = be_value xs"
proof (induction xs rule: rev_induct)
  case (snoc x xs)
  have "take_bit (8 * Suc (length xs)) (push_bit 8 (be_value xs) OR ucast x)
      = push_bit 8 (take_bit (8 * length xs) (be_value xs)) OR (ucast x :: u64)"
    by (rule bit_word_eqI) (auto simp: bit_simps dest: bit_imp_le_length)
  then show ?case
    by (simp add: be_value_def snoc.IH [unfolded be_value_def])
qed (simp add: be_value_def)

lemma be_value_bit: "bit (be_value xs) n \<Longrightarrow> n < 8 * length xs"
  by (metis be_value_short bit_take_bit_iff)

lemma be_value_Cons: "be_value (b # xs) = of_nat (unat b * 256 ^ length xs) + be_value xs"
proof -
  have "be_value (b # xs) = push_bit (8 * length xs) (ucast b) OR be_value xs"
    using be_value_acc [of "ucast b" xs] by (simp add: be_value_def)
  also have "\<dots> = push_bit (8 * length xs) (ucast b) + be_value xs"
    by (subst disjunctive_add) (auto simp: bit_simps dest: be_value_bit)
  also have "push_bit (8 * length xs) (ucast b) = (of_nat (unat b * 256 ^ length xs) :: u64)"
    by (simp add: push_bit_eq_mult power_mult)
  finally show ?thesis by simp
qed

lemma header_value:
  assumes "length (nb # lb @ body) = 8" "length lb = unat nb" "nb \<le> 7"
  shows "be_value (length_array (nb # lb @ body) (Suc (unat nb))) = of_nat (unat nb * 256 ^ unat nb) + be_value lb"
proof -
  have "length_array (nb # lb @ body) (Suc (unat nb)) = replicate (7 - unat nb) 0 @ nb # lb"
    using assms by (cases "unat nb = 7") (auto simp: length_array_def)
  then show ?thesis by (simp add: be_value_zeros be_value_Cons assms(2))
qed

text \<open>A request that starts with a whole header.\<close>

lemma start_header:
  assumes "expand_laws E" "length (ce_junk E) = 8" "be_read (sv_codec64 (ce_server E)) = be_value"
    and "length (nb # lb @ body) = 8" "length lb = unat nb" "nb \<le> 7" "creads c = Got (nb # lb @ body) # rs"
    and "sl_set (xin (cx c))"
  obtains s where "slice_ok s" "contents s = body"
    "doStartFd E c = doReadFd E (set_x (\<lambda>x. (reinit x)\<lparr>xin := s,
        reqlen := of_nat (unat nb * 256 ^ unat nb) + be_value lb, cstate := CONN_READING\<rparr>) (c\<lparr>creads := rs, creceived := creceived c @ nb # lb @ body\<rparr>))"
proof -
  let ?hdr = "nb # lb @ body"
  let ?d = "(set_x reinit c)\<lparr>creads := rs, creceived := creceived c @ ?hdr\<rparr>"
  have start: "doStartFd E c = start_request E ?hdr ?d"
    using assms(2,4,7) by (simp add: doStartFd_def Let_def)
  have fresh: "slice_ok (xin (cx ?d))" "sl_len (xin (cx ?d)) = 0"
    using assms(8) by (simp_all add: reinit_def slice_ok_def)
  show ?thesis
  proof (cases rule: start_request_cases [OF assms(1) fresh assms(4), case_names bad good])
    case bad
    then show ?thesis using assms(6) by simp
  next
    case (good s)
    have "contents s = body" using good(3) assms(5) by simp
    then show ?thesis
      using that [OF good(2)] good(4) start header_value [OF assms(4-6)]
      by (simp add: after_header_def assms(3) comp_def)
  qed
qed

section \<open>A whole exchange\<close>

lemma doReadFd_chunks:
  assumes "expand_laws E" "slice_ok (xin (cx c))" "\<forall>ds \<in> set dss. ds \<noteq> [] \<and> length ds \<le> 256"
    and "unat (sl_len (xin (cx c))) + length (concat dss) = unat (reqlen (cx c))"
    and "creads c = map Got dss @ rs"
  obtains s where "slice_ok s" "contents s = contents (xin (cx c)) @ concat dss"
    "doReadFd E c = doProcessFd E (set_x (\<lambda>x. x\<lparr>xin := s, cstate := CONN_PROCESSING\<rparr>)
      (c\<lparr>creads := rs, creceived := creceived c @ concat dss\<rparr>))"
proof -
  obtain s where s: "read_loop_fd E (creads c) c =
      Some (Inr (True, set_x (set_in s) (c\<lparr>creads := rs, creceived := creceived c @ concat dss\<rparr>)))"
    "slice_ok s" "contents s = contents (xin (cx c)) @ concat dss"
    using read_chunks [OF assms] by blast
  show ?thesis by (rule that [of s]) (use s in \<open>simp_all add: doReadFd_def set_in_def\<close>)
qed

lemma doProcessFd_answered:
  assumes "slice_ok (xin (cx c))" "slice_ok out" "cursor (cx c) = 0"
    and "ReqHandler_handle (ce_server E) (contents (xin (cx c))) (xout (cx c)) (cworld c) (cmgr c) = Some (Inr (out, None, w, m))"
    and "\<forall>w \<in> set ws. \<forall>e. w = WriteFail e \<longrightarrow> e = EINTR" "unat (sl_len out) \<le> sum_list (map taken ws)"
    and "cwrites c = ws @ wrest"
  obtains e ws' where "doProcessFd E c = Some (Inr (c\<lparr>cx := reinit ((cx c)\<lparr>xout := out\<rparr>), cworld := w, cmgr := m,
      cerrno := e, cwrites := ws', csent := csent c @ contents out\<rparr>))"
proof -
  let ?c = "set_x (\<lambda>x. x\<lparr>xout := out, cstate := CONN_WRITING\<rparr>) (c\<lparr>cworld := w, cmgr := m\<rparr>)"
  have u: "unsent (cx ?c) = contents out" by (simp add: unsent_def assms(3))
  have p: "doProcessFd E c = write_loop_fd E (ws @ wrest) ?c"
    using assms(4,7) by (simp add: doProcessFd_def slice_range_ok [OF assms(1)] doWriteFd_def)
  have k: "length (unsent (cx ?c)) \<le> sum_list (map taken ws)"
    using assms(6) u length_contents [OF assms(2)] by simp
  have o: "slice_ok (xout (cx ?c))" "cursor (cx ?c) \<le> sl_len (xout (cx ?c))" "cwrites ?c = ws @ wrest"
    using assms(2,3,7) by simp_all
  obtain e ws' where "write_loop_fd E (ws @ wrest) ?c =
      Some (Inr (set_x reinit (sent_to ?c e ws' (length (unsent (cx ?c))))))"
    using write_completes [OF o(1,2) assms(5) k o(3)] by blast
  then show ?thesis
    using that [of ws' e] u by (simp add: p sent_to_def reinit_def)
qed

section \<open>A concrete handler\<close>

text \<open>Every request is one of an unknown method, every response is three bytes.\<close>

definition demo_response :: slice where
  "demo_response = \<lparr>sl_buf = [1, 2, 3], sl_len = 3, sl_set = True\<rparr>"

definition demo_conn :: "(string list, mem_db, mem_it) conn_env" where
  "demo_conn = \<lparr>ce_server = \<lparr>sv_env = sv_env (demo_server [] VNil), sv_rocks = mem_rocks, sv_codec64 = be64,
       sv_decode = (\<lambda>_. (request VNil CHR ''X'' [VArray []], None)), sv_encode = (\<lambda>v s. (demo_response, None)),
       sv_order = rev, sv_junk = 0\<rparr>,
     ce_init = True, ce_expand = (\<lambda>b l n. take (unat l) b @ replicate (unat n) 0), ce_junk = replicate 8 0,
     ce_errstr = (\<lambda>e. ''error'')\<rparr>"

lemma demo_init [simp]: "ce_init demo_conn"
  by (simp add: demo_conn_def)

lemma demo_conn_laws: "conn_laws demo_conn"
  using demo_server_laws(1,2)
  by (auto simp: conn_laws_def expand_laws_def encode_laws_def demo_conn_def slice_ok_def demo_response_def)

lemma demo_handle:
  "ReqHandler_handle (ce_server demo_conn) inp out w m = Some (Inr (demo_response, None, w, m))"
  by (simp add: handle_request [of _ inp VNil "CHR ''X''" "[VArray []]"] demo_conn_def handle_switch_def handle_encode_plain respond_def)

section \<open>Properties of the connections\<close>

text \<open>
  C3. A whole exchange: a ready connection whose slice is set and whose socket delivers the eight bytes of a header,
  with the first of the request, in one read, and the rest of the request in pieces of any sizes (at most 256 bytes each, as
  asked for) without a failed read, and takes the response in pieces of any sizes, with interrupted writes in between, hands
  exactly the bytes after the header to the request handler, sends exactly its response, and is fresh again; the call
  returns and reports no error.  A cut within the header or a failed read is not covered: the code goes wrong there.
\<close>

theorem request_answered:
  assumes "expand_laws E" "length (ce_junk E) = 8" "be_read (sv_codec64 (ce_server E)) = be_value"
    and "length (nb # lb @ body) = 8" "length lb = unat nb" "nb \<le> 7"
    and "\<forall>ds \<in> set dss. ds \<noteq> [] \<and> length ds \<le> 256"
    and "length (body @ concat dss) = unat (of_nat (unat nb * 256 ^ unat nb) + be_value lb)"
    and "stateFor (ce_init E) fd cs = (Some x, cs0)" "cstate x = CONN_READY" "sl_set (xin x)"
    and "ReqHandler_handle (ce_server E) (body @ concat dss) ((xout x)\<lparr>sl_len := 0\<rparr>) (cworld c) (cmgr c) =
      Some (Inr (out, None, w, m))" "slice_ok out"
    and "\<forall>w \<in> set ws. \<forall>e. w = WriteFail e \<longrightarrow> e = EINTR" "unat (sl_len out) \<le> sum_list (map taken ws)"
    and "creads c = Got (nb # lb @ body) # map Got dss @ rs" "cwrites c = ws @ wrest"
  shows "\<exists>cs' c'. handleFd E fd cs c = Some (Inr (cs', c'))
    \<and> csent c' = csent c @ contents out \<and> cerr c' = cerr c
    \<and> cworld c' = w \<and> cmgr c' = m \<and> creads c' = rs
    \<and> creceived c' = creceived c @ nb # lb @ body @ concat dss
    \<and> cs' = cs0(fd \<mapsto> cx c') \<and> reinit (cx c') = cx c'"
proof -
  let ?c = "c\<lparr>cx := x\<rparr>"
  have rd: "creads ?c = Got (nb # lb @ body) # map Got dss @ rs" using assms(16) by simp
  obtain s where s: "slice_ok s" "contents s = body" "doStartFd E ?c = doReadFd E (set_x (\<lambda>x. (reinit x)\<lparr>xin := s,
        reqlen := of_nat (unat nb * 256 ^ unat nb) + be_value lb, cstate := CONN_READING\<rparr>) (?c\<lparr>creads := map Got dss @ rs,
          creceived := creceived ?c @ nb # lb @ body\<rparr>))"
    using start_header [OF assms(1-6) rd] assms(11) by auto
  let ?d = "set_x (\<lambda>x. (reinit x)\<lparr>xin := s,
        reqlen := of_nat (unat nb * 256 ^ unat nb) + be_value lb, cstate := CONN_READING\<rparr>) (?c\<lparr>creads := map Got dss @ rs,
          creceived := creceived ?c @ nb # lb @ body\<rparr>)"
  have len: "unat (sl_len (xin (cx ?d))) + length (concat dss) = unat (reqlen (cx ?d))"
    using assms(8) s(2) length_contents [OF s(1)] by simp
  have d: "slice_ok (xin (cx ?d))" "contents (xin (cx ?d)) = contents s" "creads ?d = map Got dss @ rs"
    using s(1) by simp_all
  obtain s' where s': "slice_ok s'" "contents s' = contents s @ concat dss"
    "doReadFd E ?d = doProcessFd E (set_x (\<lambda>x. x\<lparr>xin := s', cstate := CONN_PROCESSING\<rparr>) (?d\<lparr>creads := rs,
      creceived := creceived ?d @ concat dss\<rparr>))"
    using doReadFd_chunks [OF assms(1) d(1) assms(7) len d(3)] unfolding d(2) by blast
  let ?p = "set_x (\<lambda>x. x\<lparr>xin := s', cstate := CONN_PROCESSING\<rparr>) (?d\<lparr>creads := rs,
      creceived := creceived ?d @ concat dss\<rparr>)"
  have h: "ReqHandler_handle (ce_server E) (contents (xin (cx ?p))) (xout (cx ?p)) (cworld ?p) (cmgr ?p) = Some (Inr (out, None, w, m))"
    using assms(12) s(2) s'(2) by (simp add: reinit_def)
  have r: "cursor (cx ?p) = 0" "slice_ok (xin (cx ?p))" "cwrites ?p = ws @ wrest"
    using s'(1) assms(17) by (simp_all add: reinit_def)
  obtain e ws' where "doProcessFd E ?p = Some (Inr (?p\<lparr>cx := reinit ((cx ?p)\<lparr>xout := out\<rparr>), cworld := w, cmgr := m,
      cerrno := e, cwrites := ws', csent := csent ?p @ contents out\<rparr>))"
    using doProcessFd_answered [OF r(2) assms(13) r(1) h assms(14,15) r(3)] by blast
  then have "handle_state E ?c = Some (Inr (?p\<lparr>cx := reinit ((cx ?p)\<lparr>xout := out\<rparr>), cworld := w, cmgr := m,
      cerrno := e, cwrites := ws', csent := csent ?p @ contents out\<rparr>))"
    using s(3) s'(3) assms(10) by (simp add: handle_state_def)
  then show ?thesis
    using assms(9) by (simp add: handleFd_def) (simp add: reinit_def)
qed

theorem request_answered_witness:
  "\<exists>cs' c'. handleFd demo_conn 4 Map.empty (new_call [] (mem_manager True) EINTR
       (Got (1 # [0] @ [9, 9, 9, 9, 9, 9]) # map Got [replicate 100 7, replicate 150 8] @ []) ([Wrote 1, WriteFail EINTR, Wrote 5] @ []))
       = Some (Inr (cs', c')) \<and> csent c' = [1, 2, 3] \<and> cs' = [4 \<mapsto> cx c']"
proof -
  let ?c = "new_call [] (mem_manager True) EINTR
       (Got (1 # [0] @ [9, 9, 9, 9, 9, 9]) # map Got [replicate 100 7, replicate 150 8] @ []) ([Wrote 1, WriteFail EINTR, Wrote 5] @ [])"
  have laws: "expand_laws demo_conn" "length (ce_junk demo_conn) = 8"
    "be_read (sv_codec64 (ce_server demo_conn)) = be_value"
    using conn_lawsD [OF demo_conn_laws] by (simp_all add: demo_conn_def be64_def)
  have hdr: "be_value [0] = 0"
    by (simp add: be_value_def)
  have st: "stateFor (ce_init demo_conn) 4 Map.empty = (Some (new_conn True 4), [4 \<mapsto> new_conn True 4])" "cstate (new_conn True 4) = CONN_READY"
    "sl_set (xin (new_conn True 4))"
    by (simp_all add: stateFor_def new_conn_def reinit_def)
  have "slice_ok demo_response" by (simp add: slice_ok_def demo_response_def)
  note w = request_answered [OF laws _ _ _ _ _ st demo_handle this, where c = ?c and nb = 1 and lb = "[0]"
      and body = "[9, 9, 9, 9, 9, 9]" and dss = "[replicate 100 7, replicate 150 8]" and rs = "[]" and wrest = "[]"
      and ws = "[Wrote 1, WriteFail EINTR, Wrote 5]"]
  show ?thesis
    by (insert w, simp add: new_call_def hdr demo_response_def) (auto simp: contents_def)
qed

text \<open>
  C14. Backpressure: a connection that is writing loses no byte of its response.  Whatever the
  socket takes and however often it blocks or is interrupted, the bytes sent followed by the bytes
  the connection keeps are those there were; the connection is done when all are sent.  Only an error
  of the socket drops the rest, and then it is reported and the connection starts anew.
\<close>

theorem response_resumes:
  assumes "conn_ok (cx c)" "cstate (cx c) = CONN_WRITING" "doWriteFd E c = Some r"
  shows "\<exists>c'. r = Inr c' \<and>
    (cx c' = reinit (cx c) \<and> csent c' = csent c @ unsent (cx c) \<and> cerr c' = cerr c
     \<or> cstate (cx c') = CONN_WRITING \<and> cerrno c' \<in> {EAGAIN, EWOULDBLOCK} \<and> cerr c' = cerr c
        \<and> csent c' @ unsent (cx c') = csent c @ unsent (cx c) \<and> 0 < length (unsent (cx c'))
     \<or> cx c' = reinit (cx c) \<and> (\<exists>k < length (unsent (cx c)). csent c' = csent c @ take k (unsent (cx c)))
        \<and> (\<exists>e. cerr c' = take 127 (write_msg E (-1) e)))"
proof -
  have o: "slice_ok (xout (cx c))" "cursor (cx c) \<le> sl_len (xout (cx c))"
    using assms(1,2) by (simp_all add: conn_ok_def order_less_imp_le)
  note w = assms(3) [unfolded doWriteFd_def]
  show ?thesis
  proof (cases rule: write_outcomes [OF o w refl, case_names sent blocked failed])
    case (blocked e ws k)
    have "unsent (cx (sent_to c e ws k)) = drop k (unsent (cx c))"
      using sent_to_again(2) [OF o, of k e ws] blocked(2) by simp
    then show ?thesis
      using blocked assms(2) by (simp add: sent_to_def)
  qed (auto simp: sent_to_def call_error_def)
qed

theorem response_resumes_witness:
  "\<exists>c'. doWriteFd demo_conn ((new_call [] (mem_manager True) EINTR [] [Wrote 2, WriteFail EAGAIN])\<lparr>cx :=
       (new_conn True 4)\<lparr>xout := demo_response, cstate := CONN_WRITING\<rparr>\<rparr>) = Some (Inr c')
     \<and> csent c' @ unsent (cx c') = [1, 2, 3]"
proof -
  let ?c = "(new_call [] (mem_manager True) EINTR [] [Wrote 2, WriteFail EAGAIN])\<lparr>cx :=
       (new_conn True 4)\<lparr>xout := demo_response, cstate := CONN_WRITING\<rparr>\<rparr>"
  have c: "conn_ok (cx ?c)" "cstate (cx ?c) = CONN_WRITING"
    by (simp_all add: conn_ok_def slice_ok_def new_conn_def reinit_def demo_response_def)
  obtain r where r: "doWriteFd demo_conn ?c = Some r" "\<And>c'. r = Inr c' \<Longrightarrow> cstate (cx c') = CONN_WRITING"
    by (simp add: doWriteFd_def new_call_def write_loop_fd.simps demo_response_def new_conn_def
        reinit_def slice_range_def Let_def)
  show ?thesis
    using response_resumes [OF c r(1)] r c(2)
    by (auto simp: new_call_def unsent_def contents_def demo_response_def new_conn_def reinit_def)
qed

text \<open>
  The response is sent: on sockets that only ever interrupt calls, once the calls have taken
  as many bytes as are left, \<^verbatim>\<open>doWriteFd\<close> has returned, everything is sent and the connection is
  fresh.
\<close>

theorem response_sent:
  assumes "conn_ok (cx c)" "cstate (cx c) = CONN_WRITING" "cwrites c = ws @ rs"
    and "\<forall>w \<in> set ws. \<forall>e. w = WriteFail e \<longrightarrow> e = EINTR"
    and "length (unsent (cx c)) \<le> sum_list (map taken ws)"
  shows "\<exists>c'. doWriteFd E c = Some (Inr c') \<and> csent c' = csent c @ unsent (cx c) \<and> cx c' = reinit (cx c)"
proof -
  have o: "slice_ok (xout (cx c))" "cursor (cx c) \<le> sl_len (xout (cx c))"
    using assms(1,2) by (simp_all add: conn_ok_def order_less_imp_le)
  show ?thesis
    by (rule write_completes [OF o assms(4,5,3), of E]) (simp add: doWriteFd_def assms(3) sent_to_def)
qed

theorem response_sent_witness:
  "\<exists>c'. doWriteFd demo_conn ((new_call [] (mem_manager True) EAGAIN [] ([WriteFail EINTR, Wrote 1, Wrote 7] @ []))\<lparr>cx :=
       (new_conn True 4)\<lparr>xout := demo_response, cstate := CONN_WRITING\<rparr>\<rparr>) = Some (Inr c') \<and> csent c' = [1, 2, 3]"
proof -
  let ?c = "(new_call [] (mem_manager True) EAGAIN [] ([WriteFail EINTR, Wrote 1, Wrote 7] @ []))\<lparr>cx :=
       (new_conn True 4)\<lparr>xout := demo_response, cstate := CONN_WRITING\<rparr>\<rparr>"
  have c: "conn_ok (cx ?c)" "cstate (cx ?c) = CONN_WRITING" "cwrites ?c = [WriteFail EINTR, Wrote 1, Wrote 7] @ []"
    "unsent (cx ?c) = [1, 2, 3]" "csent ?c = []"
    by (simp_all add: conn_ok_def slice_ok_def new_conn_def reinit_def demo_response_def new_call_def
        unsent_def contents_def)
  show ?thesis
    using response_sent [OF c(1-3), of demo_conn] c(4,5) by auto
qed

text \<open>
  C27. A failed read is not seen: \<^verbatim>\<open>n2\<close> is unsigned, so the \<^verbatim>\<open>-1\<close> of \<^verbatim>\<open>read\<close>, also that of
  \<^verbatim>\<open>EAGAIN\<close> on a socket that has no more data yet, is added to the length and the socket is read
  again; a client that sends part of a request and waits makes the server take the bytes it has
  back one by one and then read its input far out of bounds.  (A slice that is not set faults before that.)
\<close>

theorem failed_reads_fault:
  assumes "cstate (cx c) = CONN_READING" "sl_len (xin (cx c)) < reqlen (cx c)"
    and "length es = Suc (unat (sl_len (xin (cx c))))" "creads c = map ReadFail es @ rs"
    and "\<forall>b n. n \<le> 256 \<longrightarrow> length (ce_expand E b 0 n) < 2 ^ 64 - 1"
  shows "handle_state E c = Some (Inl (if sl_set (xin (cx c)) then OobRead else Uninit))"
proof (cases "sl_set (xin (cx c))")
  case set: True
  obtain b e where r: "read_loop_fd E (creads c) c = Some (Inr (True,
      set_x (set_in \<lparr>sl_buf = ce_expand E b 0 (read_count (set_x (set_in \<lparr>sl_buf = b, sl_len = 0, sl_set = True\<rparr>) c)),
          sl_len = - 1, sl_set = True\<rparr>)
        (c\<lparr>creads := rs, cerrno := e\<rparr>)))"
    using read_fails [OF set assms(2-4)] by blast
  have "read_count c' \<le> 256" for c' :: "('a, 'b) call"
    by (simp add: read_count_def FD_BUF_INCR_def Let_def not_less)
  then have "length (ce_expand E b 0 (read_count (set_x (set_in \<lparr>sl_buf = b, sl_len = 0, sl_set = True\<rparr>) c))) < 2 ^ 64 - 1"
    using assms(5) by blast
  moreover have "unat (- 1 :: u64) = 2 ^ 64 - 1" by (simp add: unsigned_minus_1_eq_mask mask_eq_exp_minus_1)
  ultimately show ?thesis
    using assms(1) set by (simp add: handle_state_def doReadFd_def r doProcessFd_def set_in_def slice_range_def)
qed (use assms(1) in \<open>simp add: handle_state_def doReadFd_unset\<close>)

theorem failed_reads_fault_witness:
  "handle_state demo_conn ((new_call [] (mem_manager True) EINTR (map ReadFail [EAGAIN, EAGAIN, EAGAIN] @ []) [])\<lparr>cx :=
     (new_conn True 4)\<lparr>xin := \<lparr>sl_buf = [0, 1], sl_len = 2, sl_set = True\<rparr>, reqlen := 9, cstate := CONN_READING\<rparr>\<rparr>) = Some (Inl OobRead)"
  by (rule failed_reads_fault [where es = "[EAGAIN, EAGAIN, EAGAIN]" and rs = "[]" and E = demo_conn and
        c = "(new_call [] (mem_manager True) EINTR (map ReadFail [EAGAIN, EAGAIN, EAGAIN] @ []) [])\<lparr>cx :=
     (new_conn True 4)\<lparr>xin := \<lparr>sl_buf = [0, 1], sl_len = 2, sl_set = True\<rparr>, reqlen := 9, cstate := CONN_READING\<rparr>\<rparr>", THEN trans])
    (auto simp: new_call_def demo_conn_def word_le_nat_alt)

text \<open>
  C28. The length of a request: the byte that says how many bytes the length has is part of the
  number that is read, so a request announced with \<open>nb\<close> bytes of length is taken to be
  \<open>nb * 256 ^ nb\<close> bytes longer than the length says; the bytes after the length are kept as the
  start of the request.
\<close>

theorem header_length:
  assumes "expand_laws E" "length (ce_junk E) = 8" "be_read (sv_codec64 (ce_server E)) = be_value"
    and "length (nb # lb @ body) = 8" "length lb = unat nb" "nb \<le> 7" "creads c = Got (nb # lb @ body) # rs"
    and "sl_set (xin (cx c))"
  shows "\<exists>s. slice_ok s \<and> contents s = body \<and>
    doStartFd E c = doReadFd E (set_x (\<lambda>x. (reinit x)\<lparr>xin := s,
      reqlen := of_nat (unat nb * 256 ^ unat nb) + be_value lb, cstate := CONN_READING\<rparr>)
      (c\<lparr>creads := rs, creceived := creceived c @ nb # lb @ body\<rparr>))"
  by (rule start_header [OF assms]) blast

theorem header_length_witness:
  "\<exists>s. contents s = [5, 5, 5, 5, 5] \<and>
    doStartFd demo_conn (new_call [] (mem_manager True) EINTR [Got (2 # [3, 4] @ [5, 5, 5, 5, 5])] []) =
      doReadFd demo_conn ((new_call [] (mem_manager True) EINTR [] [])\<lparr>cx :=
        (new_conn True 0)\<lparr>xin := s, reqlen := 2 * 256 ^ 2 + 3 * 256 + 4, cstate := CONN_READING\<rparr>, creceived := [2, 3, 4, 5, 5, 5, 5, 5]\<rparr>)"
proof -
  let ?c = "new_call [] (mem_manager True) EINTR [Got (2 # [3, 4] @ [5, 5, 5, 5, 5])] []"
  have c: "creads ?c = Got (2 # [3, 4] @ [5, 5, 5, 5, 5]) # []" "be_value [3, 4] = 3 * 256 + 4" "sl_set (xin (cx ?c))"
    by (simp_all add: new_call_def be_value_def)
  obtain s where "contents s = [5, 5, 5, 5, 5]" "doStartFd demo_conn ?c = doReadFd demo_conn (set_x (\<lambda>x. (reinit x)\<lparr>xin := s,
      reqlen := of_nat (unat (2 :: u8) * 256 ^ unat (2 :: u8)) + be_value [3, 4], cstate := CONN_READING\<rparr>)
      (new_call [] (mem_manager True) EINTR [] []\<lparr>creceived := [2, 3, 4, 5, 5, 5, 5, 5]\<rparr>))"
    using header_length [OF conn_lawsD(1,3) [OF demo_conn_laws] _ _ _ _ c(1,3)]
    by (auto simp: demo_conn_def be64_def new_call_def)
  then show ?thesis
    by (auto simp: c(2) new_call_def new_conn_def reinit_def)
qed

text \<open>
  C13. Connections over time: after any sequence of calls for any sockets, with any results of their
  system calls, and of closed sockets, every connection belongs to the descriptor it is kept
  under, and the manager's handles are valid.  Where a new \<^verbatim>\<open>slice_bytes\<close> is set, every connection is fresh, reading
  or writing (never in the middle of a request) with lengths and cursor within its memory.  Where it is not set, no
  connection ever gets past its first length byte: each is still as the constructor left it.
\<close>

theorem reachable_connections:
  assumes "conn_laws E" "owned m" "(handler_step E)\<^sup>*\<^sup>* (Map.empty, w, m, e) (cs, w', m', e')"
  shows "owned m' \<and> (\<forall>fd x. cs fd = Some x \<longrightarrow> xfd x = fd \<and> (if ce_init E then conn_ok x else x = new_conn False fd))"
  using handler_steps_ok [OF assms(1,3)] assms(2) by (auto simp: conns_ok_def conn_kept_def split: if_splits)

text \<open>A header arrives at socket 4, then the socket has no more.\<close>

lemma demo_step:
  obtains c where "handleFd demo_conn 4 Map.empty (new_call [] (mem_manager True) EINTR [Got [7, 0, 0, 0, 0, 0, 9, 9], Got []] []) = Some (Inr ([4 \<mapsto> cx c], c))"
    "cstate (cx c) = CONN_READING" "cworld c = []" "cmgr c = mem_manager True"
  by (simp add: handleFd_def stateFor_def handle_state_def new_conn_def reinit_def doStartFd_def new_call_def
      start_request_def Let_def demo_conn_def length_array_def be64_def be_value_def
      doReadFd_def read_loop_fd.simps read_count_def FD_BUF_INCR_def set_in_def expand_def write_at_def)

theorem reachable_connections_witness:
  "\<exists>x e. handler_step demo_conn (Map.empty, [], mem_manager True, EINTR) ([4 \<mapsto> x], [], mem_manager True, e)
     \<and> cstate x = CONN_READING \<and> conn_ok x \<and> xfd x = 4"
proof -
  obtain c where c: "handleFd demo_conn 4 Map.empty (new_call [] (mem_manager True) EINTR [Got [7, 0, 0, 0, 0, 0, 9, 9], Got []] []) = Some (Inr ([4 \<mapsto> cx c], c))"
    "cstate (cx c) = CONN_READING" "cworld c = []" "cmgr c = mem_manager True"
    by (rule demo_step)
  have s: "handler_step demo_conn (Map.empty, [], mem_manager True, EINTR) ([4 \<mapsto> cx c], [], mem_manager True, cerrno c)"
    using handler_step.ready [OF c(1)] c(3,4) by simp
  have "owned (mem_manager True :: mem_db manager)" by (rule no_dbs_owned [OF no_dbs_mem])
  from reachable_connections [OF demo_conn_laws this r_into_rtranclp [where r = "handler_step demo_conn", OF s]] show ?thesis
    using s c(2) by (intro exI [of _ "cx c"] exI [of _ "cerrno c"]) (simp add: demo_conn_def)
qed

text \<open>
  Memory: from any reachable state, whatever the socket does next, a call for it never writes
  out of bounds and uses no null pointer and no database that is gone.  Where a new \<^verbatim>\<open>slice_bytes\<close> is set the faults left
  are reads: of a slice or of a request that is not of the expected form, and of the freed rows of a query; where it is
  not, the one fault is the use of a slice of a new connection.
\<close>

theorem reachable_faults:
  assumes "conn_laws E" "owned m" "(handler_step E)\<^sup>*\<^sup>* (Map.empty, w, m, e) (cs, w', m', e')"
    and "handleFd E fd cs (new_call w' m' e' rs ws) = Some (Inl f)"
  shows "f \<in> (if ce_init E then {OobRead, BadUnion, UseAfterFree} else {Uninit})"
  using handleFd_ok [OF assms(1) _ _ assms(4)] handler_steps_ok [OF assms(1,3)] assms(2)
  by (simp add: conns_ok_def handler_faults_def)

theorem reachable_faults_witness:
  "\<exists>f. handleFd demo_conn 4 Map.empty (new_call [] (mem_manager True) EINTR
      [Got [7, 0, 0, 0, 0, 0, 9, 9], ReadFail EAGAIN] []) = Some (Inl f) \<and> (f = OobRead \<or> f = BadUnion \<or> f = UseAfterFree)"
proof -
  have h: "handleFd demo_conn 4 Map.empty (new_call [] (mem_manager True) EINTR
      [Got [7, 0, 0, 0, 0, 0, 9, 9], ReadFail EAGAIN] []) = Some (Inl OobRead)"
    by (simp add: handleFd_def stateFor_def handle_state_def new_conn_def reinit_def doStartFd_def new_call_def
      start_request_def Let_def demo_conn_def length_array_def be64_def be_value_def
      doReadFd_def read_loop_fd.simps read_count_def FD_BUF_INCR_def set_in_def
      expand_def add_len_def doProcessFd_def slice_range_def unsigned_minus_1_eq_mask mask_eq_exp_minus_1 word_gt_0)
  have "owned (mem_manager True :: mem_db manager)" by (rule no_dbs_owned [OF no_dbs_mem])
  from reachable_faults [OF demo_conn_laws this rtranclp.rtrancl_refl h] h show ?thesis by (auto simp: demo_conn_def)
qed

text \<open>
  C25. The slices of a new connection: \<^verbatim>\<open>connFdStateMach\<close> sets their lengths only.  If \<^verbatim>\<open>slice_bytes\<close> does not set
  its pointer and capacity itself, the first call for any new connection that receives a byte and does not refuse it as a length
  byte (also after reads that were interrupted) uses them uninitialised; no request is served.
\<close>

theorem fresh_slices_fault:
  assumes "\<not> ce_init E" "cs fd = None" "creads c = replicate k (ReadFail EINTR) @ Got (nb # bs) # rs" "nb \<le> 7"
  shows "handleFd E fd cs c = Some (Inl Uninit)"
proof -
  have "start_loop_fd E (replicate k (ReadFail EINTR) @ Got (nb # bs) # rs) d = Some (Inl Uninit)"
    if "\<not> sl_set (xin (cx d))" for d
    using that
  proof (induction k arbitrary: d)
    case 0
    then show ?case using assms(4) by (simp add: start_request_unset Let_def)
  qed simp
  then show ?thesis
    using assms by (simp add: handleFd_def stateFor_def handle_state_def doStartFd_def)
qed

theorem fresh_slices_fault_witness:
  "handleFd (demo_conn\<lparr>ce_init := False\<rparr>) 4 Map.empty
     (new_call [] (mem_manager True) EINTR (replicate 1 (ReadFail EINTR) @ Got (1 # [0, 9]) # []) []) = Some (Inl Uninit)"
  by (rule fresh_slices_fault [where k = 1 and nb = 1 and bs = "[0, 9]" and rs = "[]"]) (simp_all add: new_call_def word_le_nat_alt)

text \<open>
  Connections are separate: a call for one descriptor leaves every other connection as it is
  and keeps its own for the next call, until the descriptor is unregistered; then it gets a fresh one.
\<close>

theorem connections_separate:
  assumes "handleFd E fd cs c = Some (Inr (cs', c'))"
  shows "stateFor (ce_init E) fd cs' = (Some (cx c'), cs') \<and> (\<forall>fd'. fd' = fd \<or> cs' fd' = cs fd')
    \<and> fst (stateFor (ce_init E) fd (unregisterFd fd cs')) = Some (new_conn (ce_init E) fd)"
proof -
  have "cs' = (snd (stateFor (ce_init E) fd cs))(fd \<mapsto> cx c')"
    using assms by (auto simp: handleFd_def run_bind_Inr_iff split: prod.splits option.splits)
  then show ?thesis
    using connections.fetch_frame [where k = fd and s = cs] by (auto simp: stateFor_def unregisterFd_def)
qed

theorem connections_separate_witness:
  "\<exists>x. stateFor True 4 [4 \<mapsto> x] = (Some x, [4 \<mapsto> x]) \<and> cstate x = CONN_READING"
proof -
  obtain c where c: "handleFd demo_conn 4 Map.empty (new_call [] (mem_manager True) EINTR [Got [7, 0, 0, 0, 0, 0, 9, 9], Got []] []) = Some (Inr ([4 \<mapsto> cx c], c))"
    "cstate (cx c) = CONN_READING" "cworld c = []" "cmgr c = mem_manager True"
    by (rule demo_step)
  from connections_separate [OF c(1)] show ?thesis using c(2) by (intro exI [of _ "cx c"]) (simp add: demo_conn_def)
qed

end
