(* ===== verification/Workers.thy ===== *)
theory Workers
  imports Handler Locking
begin

text \<open>
  Requests that are served at the same time.  The server gives every worker thread a \<^verbatim>\<open>ConnHandler\<close>, and
  all of them call the one \<^verbatim>\<open>ReqHandler\<close> (\<^verbatim>\<open>conn.cc\<close>) on the one \<^verbatim>\<open>Manager\<close>.  No lock is held over a request: what
  is not divided is a lookup of the manager and a call of RocksDB.  A lookup takes the key apart, which reads no state that
  changes, and then holds the mutex of the manager until it has the database.

  A request is therefore a sequence of actions on the shared state, with steps of the other workers in between.
  Its actions are those of \<open>Handler\<close>, in the same order; alone it does what \<open>ReqHandler_handle\<close> does.
  The lock that \<^verbatim>\<open>incrdecr\<close> holds for a key is not part of this model, so it has more runs than the program.
\<close>

section \<open>Actions\<close>

text \<open>A computation is over, or faulty, or does not return, or goes on with an action on the state.\<close>

datatype ('s, 'a) act = Ret 'a | Fail fault | Hang | Step "'s \<Rightarrow> 's \<times> ('s, 'a) act"

primrec act_bind :: "('s, 'a) act \<Rightarrow> ('a \<Rightarrow> ('s, 'b) act) \<Rightarrow> ('s, 'b) act" where
  "act_bind (Ret a) k = k a"
| "act_bind (Fail f) k = Fail f"
| "act_bind Hang k = Hang"
| "act_bind (Step f) k = Step (\<lambda>s. map_prod id (\<lambda>r. act_bind r k) (f s))"

definition act_of :: "'a res \<Rightarrow> ('s, 'a) act" where
  "act_of r = (case r of Inl f \<Rightarrow> Fail f | Inr a \<Rightarrow> Ret a)"

definition act_run :: "'a res option \<Rightarrow> ('s, 'a) act" where
  "act_run r = (case r of None \<Rightarrow> Hang | Some r \<Rightarrow> act_of r)"

text \<open>A computation without others.\<close>

primrec alone :: "('s, 'a) act \<Rightarrow> 's \<Rightarrow> ('a \<times> 's) res option" where
  "alone (Ret a) = (\<lambda>s. Some (Inr (a, s)))"
| "alone (Fail f) = (\<lambda>s. Some (Inl f))"
| "alone Hang = (\<lambda>s. None)"
| "alone (Step f) = (\<lambda>s. case map_prod id alone (f s) of (s', g) \<Rightarrow> g s')"

lemma alone_bind: "alone (act_bind r k) s = run_bind (alone r s) (\<lambda>(a, s). alone (k a) s)"
proof (induction r arbitrary: s)
  case (Step f)
  obtain s' r where "f s = (s', r)" by (cases "f s")
  then show ?case using Step.IH [OF rangeI [of f s], of r s'] by simp
qed simp_all

lemma alone_of [simp]:
  "alone (act_of r) s = Some (map_sum id (\<lambda>a. (a, s)) r)"
  "alone (act_run q) s = map_option (map_sum id (\<lambda>a. (a, s))) q"
  by (simp_all add: act_run_def act_of_def split: sum.split option.split)

section \<open>Requests as actions\<close>

text \<open>A lookup; a call of the library for a database.\<close>

type_synonym ('w, 'd) shared = "'w \<times> 'd manager"

definition lookup :: "('w, 'd) env \<Rightarrow> bytes \<Rightarrow> (('w, 'd) shared, nat option \<times> string) act" where
  "lookup E key = Step (\<lambda>(w, m). case ndbForKey E key (w, m, []) of
      Inl f \<Rightarrow> ((w, m), Fail f)
    | Inr (h, w, m, serr) \<Rightarrow> ((w, m), Ret (h, serr)))"

definition on_db :: "nat option \<Rightarrow> ('d \<Rightarrow> ('d \<times> 'a) res) \<Rightarrow> (('w, 'd) shared, 'a) act" where
  "on_db h g = Step (\<lambda>(w, m). case res_bind (db_at m h) g of
      Inl f \<Rightarrow> ((w, m), Fail f)
    | Inr (d, x) \<Rightarrow> ((w, put_db h d m), Ret x))"

text \<open>The commands: the error and the result of the response.\<close>

definition acts_N :: "('w, 'd, 'it, 'o) server \<Rightarrow> codec_value list \<Rightarrow> (('w, 'd) shared, out_value \<times> out_value) act" where
  "acts_N S params =
     (case params of
        VBytes key # VBool incr # VPosInt delta # VPosInt initVal # _ \<Rightarrow>
          act_bind (lookup (sv_env S) key) (\<lambda>(h, serr).
          case to_codec_value serr of
            Some e \<Rightarrow> Ret (e, ONil)
          | None \<Rightarrow>
              act_bind (on_db h (\<lambda>d. Inr (d, incrdecr_old (sv_codec64 S) (sv_rocks S) d key (ucast initVal)))) (\<lambda>old.
              act_bind (case old of
                  Inl e \<Rightarrow> Ret (sv_junk S, e)
                | Inr v \<Rightarrow> on_db h (\<lambda>d. Inr (incrdecr_store (sv_codec64 S) (sv_rocks S) d key incr (ucast delta) v (sv_junk S, serr))))
              (\<lambda>(nextval, serr).
              case to_codec_value serr of
                Some e \<Rightarrow> Ret (e, ONil)
              | None \<Rightarrow> Ret (ONil, OPosInt nextval))))
      | _ \<Rightarrow> Ret (OString (bytes_of ''Invalid input''), ONil))"

fun get_acts :: "('w, 'd, 'it, 'o) server \<Rightarrow> bytes list \<Rightarrow> out_value option list \<Rightarrow>
    (('w, 'd) shared, out_value \<times> out_value option list) act" where
  "get_acts S [] cx = Ret (ONil, cx)"
| "get_acts S (key # keys) cx =
     act_bind (lookup (sv_env S) key) (\<lambda>(h, serr).
     case to_codec_value serr of
       Some e \<Rightarrow> Ret (e, cx)
     | None \<Rightarrow>
         act_bind (on_db h (\<lambda>d. Inr (d, Ndb_get (sv_rocks S) d key ([], serr)))) (\<lambda>(sv, serr).
         case to_codec_value serr of
           Some e \<Rightarrow> Ret (e, cx)
         | None \<Rightarrow> get_acts S keys (cx @ [if sv = [] then None else Some (OString sv)])))"

definition acts_G :: "('w, 'd, 'it, 'o) server \<Rightarrow> codec_value list \<Rightarrow> (('w, 'd) shared, out_value \<times> out_value) act" where
  "acts_G S params =
     act_bind (act_of (res_bind (rd params 0) arr)) (\<lambda>vs.
     act_bind (act_of (res_map bytes_member vs)) (\<lambda>keys.
     act_bind (get_acts S keys []) (\<lambda>(e, cx). Ret (e, ONil))))"

text \<open>A query reads the database as it is when its iterator is made; its loops go on without the others.\<close>

definition acts_Q :: "('w, 'd, 'it, 'o) server \<Rightarrow> codec_value list \<Rightarrow> (('w, 'd) shared, out_value \<times> out_value) act" where
  "acts_Q S params =
     act_bind (act_of (res_bind (rd params 0) bytes_member)) (\<lambda>seekpos1.
     act_bind (act_of (res_bind (rd params 1) bytes_member)) (\<lambda>seekpos2.
     act_bind (act_of (res_bind (rd params 2) uint_member)) (\<lambda>kindid.
     act_bind (act_of (res_bind (rd params 3) uint_member)) (\<lambda>shapeid.
     act_bind (act_of (res_bind (rd params 4) bool_member)) (\<lambda>ancestorOnly.
     act_bind (act_of (res_bind (rd params 5) bool_member)) (\<lambda>withCursor.
     act_bind (act_of (res_bind (rd params 6) uint_member)) (\<lambda>lastFilterOp.
     act_bind (act_of (res_bind (rd params 7) uint_member)) (\<lambda>offset.
     act_bind (act_of (res_bind (rd params 8) uint_member)) (\<lambda>limit.
     act_bind (lookup (sv_env S) seekpos1) (\<lambda>(h, serr).
     case to_codec_value serr of
       Some e \<Rightarrow> Ret (e, ONil)
     | None \<Rightarrow>
         act_bind (on_db h (\<lambda>d. Inr (d, Ndb_query (sv_rocks S) d seekpos1 seekpos2 (ucast kindid) (ucast shapeid)
             ancestorOnly withCursor (ucast lastFilterOp) (unat offset) (unat limit)
             (\<lambda>sl sls. sls @ [sl]) [] serr))) (\<lambda>q.
         act_bind (act_run q) (\<lambda>(sls, serr).
         case to_codec_value serr of
           Some e \<Rightarrow> Ret (e, ONil)
         | None \<Rightarrow> Ret (ONil, query_reply sls)))))))))))))"

fun put_acts :: "('w, 'd) env \<Rightarrow> codec_value list \<Rightarrow> db2BatchUpdateT \<Rightarrow>
    (('w, 'd) shared, out_value \<times> db2BatchUpdateT) act" where
  "put_acts E [] bts = Ret (ONil, bts)"
| "put_acts E [k] bts = act_bind (act_of (bytes_member k)) (\<lambda>_. Fail OobRead)"
| "put_acts E (k # v # lx) bts =
     act_bind (act_of (bytes_member k)) (\<lambda>sl.
     act_bind (act_of (bytes_member v)) (\<lambda>sl2.
     act_bind (lookup E sl) (\<lambda>(h, serr).
     case to_codec_value serr of
       Some e \<Rightarrow> Ret (e, bts)
     | None \<Rightarrow>
         put_acts E lx (with_batch h (\<lambda>b. b\<lparr>putkeys := putkeys b @ [sl], putvalues := putvalues b @ [sl2]\<rparr>) bts))))"

fun del_acts :: "('w, 'd) env \<Rightarrow> codec_value list \<Rightarrow> db2BatchUpdateT \<Rightarrow>
    (('w, 'd) shared, out_value \<times> db2BatchUpdateT) act" where
  "del_acts E [] bts = Ret (ONil, bts)"
| "del_acts E (k # lx) bts =
     act_bind (act_of (bytes_member k)) (\<lambda>sl.
     act_bind (lookup E sl) (\<lambda>(h, serr).
     case to_codec_value serr of
       Some e \<Rightarrow> Ret (e, bts)
     | None \<Rightarrow> del_acts E lx (with_batch h (\<lambda>b. b\<lparr>delkeys := delkeys b @ [sl]\<rparr>) bts)))"

fun write_acts :: "('d, 'it, 'z) rocksdb_scheme \<Rightarrow> db2BatchUpdateT \<Rightarrow> (('w, 'd) shared, out_value) act" where
  "write_acts R [] = Ret ONil"
| "write_acts R ((h, bt) # bts) =
     act_bind (on_db h (\<lambda>d. Ndb_update R d (putkeys bt) (putvalues bt) (delkeys bt) [])) (\<lambda>serr.
     case to_codec_value serr of
       Some e \<Rightarrow> Ret e
     | None \<Rightarrow> write_acts R bts)"

definition acts_U :: "('w, 'd, 'it, 'o) server \<Rightarrow> codec_value list \<Rightarrow> (('w, 'd) shared, out_value \<times> out_value) act" where
  "acts_U S params =
     act_bind (act_of (res_bind (rd params 0) arr)) (\<lambda>puts.
     act_bind (put_acts (sv_env S) puts []) (\<lambda>(out1, bts).
     if out1 \<noteq> ONil then Ret (out1, ONil)
     else
       act_bind (act_of (res_bind (rd params 1) arr)) (\<lambda>dels.
       act_bind (del_acts (sv_env S) dels bts) (\<lambda>(out1, bts).
       if out1 \<noteq> ONil then Ret (out1, ONil)
       else
         act_bind (write_acts (sv_rocks S) (in_order (sv_order S) bts)) (\<lambda>out1. Ret (out1, ONil))))))"

definition switch_acts :: "('w, 'd, 'it, 'o) server \<Rightarrow> u8 \<Rightarrow> codec_value list \<Rightarrow>
    (('w, 'd) shared, out_value \<times> out_value) act" where
  "switch_acts S c params =
     (if c = of_char CHR ''N'' then acts_N S params
      else if c = of_char CHR ''G'' then acts_G S params
      else if c = of_char CHR ''Q'' then acts_Q S params
      else if c = of_char CHR ''U'' then acts_U S params
      else Ret (OString (bytes_of (bad_method_msg c)), ONil))"

definition encode_acts :: "('w, 'd, 'it, 'o) server \<Rightarrow> codec_value \<Rightarrow> 'o \<Rightarrow> out_value \<times> out_value \<Rightarrow>
    (('w, 'd) shared, 'o \<times> string option) act" where
  "encode_acts S rid out = (\<lambda>(out1, out2).
     if dangling (OArray [OIn rid, out1, out2]) then Fail UseAfterFree
     else Ret (sv_encode S (plain (OArray [OIn rid, out1, out2])) out))"

definition request_acts :: "('w, 'd, 'it, 'o) server \<Rightarrow> bytes \<Rightarrow> 'o \<Rightarrow> (('w, 'd) shared, 'o \<times> string option) act" where
  "request_acts S inp out =
     (let (cvIn, err) = sv_decode S inp in
      case err of
        Some e \<Rightarrow> Ret (out, Some e)
      | None \<Rightarrow>
          act_bind (act_of (res_bind (arr cvIn) (\<lambda>req. res_bind (rd req 0) (\<lambda>rid. res_bind (rd req 1) (\<lambda>meth.
            Inr (req, rid, meth)))))) (\<lambda>(req, rid, meth).
          case meth of
            VString [c] \<Rightarrow>
              act_bind (act_of (res_bind (rd req 2) arr)) (\<lambda>params.
              act_bind (switch_acts S c params) (encode_acts S rid out))
          | _ \<Rightarrow> Ret (out, Some method_msg)))"

section \<open>A request alone\<close>

lemma alone_steps [simp]:
  "alone (lookup E key) (w, m) = Some (map_sum id (\<lambda>(h, w, m, serr). ((h, serr), (w, m))) (ndbForKey E key (w, m, [])))"
  "alone (on_db h g) (w, m) = Some (map_sum id (\<lambda>(d, x). (x, (w, put_db h d m))) (res_bind (db_at m h) g))"
  by (simp_all add: lookup_def on_db_def split_beta split: sum.split)

text \<open>Both sides of a request alone are taken apart at the results of its parts.\<close>

lemma alone_res:
  "run_bind (Some (map_sum id f r)) k = (case r of Inl e \<Rightarrow> Some (Inl e) | Inr a \<Rightarrow> k (f a))"
  "Some (map_sum id g (res_bind r F)) = (case r of Inl e \<Rightarrow> Some (Inl e) | Inr a \<Rightarrow> Some (map_sum id g (F a)))"
  by (cases r; simp)+

lemma db_read_alone [simp]: "db_at m h = Inr d \<Longrightarrow> put_db h d m = m"
  by (auto simp: db_at_def put_db_def split: option.splits if_splits)

lemma put_db_twice [simp]: "put_db h d' (put_db h d m) = put_db h d' m"
  by (simp add: put_db_def split: option.split)

lemma alone_N: "alone (acts_N S params) (w, m) = Some (map_sum id (\<lambda>(e, r, w, m). ((e, r), (w, m))) (handle_N S params w m))"
  by (auto simp: acts_N_def handle_N_def alone_bind alone_res incrdecr_halves to_codec_value_def Let_def
      split: list.split codec_value.split sum.split option.split prod.split)

lemma alone_get: "alone (get_acts S keys cx) (w, m) = Some (map_sum id (\<lambda>(e, cx, w, m). ((e, cx), (w, m))) (get_loop S keys cx w m))"
  by (induction keys arbitrary: cx w m)
    (auto simp: alone_bind alone_res split: sum.split option.split prod.split)

lemma alone_G: "alone (acts_G S params) (w, m) = Some (map_sum id (\<lambda>(e, r, w, m). ((e, r), (w, m))) (handle_G S params w m))"
  by (auto simp: acts_G_def handle_G_def GET_VIA_ITER_def alone_bind alone_res alone_get split: sum.split prod.split)


lemma alone_put: "alone (put_acts E lx bts) (w, m) = Some (map_sum id (\<lambda>(e, bts, w, m). ((e, bts), (w, m))) (put_loop E lx bts w m))"
  by (induction lx arbitrary: bts w m rule: induct_list012)
    (auto simp: alone_bind alone_res split: sum.split option.split prod.split)

lemma alone_del: "alone (del_acts E lx bts) (w, m) = Some (map_sum id (\<lambda>(e, bts, w, m). ((e, bts), (w, m))) (del_loop E lx bts w m))"
  by (induction lx arbitrary: bts w m) (auto simp: alone_bind alone_res split: sum.split option.split prod.split)

lemma alone_write: "alone (write_acts R bts) (w, m) = Some (map_sum id (\<lambda>(e, m). (e, (w, m))) (write_loop R bts m))"
  by (induction bts arbitrary: m) (auto simp: alone_bind alone_res split: sum.split option.split prod.split)

lemma alone_U: "alone (acts_U S params) (w, m) = Some (map_sum id (\<lambda>(e, r, w, m). ((e, r), (w, m))) (handle_U S params w m))"
  by (auto simp: acts_U_def handle_U_def alone_bind alone_res alone_put alone_del alone_write split: sum.split prod.split)

lemma alone_option:
  "run_bind (map_option (map_sum id f) q) k = (case q of None \<Rightarrow> None | Some r \<Rightarrow> run_bind (Some (map_sum id f r)) k)"
  "map_option g (map_option h q) = (case q of None \<Rightarrow> None | Some r \<Rightarrow> map_option g (Some (h r)))"
  by (cases q; simp)+

lemma alone_Q: "alone (acts_Q S params) (w, m) = map_option (map_sum id (\<lambda>(e, r, w, m). ((e, r), (w, m)))) (handle_Q S params w m)"
  by (auto simp: acts_Q_def handle_Q_def handle_Q_query_def alone_bind alone_res alone_option
      split: sum.split prod.split option.split)

lemma alone_switch:
  "alone (switch_acts S c params) (w, m) = map_option (map_sum id (\<lambda>(e, r, w, m). ((e, r), (w, m)))) (handle_switch S c params w m)"
  by (simp add: switch_acts_def handle_switch_def alone_N alone_G alone_Q alone_U)

lemma alone_encode:
  "alone (encode_acts S rid out (o1, o2)) (w, m) =
     Some (map_sum id (\<lambda>(out, err, w, m). ((out, err), (w, m))) (handle_encode S rid (o1, o2, w, m) out))"
  by (simp add: encode_acts_def handle_encode_def split_beta)

lemma alone_request:
  "alone (request_acts S inp out) (w, m) =
     map_option (map_sum id (\<lambda>(out, err, w, m). ((out, err), (w, m)))) (ReqHandler_handle S inp out w m)"
proof -
  have step: "run_bind (alone (switch_acts S c params) (w, m)) (\<lambda>(a, s). alone (encode_acts S rid out a) s) =
      map_option (map_sum id (\<lambda>(out, err, w, m). ((out, err), (w, m))))
        (map_option (\<lambda>r. res_bind r (\<lambda>r. handle_encode S rid r out)) (handle_switch S c params w m))" for c params rid
    by (auto simp: alone_switch alone_encode alone_option alone_res split: option.split sum.split prod.split)
  show ?thesis
    by (auto simp: request_acts_def ReqHandler_handle_def alone_bind alone_res step
        split: prod.split option.split sum.split codec_value.split list.split)
qed

section \<open>Workers\<close>

text \<open>
  Every worker has the request it serves or served last, and what is left of it; an idle worker takes a new one.
\<close>

inductive worker_step :: "('q \<Rightarrow> ('s, 'a) act) \<Rightarrow> 's \<times> (nat \<Rightarrow> 'q \<times> ('s, 'a) act) \<Rightarrow> 's \<times> (nat \<Rightarrow> 'q \<times> ('s, 'a) act) \<Rightarrow> bool"
  for start where
  action: "pool i = (q, Step f) \<Longrightarrow> f s = (s', r) \<Longrightarrow> worker_step start (s, pool) (s', pool(i := (q, r)))"
| new_request: "pool i = (q', Ret a) \<Longrightarrow> worker_step start (s, pool) (s, pool(i := (q, start q)))"

inductive_cases worker_stepE: "worker_step start s s'"

text \<open>A worker can go on while the others wait.\<close>

lemma alone_worker_steps:
  assumes "alone r s = Some (Inr (a, s'))"
  shows "(worker_step start)\<^sup>*\<^sup>* (s, pool(i := (q, r))) (s', pool(i := (q, Ret a)))"
  using assms
proof (induction r arbitrary: s)
  case (Step f)
  obtain s1 r where f: "f s = (s1, r)" by (cases "f s")
  have "worker_step start (s, pool(i := (q, Step f))) (s1, pool(i := (q, r)))"
    using worker_step.action [of "pool(i := (q, Step f))" i q f s s1 r start] f by simp
  moreover have "(worker_step start)\<^sup>*\<^sup>* (s1, pool(i := (q, r))) (s', pool(i := (q, Ret a)))"
    by (rule Step.IH [OF rangeI [of f s]]) (use Step.prems f in simp_all)
  ultimately show ?case by (rule converse_rtranclp_into_rtranclp)
qed simp_all

section \<open>Interference\<close>

text \<open>
  What is true of a computation whatever the others do: they keep \<open>I\<close> and change the state as \<open>G\<close> says, and so does
  it; its faults are in \<open>F\<close>, and its result has \<open>Q\<close>.
\<close>

primrec act_ok :: "('s \<Rightarrow> bool) \<Rightarrow> ('s \<Rightarrow> 's \<Rightarrow> bool) \<Rightarrow> fault set \<Rightarrow> ('a \<Rightarrow> 's \<Rightarrow> bool) \<Rightarrow> ('s, 'a) act \<Rightarrow> 's \<Rightarrow> bool" where
  "act_ok I G F Q (Ret a) = (\<lambda>s. Q a s)"
| "act_ok I G F Q (Fail f) = (\<lambda>s. f \<in> F)"
| "act_ok I G F Q Hang = (\<lambda>s. True)"
| "act_ok I G F Q (Step f) = (\<lambda>s. \<forall>s1. I s1 \<longrightarrow> G s s1 \<longrightarrow>
     (case map_prod id (act_ok I G F Q) (f s1) of (s2, P) \<Rightarrow> I s2 \<and> G s1 s2 \<and> P s2))"

locale interference =
  fixes I :: "'s \<Rightarrow> bool" and G :: "'s \<Rightarrow> 's \<Rightarrow> bool"
  assumes G_refl: "G s s" and G_trans: "G s s1 \<Longrightarrow> G s1 s2 \<Longrightarrow> G s s2"
begin

lemma ok_step:
  assumes "\<And>s1. I s1 \<Longrightarrow> G s s1 \<Longrightarrow> case f s1 of (s2, r) \<Rightarrow> I s2 \<and> G s1 s2 \<and> act_ok I G F Q r s2"
  shows "act_ok I G F Q (Step f) s"
  using assms by (force split: prod.splits)

lemma ok_later:
  assumes "act_ok I G F Q r s" "G s s'" "\<And>a. Q a s \<Longrightarrow> Q a s'"
  shows "act_ok I G F Q r s'"
  using assms G_trans [OF assms(2)] by (cases r) auto

lemma ok_bind:
  assumes "act_ok I G F Q r s" "I s" "\<And>a s'. I s' \<Longrightarrow> G s s' \<Longrightarrow> Q a s' \<Longrightarrow> act_ok I G F Q' (k a) s'"
  shows "act_ok I G F Q' (act_bind r k) s"
  using assms
proof (induction r arbitrary: s)
  case (Ret a)
  then show ?case using G_refl by simp
next
  case (Step f)
  have "case map_prod id (act_ok I G F Q') (map_prod id (\<lambda>r. act_bind r k) (f s1)) of (s2, P) \<Rightarrow> I s2 \<and> G s1 s2 \<and> P s2"
    if s1: "I s1" "G s s1" for s1
  proof -
    obtain s2 r where f: "f s1 = (s2, r)" by (cases "f s1")
    have s2: "I s2" "G s1 s2" "act_ok I G F Q r s2" using Step.prems(1) s1 f by auto
    have "act_ok I G F Q' (act_bind r k) s2"
      by (rule Step.IH [OF rangeI [of f s1]])
        (use f s2 Step.prems(3) G_trans [OF G_trans [OF s1(2) s2(2)]] in auto)
    then show ?thesis using s2 f by simp
  qed
  then show ?case by simp
qed simp_all

lemma ok_mono:
  assumes "act_ok I G F Q r s" "F \<subseteq> F'" "\<And>a s. Q a s \<Longrightarrow> Q' a s"
  shows "act_ok I G F' Q' r s"
  using assms(1)
proof (induction r arbitrary: s)
  case (Step f)
  have "case map_prod id (act_ok I G F' Q') (f s1) of (s2, P) \<Rightarrow> I s2 \<and> G s1 s2 \<and> P s2" if "I s1" "G s s1" for s1
    using Step.prems that Step.IH [OF rangeI [of f s1]] by (cases "f s1") auto
  then show ?case by simp
qed (use assms(2,3) in auto)

text \<open>Every worker's computation stays as it should be.\<close>

definition pool_ok :: "('q \<Rightarrow> fault set) \<Rightarrow> ('s \<times> (nat \<Rightarrow> 'q \<times> ('s, 'a) act)) \<Rightarrow> bool" where
  "pool_ok F = (\<lambda>(s, pool). I s \<and> (\<forall>i. act_ok I G (F (fst (pool i))) (\<lambda>_ _. True) (snd (pool i)) s))"

lemma pool_ok_step:
  assumes "\<And>q s. I s \<Longrightarrow> act_ok I G (F q) (\<lambda>_ _. True) (start q) s"
    and "worker_step start c c'" "pool_ok F c"
  shows "pool_ok F c'"
  using assms(2)
proof (cases rule: worker_stepE [consumes 1, case_names action new_request])
  case (action pool i q f s s' r)
  have I: "I s" and others: "\<And>j. act_ok I G (F (fst (pool j))) (\<lambda>_ _. True) (snd (pool j)) s"
    using assms(3) action(1) by (auto simp: pool_ok_def)
  have s: "I s" "act_ok I G (F q) (\<lambda>_ _. True) (Step f) s"
    using I others [of i] action(3) by simp_all
  have "I s' \<and> G s s' \<and> act_ok I G (F q) (\<lambda>_ _. True) r s'"
    using s G_refl action(4) by auto
  then show ?thesis
    using ok_later [OF others] by (auto simp: pool_ok_def action(2))
next
  case (new_request pool i q' a s q)
  then show ?thesis using assms(1,3) by (auto simp: pool_ok_def)
qed

lemma pool_ok_steps:
  assumes "\<And>q s. I s \<Longrightarrow> act_ok I G (F q) (\<lambda>_ _. True) (start q) s"
    and "(worker_step start)\<^sup>*\<^sup>* c c'" "pool_ok F c"
  shows "pool_ok F c'"
  using assms(2,3) by (induction rule: rtranclp_induct) (auto intro: pool_ok_step [OF assms(1)])

end

end
