(* ===== verification/Concurrent.thy ===== *)
theory Concurrent
  imports Workers
begin

text \<open>
  What is true of requests that are served at the same time (\<open>Workers\<close>), whatever the interleaving: the faults of a
  request, the handles of the manager, and the place of every key.

  A handle that a request has found stays good because the manager only grows, and the key it was found for stays in
  its database because a route depends on the configuration alone.  Both are one invariant, kept by every action
  of every request, and the contract \<open>interference\<close> carries it to the runs of all workers.
\<close>

section \<open>The state that requests share\<close>

text \<open>Where a key belongs; \<open>keys\<close> are those a database has stored.\<close>

definition belongs :: "'d manager \<Rightarrow> bytes \<Rightarrow> nat \<Rightarrow> bool" where
  "belongs m key n \<longleftrightarrow> (\<exists>k. route m key = Inr (Inr k) \<and> db_look m k = Some n)"

definition in_place :: "('d \<Rightarrow> bytes set) \<Rightarrow> 'd manager \<Rightarrow> bool" where
  "in_place keys m \<longleftrightarrow> (\<forall>n < length (dbs m). \<forall>key \<in> keys (dbs m ! n). belongs m key n)"

text \<open>The handles are valid, every key is in its place, and the configuration is that of the start.\<close>

definition well_kept :: "('d \<Rightarrow> bytes set) \<Rightarrow> 'd manager \<Rightarrow> ('w, 'd) shared \<Rightarrow> bool" where
  "well_kept keys m0 = (\<lambda>(w, m). owned m \<and> same_setup m0 m \<and> in_place keys m)"

text \<open>What a step may change: databases are added and written, none is closed or moved.\<close>

definition grows :: "('w, 'd) shared \<Rightarrow> ('w, 'd) shared \<Rightarrow> bool" where
  "grows = (\<lambda>(w, m) (w', m'). length (dbs m) \<le> length (dbs m') \<and> same_setup m m'
     \<and> (\<forall>k n. db_look m k = Some n \<longrightarrow> db_look m' k = Some n))"

lemma same_setup_trans: "same_setup m m1 \<Longrightarrow> same_setup m1 m2 \<Longrightarrow> same_setup m m2"
  by (simp add: same_setup_def)

interpretation workers: interference "well_kept keys m0" grows for keys :: "'d \<Rightarrow> bytes set" and m0
  by unfold_locales (auto simp: grows_def intro: same_setup_trans)

abbreviation w_ok ::
    "('d \<Rightarrow> bytes set) \<Rightarrow> 'd manager \<Rightarrow> fault set \<Rightarrow> ('a \<Rightarrow> ('w, 'd) shared \<Rightarrow> bool) \<Rightarrow> (('w, 'd) shared, 'a) act \<Rightarrow>
     ('w, 'd) shared \<Rightarrow> bool" where
  "w_ok keys m0 \<equiv> act_ok (well_kept keys m0) grows"

lemma well_keptD:
  assumes "well_kept keys m0 s"
  shows "owned (snd s)" "same_setup m0 (snd s)"
    "n < length (dbs (snd s)) \<Longrightarrow> key \<in> keys (dbs (snd s) ! n) \<Longrightarrow> belongs (snd s) key n"
  using assms by (auto simp: well_kept_def in_place_def split_beta)

lemma belongs_later:
  assumes "same_setup m m'" "\<And>k n. db_look m k = Some n \<Longrightarrow> db_look m' k = Some n" "belongs m key n"
  shows "belongs m' key n"
  using assms by (auto simp: belongs_def route_same_setup)

lemma growsD:
  assumes "grows s s'"
  shows "length (dbs (snd s)) \<le> length (dbs (snd s'))" "belongs (snd s) key n \<Longrightarrow> belongs (snd s') key n"
  using assms belongs_later [of "snd s" "snd s'" key n] by (auto simp: grows_def split_beta)

lemma grows_pairD:
  assumes "grows (w, m) (w', m')"
  shows "length (dbs m) \<le> length (dbs m')" "belongs m key n \<Longrightarrow> belongs m' key n"
  using growsD [OF assms] by simp_all

lemma belongs_handle: "owned m \<Longrightarrow> belongs m key n \<Longrightarrow> n < length (dbs m)"
  by (auto simp: belongs_def owned_def)

section \<open>The environment\<close>

text \<open>
  A directory that is opened holds keys of its database only; a write, whether it reports success or not, adds
  no keys but its own.
\<close>

definition opens_placed :: "('w, 'd) env \<Rightarrow> ('d \<Rightarrow> bytes set) \<Rightarrow> 'd manager \<Rightarrow> bool" where
  "opens_placed E keys m0 \<longleftrightarrow> (\<forall>w opt k s d w'. db_open E w opt (db_dir (basedir m0) k) = (s, Some d, w') \<longrightarrow>
     st_ok s \<longrightarrow> (\<forall>key \<in> keys d. route m0 key = Inr (Inr k)))"

definition writes_contained :: "('d, 'it, 'z) rocksdb_scheme \<Rightarrow> ('d \<Rightarrow> bytes set) \<Rightarrow> bool" where
  "writes_contained R keys \<longleftrightarrow> (\<forall>d. (\<forall>k v. keys (snd (db_put R d k v)) \<subseteq> insert k (keys d))
     \<and> (\<forall>b. keys (snd (db_write R d b)) \<subseteq> {k. \<exists>v. Put k v \<in> set b} \<union> keys d))"

definition server_laws :: "('w, 'd, 'it, 'o) server \<Rightarrow> ('d \<Rightarrow> bytes set) \<Rightarrow> 'd manager \<Rightarrow> bool" where
  "server_laws S keys m0 \<longleftrightarrow> opens_report (sv_env S) \<and> opens_placed (sv_env S) keys m0
     \<and> writes_contained (sv_rocks S) keys \<and> order_laws (sv_order S)"

section \<open>The actions keep it\<close>

lemma well_kept_lookup:
  assumes "opens_report E" "opens_placed E keys m0" "well_kept keys m0 (w, m)"
    and "ndbForKey E key (w, m, []) = Inr (h, w', m', serr)"
  shows "well_kept keys m0 (w', m')" "grows (w, m) (w', m')"
    "serr = [] \<Longrightarrow> \<exists>n. h = Some n \<and> belongs m' key n"
proof -
  have m: "owned m" "same_setup m0 m" using well_keptD [OF assms(3)] by simp_all
  have o: "owned m' \<and> length (dbs m) \<le> length (dbs m') \<and> (case h of None \<Rightarrow> serr \<noteq> [] | Some n \<Rightarrow> serr = [] \<and> n < length (dbs m'))"
    by (rule ndbForKey_handle [OF _ m(1) assms(4)]) (use assms(1) in \<open>simp add: opens_report_def\<close>)
  note step = ndbForKey_step [OF assms(4)]
  show g: "grows (w, m) (w', m')" using o step(1,3) by (simp add: grows_def)
  show "\<exists>n. h = Some n \<and> belongs m' key n" if "serr = []"
    using o that step(1,4) by (auto simp: belongs_def route_same_setup split: option.splits)
  have placed: "belongs m' k n" if n: "n < length (dbs m')" and k: "k \<in> keys (dbs m' ! n)" for n k
  proof (cases "n < length (dbs m) \<and> dbs m' ! n = dbs m ! n")
    case True
    then have "belongs m k n" using well_keptD(3) [OF assms(3), of n k] k by simp
    then show ?thesis using growsD(2) [OF g] by simp
  next
    case False
    obtain r where r: "route m key = Inr r"
      using assms(4) by (auto simp: ndbForKey_route res_bind_Inr_iff)
    obtain dk where dk: "r = Inr dk" "db_fetch E dk (w, m, []) = (h, w', m', serr)"
      using assms(4) r False n by (cases r) (auto simp: ndbForKey_route)
    from dk(2) show ?thesis
    proof (cases rule: db_fetch_cases)
      case made
      obtain d where d: "dbs m' = dbs m @ [d]" using db_madeD(5) [OF made(2)] by blast
      then have n': "n = length (dbs m)" using n False by (auto simp: nth_append less_Suc_eq)
      obtain w1 opt s w2 where "db_open E w1 opt (db_dir (basedir m) dk) = (s, Some d, w2)" "st_ok s"
        using made(2) d by (auto simp: db_made_def Let_def split: prod.splits option.splits)
      then have "route m0 k = Inr (Inr dk)"
        using assms(2) k d n' same_setup_basedir [OF m(2)] by (fastforce simp: opens_placed_def)
      then have "route m' k = Inr (Inr dk)"
        using route_same_setup [OF same_setup_trans [OF m(2) step(1)], of k] by simp
      then show ?thesis using db_madeD(3) [OF made(2)] by (simp add: belongs_def n')
    qed (use False n in \<open>auto dest!: db_failedD(2)\<close>)
  qed
  then show "well_kept keys m0 (w', m')"
    using o same_setup_trans [OF m(2) step(1)] by (simp add: well_kept_def in_place_def)
qed

lemma belongs_dbs [simp]: "belongs (m\<lparr>dbs := x\<rparr>) key n \<longleftrightarrow> belongs m key n"
  using route_same_setup [of m "m\<lparr>dbs := x\<rparr>" key] by (simp add: belongs_def db_look_updates)

lemma well_kept_write:
  assumes "well_kept keys m0 (w, m)" "n < length (dbs m)" "keys d \<subseteq> K \<union> keys (dbs m ! n)" "\<forall>key \<in> K. belongs m key n"
  shows "well_kept keys m0 (w, put_db (Some n) d m)" "grows (w, m) (w, put_db (Some n) d m)"
proof -
  note m = well_keptD [OF assms(1)]
  have "belongs m key i" if "i < length (dbs m)" "key \<in> keys ((dbs m)[n := d] ! i)" for key i
    using that assms(2-4) m(3) [of i key] m(3) [of n key] by (cases "i = n") auto
  then show "well_kept keys m0 (w, put_db (Some n) d m)"
    using m(1) same_setup_trans [OF m(2) same_setup_updates(1)]
    by (simp add: well_kept_def in_place_def owned_def put_db_def db_look_updates)
  show "grows (w, m) (w, put_db (Some n) d m)"
    by (simp add: grows_def put_db_def db_look_updates)
qed

section \<open>Requests under interference\<close>

lemma w_ok_of: "safe F P r \<Longrightarrow> w_ok keys m0 F (\<lambda>a _. P a) (act_of r) s"
  by (cases r) (simp_all add: act_of_def)

lemma w_ok_lookup:
  assumes "opens_report E" "opens_placed E keys m0"
  shows "w_ok keys m0 read_faults (\<lambda>(h, serr) (w, m). to_codec_value serr = None \<longrightarrow> (\<exists>n. h = Some n \<and> belongs m key n)) (lookup E key) s"
  unfolding lookup_def
proof (rule workers.ok_step, goal_cases)
  case (1 s1)
  obtain w m where s1: "s1 = (w, m)" by (cases s1)
  show ?case
  proof (cases "ndbForKey E key (w, m, [])")
    case (Inl f)
    then have "f = OobRead" using route_faults [of m key] by (auto simp: ndbForKey_route res_bind_Inl_iff)
    then show ?thesis using Inl 1(1) by (simp add: s1 grows_def)
  next
    case (Inr x)
    obtain h w' m' serr where x: "x = (h, w', m', serr)" by (metis prod_cases4)
    show ?thesis
      using well_kept_lookup [OF assms 1(1) [unfolded s1] Inr [unfolded x]]
      by (simp add: s1 Inr x to_codec_value_def)
  qed
qed

lemma w_ok_on_db:
  assumes "n < length (dbs (snd s))" "\<forall>key \<in> K. belongs (snd s) key n"
    and "\<And>d. safe F (\<lambda>(d', a). P a \<and> keys d' \<subseteq> K \<union> keys d) (g d)"
  shows "w_ok keys m0 F (\<lambda>a _. P a) (on_db (Some n) g) s"
  unfolding on_db_def
proof (rule workers.ok_step, goal_cases)
  case (1 s1)
  obtain w m where s1: "s1 = (w, m)" by (cases s1)
  have n: "n < length (dbs m)" and K: "\<forall>key \<in> K. belongs m key n"
    using growsD [OF 1(2)] assms(1,2) by (auto simp: s1)
  have at: "db_at m (Some n) = Inr (dbs m ! n)" using n by (simp add: db_at_def)
  show ?case
  proof (cases "g (dbs m ! n)")
    case (Inl f)
    then show ?thesis using assms(3) [of "dbs m ! n"] 1(1) by (simp add: s1 at grows_def)
  next
    case (Inr x)
    obtain d a where x: "x = (d, a)" by (cases x)
    show ?thesis
      using assms(3) [of "dbs m ! n"] well_kept_write [OF 1(1) [unfolded s1] n _ K, of d] by (simp add: s1 at Inr x)
  qed
qed

text \<open>The steps the commands share: find the database, answer its error, or go on with a handle that stays valid.\<close>

lemma w_ok_found:
  assumes "opens_report E" "opens_placed E keys m0" "well_kept keys m0 s"
    and "\<And>e s'. well_kept keys m0 s' \<Longrightarrow> grows s s' \<Longrightarrow> \<not> dangling e \<Longrightarrow> w_ok keys m0 read_faults Q (f e) s'"
    and "\<And>n s'. well_kept keys m0 s' \<Longrightarrow> grows s s' \<Longrightarrow> n < length (dbs (snd s')) \<Longrightarrow> belongs (snd s') key n \<Longrightarrow>
      w_ok keys m0 read_faults Q (g (Some n) []) s'"
  shows "w_ok keys m0 read_faults Q (act_bind (lookup E key) (\<lambda>(h, serr).
     case to_codec_value serr of Some e \<Rightarrow> f e | None \<Rightarrow> g h serr)) s"
proof (rule workers.ok_bind [OF w_ok_lookup [OF assms(1,2)] assms(3)], goal_cases)
  case (1 x s')
  obtain h serr where x: "x = (h, serr)" by (cases x)
  show ?case
  proof (cases "to_codec_value serr")
    case None
    then have "serr = []" by (simp add: to_codec_value_def split: if_splits)
    moreover obtain n where "h = Some n" "belongs (snd s') key n" using 1(3) None by (auto simp: x split_beta)
    ultimately show ?thesis
      using 1 None assms(5) [of s' n] belongs_handle [OF well_keptD(1) [OF 1(1)], of key n] by (simp add: x)
  next
    case (Some e)
    then show ?thesis using 1 assms(4) to_codec_value_plain [OF Some] by (simp add: x)
  qed
qed

lemma w_ok_bind_db:
  assumes "well_kept keys m0 s" "n < length (dbs (snd s))" "\<And>d. safe F (\<lambda>(d', a). keys d' \<subseteq> K \<union> keys d) (g d)"
    and "\<forall>key \<in> K. belongs (snd s) key n"
    and "\<And>a s'. well_kept keys m0 s' \<Longrightarrow> grows s s' \<Longrightarrow> w_ok keys m0 F Q (k a) s'"
  shows "w_ok keys m0 F Q (act_bind (on_db (Some n) g) k) s"
  by (rule workers.ok_bind [OF w_ok_on_db [where P = "\<lambda>_. True", OF assms(2,4)] assms(1)]) (use assms(3,5) in simp_all)

text \<open>Reads.\<close>

lemma w_ok_read_db:
  assumes "well_kept keys m0 s" "n < length (dbs (snd s))"
    and "\<And>a s'. well_kept keys m0 s' \<Longrightarrow> grows s s' \<Longrightarrow> w_ok keys m0 F Q (k a) s'"
  shows "w_ok keys m0 F Q (act_bind (on_db (Some n) (\<lambda>d. Inr (d, x d))) k) s"
  by (rule w_ok_bind_db [where K = "{}", OF assms(1,2) _ _ assms(3)]) simp_all

lemma w_ok_bind_of:
  assumes "well_kept keys m0 s" "safe F (\<lambda>_. True) r" "\<And>a s'. well_kept keys m0 s' \<Longrightarrow> grows s s' \<Longrightarrow> w_ok keys m0 F Q (k a) s'"
  shows "w_ok keys m0 F Q (act_bind (act_of r) k) s"
  by (rule workers.ok_bind [OF w_ok_of [OF assms(2)] assms(1)]) (use assms(3) in simp)

lemma safe_rd_members:
  "safe read_faults (\<lambda>_. True) (res_bind (rd params i) bytes_member)"
  "safe read_faults (\<lambda>_. True) (res_bind (rd params i) uint_member)"
  "safe read_faults (\<lambda>_. True) (res_bind (rd params i) bool_member)"
  "safe read_faults (\<lambda>_. True) (res_bind (rd params i) arr)"
  by (rule safe_bind [OF safe_rd_any safe_members(2)], rule safe_bind [OF safe_rd_any safe_members(3)],
      rule safe_bind [OF safe_rd_any safe_members(4)], rule safe_bind [OF safe_rd_any safe_members(1)])

abbreviation no_dangling :: "out_value \<times> out_value \<Rightarrow> ('w, 'd) shared \<Rightarrow> bool" where
  "no_dangling \<equiv> \<lambda>(o1, o2) _. \<not> dangling o1 \<and> \<not> dangling o2"

lemma store_contained:
  "writes_contained R keys \<Longrightarrow> keys (fst (incrdecr_store C R d key incr delta v out)) \<subseteq> {key} \<union> keys d"
  by (auto simp: incrdecr_store_def writes_contained_def split_beta Let_def)

lemma w_ok_N:
  fixes S :: "('w, 'd, 'it, 'o) server" and s :: "('w, 'd) shared"
  assumes "server_laws S keys m0" "well_kept keys m0 s"
  shows "w_ok keys m0 read_faults no_dangling (acts_N S params) s"
proof -
  have laws: "opens_report (sv_env S)" "opens_placed (sv_env S) keys m0" "writes_contained (sv_rocks S) keys"
    using assms(1) by (simp_all add: server_laws_def)
  have answer: "w_ok keys m0 read_faults no_dangling (case to_codec_value serr of Some e \<Rightarrow> Ret (e, ONil)
      | None \<Rightarrow> Ret (ONil, OPosInt v)) s" for serr v and s :: "('w, 'd) shared"
    by (auto split: option.split dest: to_codec_value_plain)
  have store: "w_ok keys m0 read_faults no_dangling (act_bind (on_db (Some n) (\<lambda>d. Inr (incrdecr_store C (sv_rocks S) d key incr delta v out)))
      (\<lambda>(nextval, serr). case to_codec_value serr of Some e \<Rightarrow> Ret (e, ONil) | None \<Rightarrow> Ret (ONil, OPosInt nextval))) s"
    if "well_kept keys m0 s" "belongs (snd s) key n" for n C key incr delta v out and s :: "('w, 'd) shared"
  proof (rule w_ok_bind_db [where K = "{key}", OF that(1) belongs_handle [OF well_keptD(1) [OF that(1)] that(2)]], goal_cases)
    case (1 d)
    then show ?case
      using store_contained [OF laws(3), of C d key incr delta v out] by (simp add: split_beta)
  qed (use that(2) answer in auto)
  show ?thesis
    by (auto simp: acts_N_def answer split: list.split codec_value.split sum.split
        intro!: w_ok_found laws(1,2) assms(2) w_ok_read_db store, erule (1) grows_pairD(2))
qed

lemma w_ok_get:
  assumes "opens_report (sv_env S)" "opens_placed (sv_env S) keys m0" "well_kept keys m0 s"
  shows "w_ok keys m0 read_faults (\<lambda>(e, cx) _. \<not> dangling e) (get_acts S ks cx) s"
  using assms(3)
proof (induction ks arbitrary: cx s)
  case (Cons key ks)
  then show ?case
    by (auto split: option.split prod.split intro!: w_ok_found assms(1,2) w_ok_read_db dest: to_codec_value_plain)
qed simp

lemma w_ok_G:
  fixes S :: "('w, 'd, 'it, 'o) server" and s :: "('w, 'd) shared"
  assumes "server_laws S keys m0" "well_kept keys m0 s"
  shows "w_ok keys m0 read_faults no_dangling (acts_G S params) s"
proof -
  have laws: "opens_report (sv_env S)" "opens_placed (sv_env S) keys m0"
    using assms(1) by (simp_all add: server_laws_def)
  have "w_ok keys m0 read_faults no_dangling (act_bind (get_acts S ks []) (\<lambda>(e, cx). Ret (e, ONil))) s"
    if "well_kept keys m0 s" for ks s
    by (rule workers.ok_bind [OF w_ok_get [OF laws that] that]) auto
  then show ?thesis
    by (auto simp: acts_G_def intro!: w_ok_bind_of assms(2) safe_rd_members safe_res_map safe_members)
qed

lemma w_ok_Q:
  fixes S :: "('w, 'd, 'it, 'o) server" and s :: "('w, 'd) shared"
  assumes "server_laws S keys m0" "well_kept keys m0 s"
  shows "w_ok keys m0 read_faults (\<lambda>_ _. True) (acts_Q S params) s"
proof -
  have laws: "opens_report (sv_env S)" "opens_placed (sv_env S) keys m0"
    using assms(1) by (simp_all add: server_laws_def)
  have reply: "w_ok keys m0 read_faults (\<lambda>_ _. True) (case to_codec_value serr of Some e \<Rightarrow> Ret (e, ONil)
      | None \<Rightarrow> Ret (ONil, query_reply sls)) s" for serr sls and s :: "('w, 'd) shared"
    by (auto split: option.split)
  have run: "w_ok keys m0 read_faults (\<lambda>_ _. True) (act_bind (act_run q) (\<lambda>(sls, serr).
         case to_codec_value serr of Some e \<Rightarrow> Ret (e, ONil) | None \<Rightarrow> Ret (ONil, query_reply sls))) s"
    if "well_kept keys m0 s" "\<And>r. q = Some r \<Longrightarrow> safe {OobRead} (\<lambda>_. True) r" for q and s :: "('w, 'd) shared"
  proof (cases q)
    case (Some r)
    have "safe read_faults (\<lambda>_. True) r" by (rule safe_mono [OF that(2) [OF Some]]) auto
    then show ?thesis
      unfolding Some act_run_def option.case
      by (rule w_ok_bind_of [OF that(1)]) (auto simp: reply split_beta)
  qed (simp add: act_run_def)
  have query: "w_ok keys m0 read_faults (\<lambda>q _. \<forall>r. q = Some r \<longrightarrow> safe {OobRead} (\<lambda>_. True) r)
       (on_db (Some n) (\<lambda>d. Inr (d, Ndb_query R d p1 p2 kind shape anc cur op off lim f s0 err))) s"
    if "n < length (dbs (snd s))" for n R p1 p2 kind shape anc cur op off lim f s0 err and s :: "('w, 'd) shared"
    by (rule w_ok_on_db [where K = "{}"]) (use that Ndb_query_faults in auto)
  show ?thesis
    unfolding acts_Q_def
    by (intro w_ok_bind_of w_ok_found assms(2) laws safe_rd_members) (auto intro!: workers.ok_bind [OF query] run)
qed

text \<open>The batches of an update stay those of databases of the manager, and their keys belong there.\<close>

definition batches_placed :: "db2BatchUpdateT \<Rightarrow> 'd manager \<Rightarrow> bool" where
  "batches_placed bts m \<longleftrightarrow> batches_ok bts (length (dbs m)) \<and> (\<forall>n. \<forall>key \<in> set (putkeys (batch_of bts (Some n))). belongs m key n)"

definition batches_stay :: "out_value \<times> db2BatchUpdateT \<Rightarrow> ('w, 'd) shared \<Rightarrow> bool" where
  "batches_stay = (\<lambda>(e, bts) s. \<not> dangling e \<and> batches_placed bts (snd s))"

lemma batches_stay_simps [simp]: "batches_stay (e, bts) s \<longleftrightarrow> \<not> dangling e \<and> batches_placed bts (snd s)"
  by (simp add: batches_stay_def)

lemma batches_placed_Nil [simp]: "batches_placed [] m"
  by (simp add: batches_placed_def batches_ok_def batch_of_def empty_batch_def)

lemma batches_placed_later: "grows s s' \<Longrightarrow> batches_placed bts (snd s) \<Longrightarrow> batches_placed bts (snd s')"
  using growsD [of s s'] by (auto simp: batches_placed_def intro: batches_ok_mono)

lemma batches_placed_pairD: "grows (w, m) (w', m') \<Longrightarrow> batches_placed bts m \<Longrightarrow> batches_placed bts m'"
  using batches_placed_later [of "(w, m)" "(w', m')"] by simp

lemma batches_placed_with:
  assumes "batches_placed bts m" "n < length (dbs m)" "belongs m key n" "\<And>b. set (putkeys (f b)) \<subseteq> insert key (set (putkeys b))"
  shows "batches_placed (with_batch (Some n) f bts) m"
proof -
  have "distinct (map fst bts)" using assms(1) by (simp add: batches_placed_def batches_ok_def)
  then show ?thesis
    using assms batches_ok_with [of bts "length (dbs m)" n f] by (fastforce simp: batches_placed_def with_batch(3))
qed

text \<open>A key is found, and goes into the batch of its database.\<close>

lemma w_ok_batch:
  assumes "opens_report E" "opens_placed E keys m0" "\<And>b. set (putkeys (f b)) \<subseteq> insert key (set (putkeys b))"
    and "well_kept keys m0 s" "batches_placed bts (snd s)"
    and "\<And>n s'. well_kept keys m0 s' \<Longrightarrow> batches_placed (with_batch (Some n) f bts) (snd s') \<Longrightarrow>
      w_ok keys m0 read_faults batches_stay (k (with_batch (Some n) f bts)) s'"
  shows "w_ok keys m0 read_faults batches_stay (act_bind (lookup E key) (\<lambda>(h, serr).
     case to_codec_value serr of Some e \<Rightarrow> Ret (e, bts) | None \<Rightarrow> k (with_batch h f bts))) s"
proof (rule w_ok_found [OF assms(1,2,4)], goal_cases)
  case (1 e s')
  then show ?case using batches_placed_later [OF 1(2) assms(5)] by simp
next
  case (2 n s')
  show ?case
    by (rule assms(6) [OF 2(1) batches_placed_with [OF batches_placed_later [OF 2(2) assms(5)] 2(3,4) assms(3)]])
qed

lemma w_ok_put:
  assumes "opens_report E" "opens_placed E keys m0" "well_kept keys m0 s" "batches_placed bts (snd s)"
  shows "w_ok keys m0 read_faults batches_stay (put_acts E lx bts) s"
  using assms(3,4)
proof (induction lx arbitrary: bts s rule: induct_list012)
  case (2 k)
  then show ?case by (auto intro!: w_ok_bind_of safe_members)
next
  case (3 k v lx)
  show ?case
    unfolding put_acts.simps
  proof (intro w_ok_bind_of safe_members "3.prems"(1) w_ok_batch [OF assms(1,2)], goal_cases)
    case (4 sl s1 sl2 s2)
    then show ?case using "3.prems"(2) batches_placed_later by blast
  qed (use "3.IH"(1) in auto)
qed simp

lemma w_ok_del:
  assumes "opens_report E" "opens_placed E keys m0" "well_kept keys m0 s" "batches_placed bts (snd s)"
  shows "w_ok keys m0 read_faults batches_stay (del_acts E lx bts) s"
  using assms(3,4)
proof (induction lx arbitrary: bts s)
  case (Cons k lx)
  show ?case
    unfolding del_acts.simps
  proof (intro w_ok_bind_of safe_members Cons.prems(1) w_ok_batch [OF assms(1,2)], goal_cases)
    case (3 sl s1)
    then show ?case using Cons.prems(2) batches_placed_later by blast
  qed (use Cons.IH in auto)
qed simp

lemma Ndb_update_contained:
  assumes "writes_contained R keys"
  shows "safe read_faults (\<lambda>(d', a). keys d' \<subseteq> set ks \<union> keys d) (Ndb_update R d ks vs ds err)"
proof (cases "length ks \<le> length vs")
  case True
  have "{k. \<exists>v. Put k v \<in> set (map (\<lambda>(k, v). Put k v) (zip ks vs) @ map Delete ds)} \<subseteq> set ks"
    by (auto dest: set_zip_leftD)
  then show ?thesis
    using assms Ndb_update_cases [OF True, of ds R d err] by (fastforce simp: writes_contained_def)
qed (simp add: Ndb_update_def put_ops_zip)

lemma w_ok_write:
  assumes "writes_contained R keys" "well_kept keys m0 s"
    and "\<forall>(h, bt) \<in> set bts. \<exists>n < length (dbs (snd s)). h = Some n \<and> (\<forall>key \<in> set (putkeys bt). belongs (snd s) key n)"
  shows "w_ok keys m0 read_faults (\<lambda>e _. \<not> dangling e) (write_acts R bts) s"
  using assms(2,3)
proof (induction bts arbitrary: s)
  case (Cons x bts)
  obtain n bt where x: "x = (Some n, bt)" "n < length (dbs (snd s))" "\<forall>key \<in> set (putkeys bt). belongs (snd s) key n"
    using Cons.prems(2) by (cases x) auto
  show ?case
    unfolding x(1) write_acts.simps
  proof (rule w_ok_bind_db [OF Cons.prems(1) x(2) Ndb_update_contained [OF assms(1)] x(3)])
    fix serr s' assume s': "well_kept keys m0 s'" "grows s s'"
    have "w_ok keys m0 read_faults (\<lambda>e _. \<not> dangling e) (write_acts R bts) s'"
      by (rule Cons.IH [OF s'(1)]) (use Cons.prems(2) growsD [OF s'(2)] in fastforce)
    then show "w_ok keys m0 read_faults (\<lambda>e _. \<not> dangling e) (case to_codec_value serr of None \<Rightarrow> write_acts R bts | Some e \<Rightarrow> Ret e) s'"
      using to_codec_value_plain by (auto split: option.split)
  qed
qed simp

lemma in_order_placed:
  assumes "order_laws ord" "batches_placed bts m" "(h, bt) \<in> set (in_order ord bts)"
  shows "\<exists>n < length (dbs m). h = Some n \<and> (\<forall>key \<in> set (putkeys bt). belongs m key n)"
proof -
  have d: "distinct (map fst bts)" and h: "\<forall>h \<in> set (map fst bts). \<exists>n < length (dbs m). h = Some n"
    using assms(2) by (simp_all add: batches_placed_def batches_ok_def)
  note o = in_order_map_of [OF assms(1) d]
  have "map_of bts h = Some bt" using assms(3) o(1,2) by (metis map_of_eq_Some_iff)
  moreover have "h \<in> set (map fst bts)" unfolding o(3) [symmetric] using assms(3) by force
  ultimately show ?thesis
    using h assms(2) by (fastforce simp: batches_placed_def batch_of_def)
qed

lemma w_ok_U:
  fixes S :: "('w, 'd, 'it, 'o) server" and s :: "('w, 'd) shared"
  assumes "server_laws S keys m0" "well_kept keys m0 s"
  shows "w_ok keys m0 read_faults no_dangling (acts_U S params) s"
proof -
  have laws: "opens_report (sv_env S)" "opens_placed (sv_env S) keys m0" "writes_contained (sv_rocks S) keys" "order_laws (sv_order S)"
    using assms(1) by (simp_all add: server_laws_def)
  have writes: "w_ok keys m0 read_faults no_dangling (act_bind (write_acts (sv_rocks S) (in_order (sv_order S) bts)) (\<lambda>out1. Ret (out1, ONil))) s"
    if "well_kept keys m0 s" "batches_placed bts (snd s)" for bts and s :: "('w, 'd) shared"
    by (rule workers.ok_bind [OF w_ok_write [OF laws(3) that(1)] that(1)])
      (use in_order_placed [OF laws(4) that(2)] in auto)
  have dels: "w_ok keys m0 read_faults no_dangling (act_bind (del_acts (sv_env S) dels bts) (\<lambda>(out1, bts).
       if out1 \<noteq> ONil then Ret (out1, ONil)
       else act_bind (write_acts (sv_rocks S) (in_order (sv_order S) bts)) (\<lambda>out1. Ret (out1, ONil)))) s"
    if "well_kept keys m0 s" "batches_placed bts (snd s)" for dels bts and s :: "('w, 'd) shared"
    by (rule workers.ok_bind [OF w_ok_del [OF laws(1,2) that] that(1)]) (auto intro!: writes)
  have puts: "w_ok keys m0 read_faults no_dangling (act_bind (put_acts (sv_env S) puts []) (\<lambda>(out1, bts).
       if out1 \<noteq> ONil then Ret (out1, ONil)
       else act_bind (act_of (res_bind (rd params 1) arr)) (\<lambda>dels.
         act_bind (del_acts (sv_env S) dels bts) (\<lambda>(out1, bts).
         if out1 \<noteq> ONil then Ret (out1, ONil)
         else act_bind (write_acts (sv_rocks S) (in_order (sv_order S) bts)) (\<lambda>out1. Ret (out1, ONil)))))) s"
    if "well_kept keys m0 s" for puts and s :: "('w, 'd) shared"
    by (rule workers.ok_bind [OF w_ok_put [OF laws(1,2) that batches_placed_Nil] that])
      (auto intro!: w_ok_bind_of safe_rd_members dels, erule (1) batches_placed_pairD)
  show ?thesis
    unfolding acts_U_def by (rule w_ok_bind_of [OF assms(2) safe_rd_members(4)]) (rule puts)
qed

lemma w_ok_switch:
  fixes S :: "('w, 'd, 'it, 'o) server" and s :: "('w, 'd) shared"
  assumes "server_laws S keys m0" "well_kept keys m0 s"
  shows "w_ok keys m0 read_faults (if c = of_char CHR ''Q'' then \<lambda>_ _. True else no_dangling) (switch_acts S c params) s"
  using w_ok_N [OF assms] w_ok_G [OF assms] w_ok_Q [OF assms] w_ok_U [OF assms] by (simp add: switch_acts_def)

text \<open>The faults of a request: only a query can read freed memory.\<close>

definition request_faults_of :: "('w, 'd, 'it, 'o) server \<Rightarrow> bytes \<Rightarrow> fault set" where
  "request_faults_of S inp = read_faults \<union>
     {f. f = UseAfterFree \<and> (\<exists>rid ps. fst (sv_decode S inp) = VArray (rid # VString [of_char CHR ''Q''] # ps))}"

lemma w_ok_request:
  fixes S :: "('w, 'd, 'it, 'o) server" and s :: "('w, 'd) shared"
  assumes "server_laws S keys m0" "well_kept keys m0 s"
    and P: "\<And>e. P (out, Some e)" "\<And>v. P (sv_encode S v out)"
  shows "w_ok keys m0 (request_faults_of S inp) (\<lambda>a _. P a) (request_acts S inp out) s"
proof -
  let ?F = "request_faults_of S inp"
  obtain cvIn err where dec: "sv_decode S inp = (cvIn, err)" by (cases "sv_decode S inp")
  have F: "read_faults \<subseteq> ?F" by (auto simp: request_faults_of_def)
  have sw: "w_ok keys m0 ?F (\<lambda>a _. P a) (act_bind (switch_acts S c params) (encode_acts S rid out)) s"
    if "well_kept keys m0 s" "cvIn = VArray (rid' # VString [c] # ps)" for c params rid rid' ps and s :: "('w, 'd) shared"
    by (rule workers.ok_bind [OF workers.ok_mono [OF w_ok_switch [OF assms(1) that(1)] F] that(1)])
      (use that(2) dec P in \<open>auto simp: encode_acts_def request_faults_of_def split: if_splits\<close>)
  have rd2: "safe ?F (\<lambda>_. True) (res_bind (rd req 2) arr)" for req
    by (rule safe_mono [OF safe_rd_members(4) F]) auto
  have head: "safe ?F (\<lambda>(req, rid, meth). \<exists>ps. cvIn = VArray (rid # meth # ps))
      (res_bind (arr cvIn) (\<lambda>req. res_bind (rd req 0) (\<lambda>rid. res_bind (rd req 1) (\<lambda>meth. Inr (req, rid, meth)))))"
  proof (cases "\<exists>rid meth ps. cvIn = VArray (rid # meth # ps)")
    case True
    then show ?thesis by (auto simp: arr_def rd_def)
  next
    case False
    then show ?thesis
      using F by (cases cvIn) (auto simp: arr_def rd_def neq_Nil_conv Suc_le_length_iff)
  qed
  have body: "w_ok keys m0 ?F (\<lambda>a _. P a) (case meth of VString [c] \<Rightarrow>
        act_bind (act_of (res_bind (rd req 2) arr)) (\<lambda>params. act_bind (switch_acts S c params) (encode_acts S rid out))
      | _ \<Rightarrow> Ret (out, Some method_msg)) s"
    if "well_kept keys m0 s" "cvIn = VArray (rid' # meth # ps)" for req rid rid' meth ps and s :: "('w, 'd) shared"
    using that(2) P by (auto split: codec_value.split list.split intro!: w_ok_bind_of [OF that(1) rd2] sw)
  show ?thesis
    unfolding request_acts_def dec Let_def prod.case
    using P by (cases err) (auto intro!: workers.ok_bind [OF w_ok_of [OF head] assms(2)] body)
qed

text \<open>All workers.\<close>

lemma pool_runs:
  fixes S :: "('w, 'd, 'it, 'o) server"
  assumes "server_laws S keys m0" "well_kept keys m0 s"
    and "\<forall>i. \<exists>a. snd (pool0 i) = Ret a"
    and "(worker_step (\<lambda>(inp, out). request_acts S inp out))\<^sup>*\<^sup>* (s, pool0) (s', pool)"
  shows "well_kept keys m0 s'" "w_ok keys m0 (request_faults_of S (fst (fst (pool i)))) (\<lambda>_ _. True) (snd (pool i)) s'"
proof -
  let ?F = "request_faults_of S \<circ> fst"
  have start: "w_ok keys m0 (?F q) (\<lambda>_ _. True) ((\<lambda>(inp, out). request_acts S inp out) q) s" if "well_kept keys m0 s" for q s
    using w_ok_request [OF assms(1) that, where P = "\<lambda>_. True"] by (auto split: prod.split)
  have "workers.pool_ok keys m0 ?F (s, pool0)"
    unfolding workers.pool_ok_def using assms(2,3) by auto (metis act_ok.simps(1))
  from workers.pool_ok_steps [OF start assms(4) this, unfolded workers.pool_ok_def]
  show "well_kept keys m0 s'" "w_ok keys m0 (request_faults_of S (fst (fst (pool i)))) (\<lambda>_ _. True) (snd (pool i)) s'"
    by simp_all
qed

section \<open>Properties\<close>

text \<open>
  C8. Concurrent requests: whatever the requests of the workers and however their actions interleave, a
  request has no other faults than one that is alone, and the handles of the manager stay valid.  A lookup that
  creates a database, in the middle of another request, does not invalidate what that request has found.
\<close>

theorem concurrent_requests_safe:
  fixes S :: "('w, 'd, 'it, 'o) server"
  assumes "opens_report (sv_env S)" "order_laws (sv_order S)" "owned m"
    and "\<forall>i. \<exists>a. snd (pool0 i) = Ret a"
    and "(worker_step (\<lambda>(inp, out). request_acts S inp out))\<^sup>*\<^sup>* ((w, m), pool0) ((w', m'), pool)"
  shows "owned m' \<and> (\<forall>i inp out f. pool i = ((inp, out), Fail f) \<longrightarrow> f = OobRead \<or> f = BadUnion
    \<or> f = UseAfterFree \<and> (\<exists>rid ps. fst (sv_decode S inp) = VArray (rid # VString [of_char CHR ''Q''] # ps)))"
proof -
  have laws: "server_laws S (\<lambda>_. {}) m"
    using assms(1,2) by (simp add: server_laws_def opens_placed_def writes_contained_def)
  have "well_kept (\<lambda>_. {}) m (w, m)" using assms(3) by (simp add: well_kept_def in_place_def)
  note run = pool_runs [OF laws this assms(4,5)]
  have "owned m'" using well_keptD(1) [OF run(1)] by simp
  moreover have "f \<in> request_faults_of S inp" if "pool i = ((inp, out), Fail f)" for i inp out f
    using run(2) [of i] that by simp
  ultimately show ?thesis by (force simp: request_faults_of_def)
qed

theorem concurrent_requests_safe_witness:
  "\<exists>(pool0 :: nat \<Rightarrow> (bytes \<times> codec_value list) \<times> ((string list, mem_db) shared, codec_value list \<times> string option) act) pool.
     (worker_step (\<lambda>(inp, out). request_acts (demo_server [] (request VNil CHR ''G'' [VNil])) inp out))\<^sup>*\<^sup>*
       (([], mem_manager True), pool0) (([], mem_manager True), pool)
     \<and> pool 1 = (([], []), Fail BadUnion) \<and> owned (mem_manager True :: mem_db manager)"
proof -
  let ?S = "demo_server [] (request VNil CHR ''G'' [VNil])"
  let ?start = "\<lambda>(inp, out). request_acts ?S inp out"
  let ?p0 = "\<lambda>_ :: nat. (([] :: bytes, [] :: codec_value list), Ret ([], None)
    :: ((string list, mem_db) shared, codec_value list \<times> string option) act)"
  have f: "request_acts ?S [] [] = (Fail BadUnion :: ((string list, mem_db) shared, _) act)"
    by (simp add: request_acts_def request_def switch_acts_def acts_G_def arr_def rd_def act_of_def)
  have o: "owned (mem_manager True :: mem_db manager)" by (rule no_dbs_owned [OF no_dbs_mem])
  have "worker_step ?start (([], mem_manager True), ?p0) (([], mem_manager True), ?p0(1 := (([], []), ?start ([], []))))"
    by (rule worker_step.new_request) simp
  then have "(worker_step ?start)\<^sup>*\<^sup>* (([], mem_manager True), ?p0) (([], mem_manager True), ?p0(1 := (([], []), Fail BadUnion)))"
    by (simp add: f)
  from concurrent_requests_safe [OF demo_server_laws(2,1) o _ this] this show ?thesis by fastforce
qed

text \<open>
  C9. Every key is where a lookup finds it: when each directory that is opened holds keys of its database only, then
  after any concurrent requests, answered, refused or stopped half way, a lookup of any stored key, in any database,
  gives that database.  In particular no key is in two databases.
\<close>

theorem concurrent_keys_in_place:
  fixes S :: "('w, 'd, 'it, 'o) server"
  assumes "server_laws S keys m" "no_dbs m"
    and "\<forall>i. \<exists>a. snd (pool0 i) = Ret a"
    and "(worker_step (\<lambda>(inp, out). request_acts S inp out))\<^sup>*\<^sup>* ((w, m), pool0) ((w', m'), pool)"
  shows "\<forall>n < length (dbs m'). \<forall>key \<in> keys (dbs m' ! n). ndbForKey (sv_env S) key (w', m', []) = Inr (Some n, w', m', [])"
proof -
  have "well_kept keys m (w, m)"
    using no_dbs_owned [OF assms(2)] assms(2) by (simp add: well_kept_def in_place_def no_dbs_def)
  note run = pool_runs(1) [OF assms(1) this assms(3,4)]
  show ?thesis
  proof (intro allI impI ballI)
    fix n key assume "n < length (dbs m')" "key \<in> keys (dbs m' ! n)"
    then obtain k where "route m' key = Inr (Inr k)" "db_look m' k = Some n"
      using well_keptD(3) [OF run] by (auto simp: belongs_def)
    then show "ndbForKey (sv_env S) key (w', m', []) = Inr (Some n, w', m', [])"
      by (simp add: ndbForKey_route db_fetch_hit)
  qed
qed

lemma apply_batch_dom: "dom (apply_batch b f) \<subseteq> {k. \<exists>v. Put k v \<in> set b} \<union> dom f"
proof (induction b arbitrary: f)
  case (Cons x b)
  have "dom (apply_batch (x # b) f) \<subseteq> {k. \<exists>v. Put k v \<in> set b} \<union> dom (apply_op x f)"
    using Cons.IH [of "apply_op x f"] by (simp add: apply_batch_def)
  moreover have "dom (apply_op x f) \<subseteq> {k. \<exists>v. Put k v = x} \<union> dom f" by (cases x) auto
  moreover have "{k. \<exists>v. Put k v \<in> set (x # b)} = {k. \<exists>v. Put k v = x} \<union> {k. \<exists>v. Put k v \<in> set b}" by auto
  ultimately show ?case by blast
qed (simp add: apply_batch_def)

lemma demo_laws: "server_laws (demo_server [] v) (\<lambda>d. dom (map_of (mem_entries d))) m"
proof -
  have "dom (map_of (mem_entries (snd (db_put mem_rocks d k v)))) \<subseteq> insert k (dom (map_of (mem_entries d)))" for d k v
    using db_lawsD(7) [OF mem_db_laws, of d k v] mem_puts_succeed by (simp add: puts_succeed_def)
  moreover have "dom (map_of (mem_entries (snd (db_write mem_rocks d b)))) \<subseteq> {k. \<exists>v. Put k v \<in> set b} \<union> dom (map_of (mem_entries d))" for d b
    using apply_batch_dom [of b "map_of (mem_entries d)"] db_lawsD(8) [OF mem_db_laws, of d b] demo_server_laws(3)
    by (simp only: writes_succeed_def)
  ultimately have "writes_contained mem_rocks (\<lambda>d. dom (map_of (mem_entries d)))" unfolding writes_contained_def by blast
  moreover have "opens_placed (sv_env (demo_server [] v)) (\<lambda>d. dom (map_of (mem_entries d))) m"
    by (auto simp: opens_placed_def demo_server_def mem_entries_def)
  ultimately show ?thesis
    using demo_server_laws(1,2) by (simp only: server_laws_def demo_server_simps)
qed

theorem concurrent_keys_in_place_witness:
  "\<exists>v w m pool. (worker_step (\<lambda>(inp, out). request_acts
        (demo_server [] (request VNil CHR ''N'' [VBytes (demo_key 2), VBool True, VPosInt 5, VPosInt 100])) inp out))\<^sup>*\<^sup>*
       (([], mem_manager True), (\<lambda>_. (([], []), Ret ([], None)))) ((w, m), pool)
     \<and> snd (pool (3 :: nat)) = Ret ([VArray [VNil, VNil, VPosInt v]], None)
     \<and> demo_key 2 \<in> dom (map_of (mem_entries (dbs m ! 0)))
     \<and> ndbForKey (sv_env (demo_server [] VNil)) (demo_key 2) (w, m, []) = Inr (Some 0, w, m, [])"
proof -
  define S where "S = demo_server [] (request VNil CHR ''N'' [VBytes (demo_key 2), VBool True, VPosInt 5, VPosInt 100])"
  have parts: "sv_rocks S = mem_rocks" "sv_encode S = (\<lambda>v out. (out @ [v], None))"
    "sv_decode S [] = (request VNil CHR ''N'' [VBytes (demo_key 2), VBool True, VPosInt 5, VPosInt 100], None)"
    "sv_env S = sv_env (demo_server [] VNil)"
    by (simp_all add: S_def demo_server_def)
  have laws: "server_laws S (\<lambda>d. dom (map_of (mem_entries d))) (mem_manager True)"
    unfolding S_def by (rule demo_laws)
  let ?start = "\<lambda>(inp, out). request_acts S inp out"
  let ?p0 = "\<lambda>_ :: nat. (([] :: bytes, [] :: codec_value list), Ret ([], None)
    :: ((string list, mem_db) shared, codec_value list \<times> string option) act)"
  obtain w m where f: "ndbForKey (sv_env S) (demo_key 2) ([], mem_manager True, []) = Inr (Some 0, w, m, [])"
    "dbs m = [[]]"
    unfolding S_def by (rule demo_find)
  obtain v d where h: "ReqHandler_handle S [] [] [] (mem_manager True) =
      Some (Inr ([VArray [VNil, VNil, VPosInt v]], None, w, m\<lparr>dbs := [d]\<rparr>))"
    "demo_key 2 \<in> dom (map_of (mem_entries d))"
    using incrdecr_answer [of S mem_entries mem_snap mem_pos "[]" VNil "demo_key 2" True 5 100 "[]" "[]"
        "mem_manager True" 0 w m "[]" 100 "[]"] f
    by (auto simp: parts mem_db_laws mem_puts_succeed mem_entries_def respond_def)
  have "worker_step ?start (([], mem_manager True), ?p0) (([], mem_manager True), ?p0(3 := (([], []), ?start ([], []))))"
    by (rule worker_step.new_request) simp
  moreover have "(worker_step ?start)\<^sup>*\<^sup>* (([], mem_manager True), ?p0(3 := (([], []), ?start ([], []))))
      ((w, m\<lparr>dbs := [d]\<rparr>), ?p0(3 := (([], []), Ret ([VArray [VNil, VNil, VPosInt v]], None))))"
    by (rule alone_worker_steps) (simp add: alone_request h)
  ultimately have run: "(worker_step ?start)\<^sup>*\<^sup>* (([], mem_manager True), ?p0)
      ((w, m\<lparr>dbs := [d]\<rparr>), ?p0(3 := (([], []), Ret ([VArray [VNil, VNil, VPosInt v]], None))))"
    by (rule converse_rtranclp_into_rtranclp)
  have "ndbForKey (sv_env (demo_server [] VNil)) (demo_key 2) (w, m\<lparr>dbs := [d]\<rparr>, []) = Inr (Some 0, w, m\<lparr>dbs := [d]\<rparr>, [])"
    using concurrent_keys_in_place [OF laws no_dbs_mem _ run] h(2) unfolding parts(4) by simp
  moreover have "demo_key 2 \<in> dom (map_of (mem_entries (dbs (m\<lparr>dbs := [d]\<rparr>) ! 0)))" using h(2) by simp
  ultimately show ?thesis
    unfolding S_def [symmetric]
    by (intro exI conjI) (rule run, simp_all)
qed

end
