(* ===== verification/Threads.thy ===== *)
theory Threads
  imports ConnSpec Concurrent
begin

text \<open>
  The threads of the server: each has a \<^verbatim>\<open>ConnHandler\<close> of its own (\<^verbatim>\<open>conn.cc\<close>, \<^verbatim>\<open>ndbserver_main.cc\<close>), and all of them the one
  \<^verbatim>\<open>ReqHandler\<close> with its manager.  What \<^verbatim>\<open>handleFd\<close> does with a socket and its connection concerns one thread only; in
  the middle of it are the actions of the request (\<open>Workers\<close>), between which the other threads go on.
\<close>

section \<open>Calls as actions\<close>

text \<open>
  The functions of \<open>Conn\<close>, on a shared state that is not part of the call: its own world and manager are not used.
\<close>

type_synonym ('w, 'd) call_acts = "(('w, 'd) shared, ('w, 'd) call) act"

definition process_acts :: "('w, 'd, 'it) conn_env \<Rightarrow> ('w, 'd) call \<Rightarrow> ('w, 'd) call_acts" where
  "process_acts E c =
     (case slice_range (xin (cx c)) 0 (unat (sl_len (xin (cx c)))) of
        Inl f \<Rightarrow> Fail f
      | Inr inp \<Rightarrow>
          act_bind (request_acts (ce_server E) inp (xout (cx c))) (\<lambda>(out, err).
          let c = set_x (\<lambda>x. x\<lparr>xout := out\<rparr>) c in
          case err of
            Some e \<Rightarrow> Ret (set_x reinit (c\<lparr>cerr := e\<rparr>))
          | None \<Rightarrow> act_run (doWriteFd E (set_x (\<lambda>x. x\<lparr>cstate := CONN_WRITING\<rparr>) c))))"

definition read_acts :: "('w, 'd, 'it) conn_env \<Rightarrow> ('w, 'd) call \<Rightarrow> ('w, 'd) call_acts" where
  "read_acts E c =
     act_bind (act_run (read_loop_fd E (creads c) c)) (\<lambda>(complete, c).
       if complete then process_acts E (set_x (\<lambda>x. x\<lparr>cstate := CONN_PROCESSING\<rparr>) c) else Ret c)"

definition start_request_acts :: "('w, 'd, 'it) conn_env \<Rightarrow> bytes \<Rightarrow> ('w, 'd) call \<Rightarrow> ('w, 'd) call_acts" where
  "start_request_acts E hdr c =
     (let numBytesForLen = hdr ! 0 in
      if 7 < numBytesForLen then Ret (c\<lparr>cerr := take 127 (bad_length_msg numBytesForLen)\<rparr>)
      else
        let n2 = unat numBytesForLen + 1;
            s = (if n2 < 8 then expand E (of_nat (8 - n2)) (xin (cx c)) else xin (cx c))
        in case (if n2 < 8 then if sl_set s then write_at (sl_buf s) 0 (drop n2 hdr) else Inl Uninit else Inr (sl_buf s)) of
             Inl f \<Rightarrow> Fail f
           | Inr b \<Rightarrow>
               let s = (if n2 < 8 then s\<lparr>sl_buf := b, sl_len := of_nat (8 - n2)\<rparr> else s)
               in read_acts E (set_x (\<lambda>x. x\<lparr>xin := s,
                     reqlen := be_read (sv_codec64 (ce_server E)) (length_array hdr n2),
                     cstate := CONN_READING\<rparr>) c))"

fun start_loop_acts :: "('w, 'd, 'it) conn_env \<Rightarrow> read_result list \<Rightarrow> ('w, 'd) call \<Rightarrow> ('w, 'd) call_acts" where
  "start_loop_acts E [] c = Hang"
| "start_loop_acts E (r # rs) c =
     (let ds = (case r of Got ds \<Rightarrow> take 8 ds | ReadFail e \<Rightarrow> []);
          c = (case r of Got ds \<Rightarrow> c | ReadFail e \<Rightarrow> c\<lparr>cerrno := e\<rparr>)\<lparr>creads := rs, creceived := creceived c @ ds\<rparr>;
          n2 = (case r of Got _ \<Rightarrow> int (length ds) | ReadFail _ \<Rightarrow> -1)
      in if n2 \<le> 0 then
           (if cerrno c = EINTR then start_loop_acts E rs c
            else if cerrno c = EAGAIN \<or> cerrno c = EWOULDBLOCK then Ret c
            else Ret (call_error (read_msg E n2 (cerrno c)) c))
         else start_request_acts E (ds @ drop (length ds) (ce_junk E)) c)"

definition state_acts :: "('w, 'd, 'it) conn_env \<Rightarrow> ('w, 'd) call \<Rightarrow> ('w, 'd) call_acts" where
  "state_acts E c = (case cstate (cx c) of
      CONN_READY \<Rightarrow> start_loop_acts E (creads c) (set_x reinit c)
    | CONN_READING \<Rightarrow> read_acts E c
    | CONN_PROCESSING \<Rightarrow> process_acts E c
    | CONN_WRITING \<Rightarrow> act_run (doWriteFd E c))"

definition handleFd_acts :: "('w, 'd, 'it) conn_env \<Rightarrow> int \<Rightarrow> conns \<Rightarrow> ('w, 'd) call \<Rightarrow>
    (('w, 'd) shared, conns \<times> ('w, 'd) call) act" where
  "handleFd_acts E fd cs c =
     (let (x, cs) = stateFor (ce_init E) fd cs in
      case x of
        None \<Rightarrow> Hang
      | Some x \<Rightarrow> act_bind (state_acts E (c\<lparr>cx := x\<rparr>)) (\<lambda>c. Ret (cs(fd \<mapsto> cx c), c)))"

section \<open>A call alone\<close>

text \<open>A call on the shared state.\<close>

definition on_shared :: "('w, 'd) shared \<Rightarrow> ('w, 'd) call \<Rightarrow> ('w, 'd) call" where
  "on_shared = (\<lambda>(w, m) c. c\<lparr>cworld := w, cmgr := m\<rparr>)"

lemma on_shared_simps [simp]:
  "cx (on_shared s c) = cx c" "cerrno (on_shared s c) = cerrno c" "creads (on_shared s c) = creads c"
  "cwrites (on_shared s c) = cwrites c" "creceived (on_shared s c) = creceived c" "csent (on_shared s c) = csent c"
  "cworld (on_shared (w, m) c) = w" "cmgr (on_shared (w, m) c) = m"
  "(on_shared s c)\<lparr>cx := x\<rparr> = on_shared s (c\<lparr>cx := x\<rparr>)" "(on_shared s c)\<lparr>cerrno := e\<rparr> = on_shared s (c\<lparr>cerrno := e\<rparr>)"
  "(on_shared s c)\<lparr>creads := rs\<rparr> = on_shared s (c\<lparr>creads := rs\<rparr>)" "(on_shared s c)\<lparr>cwrites := ws\<rparr> = on_shared s (c\<lparr>cwrites := ws\<rparr>)"
  "(on_shared s c)\<lparr>creceived := b\<rparr> = on_shared s (c\<lparr>creceived := b\<rparr>)" "(on_shared s c)\<lparr>csent := b\<rparr> = on_shared s (c\<lparr>csent := b\<rparr>)"
  "(on_shared s c)\<lparr>cerr := err\<rparr> = on_shared s (c\<lparr>cerr := err\<rparr>)"
  "(on_shared s c)\<lparr>cworld := w, cmgr := m\<rparr> = on_shared (w, m) c"
  by (simp_all add: on_shared_def split_beta)

lemma call_error_shared [simp]: "call_error msg (on_shared s c) = on_shared s (call_error msg c)"
  by (simp add: call_error_def)

lemma write_shared: "doWriteFd E (on_shared s c) = map_option (map_sum id (on_shared s)) (doWriteFd E c)"
proof -
  have "write_loop_fd E ws (on_shared s c) = map_option (map_sum id (on_shared s)) (write_loop_fd E ws c)" for ws
  proof (induction ws arbitrary: c)
    case (Cons r ws)
    show ?case
      by (cases r; subst (1 2) write_loop_fd.simps) (auto simp: Let_def Cons.IH id_def split: sum.split)
  qed (subst (1 2) write_loop_fd.simps, simp)
  then show ?thesis by (simp add: doWriteFd_def)
qed

lemma read_into_shared: "read_into r n (on_shared s c) = map_sum id (map_prod id (on_shared s)) (read_into r n c)"
  by (cases r) (auto simp: Let_def split: sum.split simp: res_bind_def)

lemma read_loop_Cons:
  "read_loop_fd E (r # rs) c =
     (if sl_len (xin (cx c)) < reqlen (cx c) then
        if \<not> sl_set (xin (cx c)) then Some (Inl Uninit)
        else (case read_into r (read_count c) (set_x (\<lambda>x. set_in (expand E (read_count c) (xin x)) x) (c\<lparr>creads := rs\<rparr>)) of
           Inl f \<Rightarrow> Some (Inl f)
         | Inr (n2, c) \<Rightarrow>
             if 0 < n2 then read_loop_fd E rs (add_len n2 c)
             else if n2 = 0 then Some (Inr (False, c))
             else if cerrno c = EINTR then read_loop_fd E rs c
             else if cerrno c = EAGAIN \<or> cerrno c = EWOULDBLOCK then Some (Inr (False, c))
             else Some (Inr (False, call_error (read_msg E (uint n2) (cerrno c)) c)))
      else Some (Inr (True, c)))"
  by (subst read_loop_fd.simps) (simp only: list.case Let_def)

lemma read_loop_shared: "read_loop_fd E rs (on_shared s c) = map_option (map_sum id (map_prod id (on_shared s))) (read_loop_fd E rs c)"
proof (induction rs arbitrary: c)
  case (Cons r rs)
  let ?c = "set_x (\<lambda>x. set_in (expand E (read_count c) (xin x)) x) (c\<lparr>creads := rs\<rparr>)"
  have start: "read_count (on_shared s c) = read_count c"
    "set_x (\<lambda>x. set_in (expand E (read_count c) (xin x)) x) ((on_shared s c)\<lparr>creads := rs\<rparr>) = on_shared s ?c"
    by (simp_all add: read_count_def)
  have len: "add_len n (on_shared s d) = on_shared s (add_len n d)" for n d by (simp add: add_len_def)
  show ?case
    unfolding read_loop_Cons start read_into_shared
    by (cases "read_into r (read_count c) ?c") (simp_all add: split_beta len Cons.IH)
qed (subst (1 2) read_loop_fd.simps, simp)

text \<open>A call of a thread that no other interrupts.\<close>

abbreviation shared_result :: "(('w, 'd) call \<times> ('w, 'd) shared) res option \<Rightarrow> ('w, 'd) call res option" where
  "shared_result \<equiv> map_option (map_sum id (\<lambda>(c, s). on_shared s c))"

lemma alone_process: "doProcessFd E (on_shared s c) = shared_result (alone (process_acts E c) s)"
proof (cases "slice_range (xin (cx c)) 0 (unat (sl_len (xin (cx c))))")
  case (Inr inp)
  obtain w m where s: "s = (w, m)" by (cases s)
  show ?thesis
  proof (cases "ReqHandler_handle (ce_server E) inp (xout (cx c)) w m")
    case (Some r)
    show ?thesis
    proof (cases r)
      case (Inr x)
      obtain out err w' m' where x: "x = (out, err, w', m')" by (metis prod_cases4)
      show ?thesis
        using \<open>slice_range _ _ _ = Inr inp\<close> Some Inr
        by (cases err) (simp_all add: s x doProcessFd_def process_acts_def alone_bind alone_request write_shared Let_def
            option.map_comp comp_def sum.map_comp id_def)
    qed (use \<open>slice_range _ _ _ = Inr inp\<close> Some in \<open>simp add: s doProcessFd_def process_acts_def alone_bind alone_request\<close>)
  qed (use Inr in \<open>simp add: s doProcessFd_def process_acts_def alone_bind alone_request\<close>)
qed (simp add: doProcessFd_def process_acts_def)

lemma alone_read: "doReadFd E (on_shared s c) = shared_result (alone (read_acts E c) s)"
proof (cases "read_loop_fd E (creads c) c")
  case (Some r)
  then show ?thesis
    by (cases r) (auto simp: doReadFd_def read_acts_def read_loop_shared alone_bind alone_process split_beta)
qed (simp add: doReadFd_def read_acts_def read_loop_shared alone_bind)

lemma alone_start_request: "start_request E hdr (on_shared s c) = shared_result (alone (start_request_acts E hdr c) s)"
  by (simp add: start_request_def start_request_acts_def Let_def alone_read split: sum.split)

lemma alone_start_loop: "start_loop_fd E rs (on_shared s c) = shared_result (alone (start_loop_acts E rs c) s)"
proof (induction rs arbitrary: c)
  case (Cons r rs)
  show ?case
    by (cases r) (simp_all add: Let_def Cons.IH alone_start_request id_def)
qed simp

lemma alone_state: "handle_state E (on_shared s c) = shared_result (alone (state_acts E c) s)"
proof -
  have w: "doWriteFd E (on_shared s c) = shared_result (alone (act_run (doWriteFd E c)) s)"
    by (simp add: write_shared option.map_comp comp_def sum.map_comp id_def)
  show ?thesis
    by (cases "cstate (cx c)") (simp_all add: handle_state_def state_acts_def doStartFd_def alone_start_loop alone_read alone_process w)
qed

lemma alone_handleFd:
  "handleFd E fd cs (on_shared s c) =
     map_option (map_sum id (\<lambda>((cs, c), s). (cs, on_shared s c))) (alone (handleFd_acts E fd cs c) s)"
proof (cases "stateFor (ce_init E) fd cs")
  case (Pair x cs')
  show ?thesis
  proof (cases x)
    case (Some y)
    show ?thesis
    proof (cases "alone (state_acts E (c\<lparr>cx := y\<rparr>)) s")
      case (Some r)
      then show ?thesis
        using Pair \<open>x = Some y\<close>
        by (cases r) (auto simp: handleFd_def handleFd_acts_def alone_bind alone_state)
    qed (use Pair \<open>x = Some y\<close> in \<open>simp add: handleFd_def handleFd_acts_def alone_bind alone_state\<close>)
  qed (use Pair in \<open>simp add: handleFd_def handleFd_acts_def\<close>)
qed

section \<open>Calls under interference\<close>

lemma w_ok_run: "(\<And>r. q = Some r \<Longrightarrow> safe F P r) \<Longrightarrow> w_ok keys m0 F (\<lambda>a _. P a) (act_run q) s"
  by (cases q) (simp_all add: act_run_def w_ok_of)

lemma w_ok_process:
  assumes "conn_laws E" "server_laws (ce_server E) keys m0" "slice_ok (xout (cx c))" "cursor (cx c) = 0" "owned (cmgr c)"
    and "well_kept keys m0 s" "sl_set (xin (cx c))"
  shows "w_ok keys m0 conn_faults (\<lambda>c' _. call_ok (xfd (cx c)) c') (process_acts E c) s"
proof (cases "slice_range (xin (cx c)) 0 (unat (sl_len (xin (cx c))))")
  case (Inl f)
  then show ?thesis using assms(7) by (auto simp: process_acts_def slice_range_def split: if_splits)
next
  case (Inr inp)
  then have xin: "slice_ok (xin (cx c))" by (simp add: slice_range_def slice_ok_def split: if_splits)
  have F: "request_faults_of (ce_server E) inp \<subseteq> conn_faults" by (auto simp: request_faults_of_def)
  have req: "w_ok keys m0 (request_faults_of (ce_server E) inp) (\<lambda>a _. slice_ok (fst a))
      (request_acts (ce_server E) inp (xout (cx c))) s"
    using w_ok_request [OF assms(2,6), where P = "\<lambda>a. slice_ok (fst a)" and out = "xout (cx c)"]
      assms(3) conn_lawsD(2) [OF assms(1)] by (simp add: encode_laws_def)
  show ?thesis
    unfolding process_acts_def Inr sum.case
  proof (rule workers.ok_bind [OF workers.ok_mono [OF req F] assms(6)], assumption, goal_cases)
    case (1 a s')
    obtain out err where a: "a = (out, err)" by (cases a)
    let ?c = "c\<lparr>cx := cx c\<lparr>xout := out, cstate := CONN_WRITING\<rparr>\<rparr>"
    have w: "safe conn_faults (call_ok (xfd (cx c))) r" if "doWriteFd E ?c = Some r" for r
      using doWriteFd_ok [OF _ _ _ _ _ that] xin 1(3) assms(4,5) by (simp add: a)
    show ?case
    proof (cases err)
      case None
      then show ?thesis using w by (simp add: a w_ok_run)
    qed (use assms(5) xin 1(3) in \<open>simp add: a Let_def call_ok_def\<close>)
  qed
qed

lemma w_ok_read:
  assumes "conn_laws E" "server_laws (ce_server E) keys m0" "slice_ok (xin (cx c))" "slice_ok (xout (cx c))"
    and "sl_len (xout (cx c)) = 0" "cursor (cx c) = 0" "cstate (cx c) = CONN_READING" "owned (cmgr c)" "well_kept keys m0 s"
  shows "w_ok keys m0 conn_faults (\<lambda>c' _. call_ok (xfd (cx c)) c') (read_acts E c) s"
proof (cases "read_loop_fd E (creads c) c")
  case (Some r)
  show ?thesis
  proof (cases rule: read_loop_ok [OF conn_lawsD(1) [OF assms(1)] conjI [OF disjI1 [OF assms(3)] slice_ok_set [OF assms(3)]] Some refl,
      case_names complete waiting])
    case (complete s' e rs d)
    let ?c = "set_x (\<lambda>x. x\<lparr>cstate := CONN_PROCESSING\<rparr>) (set_x (set_in s') (c\<lparr>creads := rs, cerrno := e, creceived := d\<rparr>))"
    show ?thesis
      using w_ok_process [OF assms(1,2), of ?c s] assms(4,6,8,9) Some complete
      by (simp add: read_acts_def act_run_def act_of_def set_in_def)
  next
    case (waiting s' e rs d)
    then show ?thesis
      using assms(4-8) Some by (auto simp: read_acts_def act_run_def act_of_def conn_ok_def call_ok_def set_in_def)
  qed
qed (simp add: read_acts_def act_run_def)

text \<open>The bytes after the header fit into the input slice.\<close>

lemma w_ok_start_request:
  assumes "conn_laws E" "server_laws (ce_server E) keys m0" "slice_ok (xin (cx c))" "sl_len (xin (cx c)) = 0" "length hdr = 8"
    and "slice_ok (xout (cx c))" "sl_len (xout (cx c)) = 0" "cursor (cx c) = 0" "owned (cmgr c)" "well_kept keys m0 s"
    and "7 < hdr ! 0 \<Longrightarrow> conn_ok (cx c)"
  shows "w_ok keys m0 conn_faults (\<lambda>c' _. call_ok (xfd (cx c)) c') (start_request_acts E hdr c) s"
proof (cases "7 < hdr ! 0")
  case False
  let ?n = "unat (hdr ! 0) + 1"
  let ?s = "if ?n < 8 then expand E (of_nat (8 - ?n)) (xin (cx c)) else xin (cx c)"
  have n: "?n \<le> 8" using False by (simp add: word_le_nat_alt not_less)
  have go: "w_ok keys m0 conn_faults (\<lambda>c' _. call_ok (xfd (cx c)) c') (read_acts E (set_x (\<lambda>x. x\<lparr>xin := s',
      reqlen := be_read (sv_codec64 (ce_server E)) (length_array hdr ?n), cstate := CONN_READING\<rparr>) c)) s"
    if "slice_ok s'" for s'
    using w_ok_read [OF assms(1,2), of "set_x (\<lambda>x. x\<lparr>xin := s', reqlen := be_read (sv_codec64 (ce_server E)) (length_array hdr ?n),
      cstate := CONN_READING\<rparr>) c" s] that assms(6-10) by simp
  have u: "unat (of_nat k :: u64) = k" if "k \<le> 8" for k using that by (simp add: unat_of_nat)
  show ?thesis
  proof (cases "?n < 8")
    case True
    have room: "8 - ?n \<le> length (sl_buf ?s)"
      using expand_ok(3) [OF conn_lawsD(1) [OF assms(1)] assms(3), of "of_nat (8 - ?n)"] assms(4) u [of "8 - ?n"] True
      by (simp del: of_nat_diff of_nat_add)
    obtain b where b: "write_at (sl_buf ?s) 0 (drop ?n hdr) = Inr b" "length b = length (sl_buf ?s)"
      using write_at_end [of 0 "drop ?n hdr" "sl_buf ?s"] room assms(5) by auto
    have "slice_ok (?s\<lparr>sl_buf := b, sl_len := of_nat (8 - ?n)\<rparr>)"
      using b(2) assms(3) room u [of "8 - ?n"] by (simp add: slice_ok_def del: of_nat_diff of_nat_add)
    from go [OF this] show ?thesis using b(1) True False slice_ok_set [OF assms(3)] by (simp add: start_request_acts_def Let_def)
  next
    case 8: False
    then show ?thesis using go [OF assms(3)] False by (simp add: start_request_acts_def Let_def)
  qed
qed (use assms(9,11) in \<open>simp add: start_request_acts_def call_ok_def\<close>)

lemma w_ok_start_loop:
  assumes "conn_laws E" "server_laws (ce_server E) keys m0" "cx c = reinit x" "owned (cmgr c)" "well_kept keys m0 s"
    and set: "sl_set (xin x)" "sl_set (xout x)"
  shows "w_ok keys m0 conn_faults (\<lambda>c' _. call_ok (xfd x) c') (start_loop_acts E rs c) s"
  using assms(3,4)
proof (induction rs arbitrary: c)
  case (Cons r rs)
  let ?ds = "case r of Got ds \<Rightarrow> take 8 ds | ReadFail e \<Rightarrow> []"
  let ?c = "(case r of Got ds \<Rightarrow> c | ReadFail e \<Rightarrow> c\<lparr>cerrno := e\<rparr>)\<lparr>creads := rs, creceived := creceived c @ ?ds\<rparr>"
  have c: "cx ?c = reinit x" "owned (cmgr ?c)" using Cons.prems by (cases r; simp)+
  have fresh: "slice_ok (xin (reinit x))" "slice_ok (xout (reinit x))" "sl_len (xin (reinit x)) = 0"
    "sl_len (xout (reinit x)) = 0" "cursor (reinit x) = 0"
    using set by (simp_all add: reinit_def slice_ok_def)
  have "length (?ds @ drop (length ?ds) (ce_junk E)) = 8"
    using conn_lawsD(3) [OF assms(1)] by (cases r) auto
  from w_ok_start_request [OF assms(1,2), of ?c, OF _ _ this] c fresh assms(5) set
  have go: "w_ok keys m0 conn_faults (\<lambda>c' _. call_ok (xfd x) c')
      (start_request_acts E (?ds @ drop (length ?ds) (ce_junk E)) ?c) s" by simp
  have stop: "call_ok (xfd x) ?c" "call_ok (xfd x) (call_error msg ?c)" for msg
    using c set by (simp_all add: call_ok_def call_error_def)
  note again = Cons.IH [OF c]
  show ?case
    unfolding start_loop_acts.simps Let_def using go stop again by simp
qed simp

lemma w_ok_state:
  assumes "conn_laws E" "server_laws (ce_server E) keys m0" "conn_ok (cx c)" "xfd (cx c) = fd" "owned (cmgr c)" "well_kept keys m0 s"
  shows "w_ok keys m0 conn_faults (\<lambda>c' _. call_ok fd c') (state_acts E c) s"
proof (cases "cstate (cx c)")
  case CONN_READY
  then show ?thesis
    using w_ok_start_loop [OF assms(1,2), of "set_x reinit c" "cx c" s] conn_okD [OF assms(3)] assms(4-6) by (simp add: state_acts_def)
next
  case CONN_READING
  then show ?thesis
    using w_ok_read [OF assms(1,2), of c s] assms(3-6) by (simp add: state_acts_def conn_ok_def)
next
  case CONN_WRITING
  then have "safe conn_faults (call_ok fd) r" if "doWriteFd E c = Some r" for r
    using doWriteFd_ok [OF _ _ _ _ _ that] assms(3-5) by (simp add: conn_ok_def order_less_imp_le)
  then show ?thesis using CONN_WRITING by (simp add: state_acts_def w_ok_run)
qed (use assms(3) in \<open>simp add: conn_ok_def\<close>)

text \<open>A call for a new connection whose slices are not set does not come to a request.\<close>

lemma read_acts_unset: "\<not> sl_set (xin (cx c)) \<Longrightarrow> read_acts E c = Fail Uninit"
  by (simp add: read_acts_def read_loop_fd.simps [of E "creads c" c] process_acts_def slice_range_def act_run_def act_of_def)

lemma start_loop_acts_unset:
  assumes "cx c = new_conn False fd"
  shows "w_ok keys m0 {Uninit} (\<lambda>c' _. cx c' = new_conn False fd) (start_loop_acts E rs c) s"
  using assms
proof (induction rs arbitrary: c)
  case (Cons r rs)
  have "w_ok keys m0 {Uninit} (\<lambda>c' _. cx c' = new_conn False fd) (start_request_acts E hdr d) s" if "cx d = new_conn False fd" for hdr d
    using that read_acts_unset [of "d\<lparr>cx := x\<rparr>" for x] by (auto simp: start_request_acts_def Let_def read_acts_unset)
  then show ?case
    unfolding start_loop_acts.simps Let_def using Cons by (auto simp: call_error_def split: read_result.split)
qed simp

lemma w_ok_handleFd:
  assumes "conn_laws E" "server_laws (ce_server E) keys m0" "conns_ok (ce_init E) cs" "owned (cmgr c)" "well_kept keys m0 s"
  shows "w_ok keys m0 (handler_faults (ce_init E)) (\<lambda>(cs', c') _. conns_ok (ce_init E) cs') (handleFd_acts E fd cs c) s"
proof -
  obtain x cs0 where x: "stateFor (ce_init E) fd cs = (Some x, cs0)" "conn_kept (ce_init E) x" "xfd x = fd" "conns_ok (ce_init E) cs0"
    using stateFor_ok [OF assms(3)] by blast
  let ?c = "c\<lparr>cx := x\<rparr>"
  have "w_ok keys m0 (handler_faults (ce_init E)) (\<lambda>c' _. conn_kept (ce_init E) (cx c') \<and> xfd (cx c') = fd) (state_acts E ?c) s"
  proof (cases "ce_init E")
    case True
    have "w_ok keys m0 conn_faults (\<lambda>c' _. call_ok fd c') (state_acts E ?c) s"
      by (rule w_ok_state [OF assms(1,2)]) (use x(2,3) True assms(4,5) in \<open>simp_all add: conn_kept_def\<close>)
    then show ?thesis
      by (rule workers.ok_mono) (use True in \<open>auto simp: handler_faults_def call_ok_def conn_kept_def\<close>)
  next
    case False
    then have new: "x = new_conn False fd" using x(2,3) by (simp add: conn_kept_def)
    have "w_ok keys m0 {Uninit} (\<lambda>c' _. cx c' = new_conn False fd) (start_loop_acts E (creads ?c) (set_x reinit ?c)) s"
      by (rule start_loop_acts_unset) (simp add: new)
    then show ?thesis
      by (simp add: state_acts_def new) (erule workers.ok_mono, use False in \<open>auto simp: handler_faults_def\<close>)
  qed
  then have "w_ok keys m0 (handler_faults (ce_init E)) (\<lambda>(cs', c') _. conns_ok (ce_init E) cs')
      (act_bind (state_acts E ?c) (\<lambda>c. Ret (cs0(fd \<mapsto> cx c), c))) s"
    by (rule workers.ok_bind [OF _ assms(5)]) (use x(4) in \<open>auto simp: conns_ok_def\<close>)
  then show ?thesis using x(1) by (simp add: handleFd_acts_def)
qed

section \<open>Threads\<close>

text \<open>
  A thread is idle, with the connections of its handler and its \<^verbatim>\<open>errno\<close>, or what is left of its call.  Any of its
  sockets may become ready at any time, with any results of the system calls; an idle thread may close a socket.
\<close>

datatype ('w, 'd) thread = Idle conns errno | Busy "(('w, 'd) shared, conns \<times> ('w, 'd) call) act"

type_synonym ('w, 'd) threads = "('w, 'd) shared \<times> (nat \<Rightarrow> ('w, 'd) thread)"

inductive threads_step :: "('w, 'd, 'it) conn_env \<Rightarrow> ('w, 'd) threads \<Rightarrow> ('w, 'd) threads \<Rightarrow> bool" for E where
  ready: "ts i = Idle cs e \<Longrightarrow>
    threads_step E ((w, m), ts) ((w, m), ts(i := Busy (handleFd_acts E fd cs (new_call w m e rs ws))))"
| action: "ts i = Busy (Step f) \<Longrightarrow> f s = (s', r) \<Longrightarrow> threads_step E (s, ts) (s', ts(i := Busy r))"
| returned: "ts i = Busy (Ret (cs, c)) \<Longrightarrow> threads_step E (s, ts) (s, ts(i := Idle cs (cerrno c)))"
| closed: "ts i = Idle cs e \<Longrightarrow> threads_step E (s, ts) (s, ts(i := Idle (unregisterFd fd cs) e))"
| others: "ts i = Idle cs e \<Longrightarrow> threads_step E (s, ts) (s, ts(i := Idle cs e'))"

inductive_cases threads_stepE: "threads_step E s s'"

text \<open>A call that no other thread interrupts is \<^verbatim>\<open>handleFd\<close>.\<close>

lemma busy_steps:
  assumes "alone r s = Some (Inr (a, s'))"
  shows "(threads_step E)\<^sup>*\<^sup>* (s, ts(i := Busy r)) (s', ts(i := Busy (Ret a)))"
  using assms
proof (induction r arbitrary: s)
  case (Step f)
  obtain s1 r where f: "f s = (s1, r)" by (cases "f s")
  have "threads_step E (s, ts(i := Busy (Step f))) (s1, ts(i := Busy r))"
    using threads_step.action [of "ts(i := Busy (Step f))" i f s s1 r E] f by simp
  moreover have "(threads_step E)\<^sup>*\<^sup>* (s1, ts(i := Busy r)) (s', ts(i := Busy (Ret a)))"
    by (rule Step.IH [OF rangeI [of f s]]) (use Step.prems f in simp_all)
  ultimately show ?case by (rule converse_rtranclp_into_rtranclp)
qed simp_all

lemma call_steps:
  assumes "ts i = Idle cs e" "handleFd E fd cs (new_call w m e rs ws) = Some (Inr (cs', c))"
  shows "(threads_step E)\<^sup>*\<^sup>* ((w, m), ts) ((cworld c, cmgr c), ts(i := Idle cs' (cerrno c)))"
proof -
  let ?c = "new_call w m e rs ws"
  have "on_shared (w, m) ?c = ?c" by (simp add: on_shared_def new_call_def)
  then obtain c0 w' m' where c0: "alone (handleFd_acts E fd cs ?c) (w, m) = Some (Inr ((cs', c0), (w', m')))" "c = on_shared (w', m') c0"
    using alone_handleFd [of E fd cs "(w, m)" ?c] assms(2)
    by (cases "alone (handleFd_acts E fd cs ?c) (w, m)"; cases "the (alone (handleFd_acts E fd cs ?c) (w, m))") auto
  have "threads_step E ((w, m), ts) ((w, m), ts(i := Busy (handleFd_acts E fd cs ?c)))"
    by (rule threads_step.ready) (rule assms(1))
  moreover have "(threads_step E)\<^sup>*\<^sup>* ((w, m), ts(i := Busy (handleFd_acts E fd cs ?c))) ((w', m'), ts(i := Busy (Ret (cs', c0))))"
    by (rule busy_steps [OF c0(1)])
  moreover have "threads_step E ((w', m'), ts(i := Busy (Ret (cs', c0)))) ((w', m'), ts(i := Idle cs' (cerrno c0)))"
    using threads_step.returned [of "ts(i := Busy (Ret (cs', c0)))" i cs' c0] by simp
  ultimately show ?thesis
    using c0(2) by (simp add: converse_rtranclp_into_rtranclp rtranclp.rtrancl_into_rtrancl)
qed

fun thread_ok :: "bool \<Rightarrow> ('d \<Rightarrow> bytes set) \<Rightarrow> 'd manager \<Rightarrow> ('w, 'd) shared \<Rightarrow> ('w, 'd) thread \<Rightarrow> bool" where
  "thread_ok init keys m0 s (Idle cs e) \<longleftrightarrow> conns_ok init cs"
| "thread_ok init keys m0 s (Busy r) \<longleftrightarrow> w_ok keys m0 (handler_faults init) (\<lambda>(cs, c) _. conns_ok init cs) r s"

definition threads_ok :: "bool \<Rightarrow> ('d \<Rightarrow> bytes set) \<Rightarrow> 'd manager \<Rightarrow> ('w, 'd) threads \<Rightarrow> bool" where
  "threads_ok init keys m0 = (\<lambda>(s, ts). well_kept keys m0 s \<and> (\<forall>i. thread_ok init keys m0 s (ts i)))"

lemma threads_okD:
  assumes "threads_ok init keys m0 (s, ts)"
  shows "well_kept keys m0 s" "ts i = t \<Longrightarrow> thread_ok init keys m0 s t"
  using assms by (auto simp: threads_ok_def)

lemma thread_ok_later: "thread_ok init keys m0 s t \<Longrightarrow> grows s s' \<Longrightarrow> thread_ok init keys m0 s' t"
  by (cases t) (auto elim: workers.ok_later)

lemma threads_ok_upd:
  assumes "threads_ok init keys m0 (s, ts)" "well_kept keys m0 s'" "grows s s'" "thread_ok init keys m0 s' t"
  shows "threads_ok init keys m0 (s', ts(i := t))"
  using assms thread_ok_later [OF _ assms(3)] by (simp add: threads_ok_def)

lemma threads_ok_step:
  assumes "conn_laws E" "server_laws (ce_server E) keys m0" "threads_step E s s'" "threads_ok (ce_init E) keys m0 s"
  shows "threads_ok (ce_init E) keys m0 s'"
  using assms(3)
proof (cases rule: threads_stepE [consumes 1, case_names ready action returned closed others])
  case (ready ts i cs e w m fd rs ws)
  note ok = threads_okD [OF assms(4) [unfolded ready(1)]]
  have "w_ok keys m0 (handler_faults (ce_init E)) (\<lambda>(cs, c) _. conns_ok (ce_init E) cs) (handleFd_acts E fd cs (new_call w m e rs ws)) (w, m)"
    by (rule w_ok_handleFd [OF assms(1,2)])
      (use ok(1) ok(2) [OF ready(3)] well_keptD(1) [OF ok(1)] in \<open>simp_all add: new_call_def\<close>)
  then show ?thesis
    using threads_ok_upd [OF assms(4) [unfolded ready(1)] ok(1) workers.G_refl] by (simp add: ready(2))
next
  case (action ts i f s s' r)
  note ok = threads_okD [OF assms(4) [unfolded action(1)]]
  have "well_kept keys m0 s' \<and> grows s s' \<and> w_ok keys m0 (handler_faults (ce_init E)) (\<lambda>(cs, c) _. conns_ok (ce_init E) cs) r s'"
    using ok(1) ok(2) [OF action(3)] workers.G_refl [of s] action(4) by (auto simp del: split_paired_All dest!: spec [of _ s])
  then show ?thesis
    using threads_ok_upd [OF assms(4) [unfolded action(1)], of s' "Busy r"] by (simp add: action(2))
next
  case (returned ts i cs c s)
  note ok = threads_okD [OF assms(4) [unfolded returned(1)]]
  show ?thesis
    unfolding returned(2)
    by (rule threads_ok_upd [OF assms(4) [unfolded returned(1)] ok(1) workers.G_refl]) (use ok(2) [OF returned(3)] in simp)
next
  case (closed ts i cs e s fd)
  note ok = threads_okD [OF assms(4) [unfolded closed(1)]]
  show ?thesis
    unfolding closed(2)
    by (rule threads_ok_upd [OF assms(4) [unfolded closed(1)] ok(1) workers.G_refl])
      (use ok(2) [OF closed(3)] in \<open>simp add: conns_ok_def unregisterFd_def\<close>)
next
  case (others ts i cs e s e')
  note ok = threads_okD [OF assms(4) [unfolded others(1)]]
  show ?thesis
    unfolding others(2)
    by (rule threads_ok_upd [OF assms(4) [unfolded others(1)] ok(1) workers.G_refl]) (use ok(2) [OF others(3)] in simp)
qed

lemma threads_ok_steps:
  assumes "conn_laws E" "server_laws (ce_server E) keys m0" "(threads_step E)\<^sup>*\<^sup>* s s'" "threads_ok (ce_init E) keys m0 s"
  shows "threads_ok (ce_init E) keys m0 s'"
  using assms(3,4) by (induction rule: rtranclp_induct) (auto intro: threads_ok_step [OF assms(1,2)])

end
