(* ===== verification/Service.thy ===== *)
theory Service
  imports ConnSpec
begin

text \<open>
  The connection handler as a service: what a client sends and gets over the life of a connection,
  and the requests of all connections in the order in which they take effect.  The bytes of a connection
  are cut into frames; each is one request, and the bytes sent back are the responses in their order.
\<close>

section \<open>Frames\<close>

text \<open>
  A frame is a byte that counts the bytes of the length, the length, and the request.  The number
  the handler takes as length is that of all bytes of the header; at least eight bytes are read.
\<close>

abbreviation head_len :: "bytes \<Rightarrow> nat" where
  "head_len bs \<equiv> Suc (unat (hd bs))"

definition announced :: "bytes \<Rightarrow> u64" where
  "announced bs = be_value (take (head_len bs) bs)"

definition frame_len :: "bytes \<Rightarrow> nat" where
  "frame_len bs = max 8 (head_len bs + unat (announced bs))"

definition framed :: "bytes \<Rightarrow> bool" where
  "framed bs \<longleftrightarrow> bs \<noteq> [] \<and> hd bs \<le> 7 \<and> length bs = frame_len bs"

definition request_of :: "bytes \<Rightarrow> bytes" where
  "request_of bs = drop (head_len bs) bs"

text \<open>The part of a frame that a connection has received.\<close>

fun partial_in :: "ConnState \<Rightarrow> connFdStateMach \<Rightarrow> bytes \<Rightarrow> bool" where
  "partial_in CONN_READING x p \<longleftrightarrow> 8 \<le> length p \<and> length p \<le> frame_len p \<and> hd p \<le> 7
     \<and> reqlen x = announced p \<and> contents (xin x) = request_of p"
| "partial_in _ x p \<longleftrightarrow> p = []"

abbreviation "partial" where
  "partial x p \<equiv> partial_in (cstate x) x p"

lemma head_le: "hd p \<le> 7 \<Longrightarrow> 8 \<le> length p \<Longrightarrow> head_len p \<le> length p"
  by (simp add: word_le_nat_alt)

lemma head_append:
  assumes "hd p \<le> 7" "8 \<le> length p"
  shows "hd (p @ d) = hd p" "announced (p @ d) = announced p" "request_of (p @ d) = request_of p @ d"
    "frame_len (p @ d) = frame_len p"
proof -
  have "p \<noteq> []" using assms(2) by auto
  then show h: "hd (p @ d) = hd p" by simp
  show "announced (p @ d) = announced p" "request_of (p @ d) = request_of p @ d" "frame_len (p @ d) = frame_len p"
    using head_le [OF assms] unfolding frame_len_def announced_def request_of_def h by simp_all
qed

section \<open>One call\<close>

text \<open>
  A request and its response, as one step of the world and the manager: the response is empty when
  the handler reports an error.
\<close>

definition answers :: "('w, 'd, 'it) conn_env \<Rightarrow> 'w \<Rightarrow> 'd manager \<Rightarrow> bytes \<Rightarrow> bytes \<Rightarrow> 'w \<Rightarrow> 'd manager \<Rightarrow> bool" where
  "answers E w m req resp w' m' \<longleftrightarrow>
     (\<exists>s out err. sl_len s = 0 \<and> ReqHandler_handle (ce_server E) req s w m = Some (Inr (out, err, w', m'))
        \<and> resp = (case err of None \<Rightarrow> contents out | Some e \<Rightarrow> []))"

text \<open>
  What a call does when its socket behaves (\<open>good\<close>) and it reports no error, given the part \<open>p\<close> of a frame
  that was there: it serves no request and has more of the frame, or it has the rest of the frame and serves its request.
\<close>

definition quiet_call :: "bool \<Rightarrow> bytes \<Rightarrow> ('w, 'd) call \<Rightarrow> ('w, 'd) call \<Rightarrow> bool" where
  "quiet_call good p c c' \<longleftrightarrow> cworld c' = cworld c \<and> cmgr c' = cmgr c \<and>
     (good \<and> cerr c' = [] \<longrightarrow> (\<exists>d. creceived c' = creceived c @ d \<and> partial (cx c') (p @ d))
        \<and> csent c' @ unsent (cx c') = csent c @ unsent (cx c))"

definition serving_call :: "('w, 'd, 'it) conn_env \<Rightarrow> bool \<Rightarrow> bytes \<Rightarrow> ('w, 'd) call \<Rightarrow> ('w, 'd) call \<Rightarrow> bool" where
  "serving_call E good p c c' \<longleftrightarrow> (\<exists>req resp.
     answers E (cworld c) (cmgr c) req resp (cworld c') (cmgr c') \<and>
     (good \<and> cerr c' = [] \<longrightarrow>
        (\<exists>d. creceived c' = creceived c @ d \<and> framed (p @ d) \<and> req = request_of (p @ d)) \<and> partial (cx c') []
        \<and> csent c' @ unsent (cx c') = csent c @ unsent (cx c) @ resp))"

lemma unsent_reinit [simp]: "unsent (reinit x) = []"
  by (simp add: unsent_def contents_def reinit_def)

lemma unsent_fresh: "sl_len (xout x) = 0 \<Longrightarrow> unsent x = []"
  by (simp add: unsent_def contents_def)

lemma cstate_reinit [simp]: "cstate (reinit x) = CONN_READY"
  by (simp add: reinit_def)

lemma write_call:
  assumes "slice_ok (xout (cx c))" "cursor (cx c) \<le> sl_len (xout (cx c))" "cstate (cx c) = CONN_WRITING"
    and "doWriteFd E c = Some (Inr c')"
  shows "cworld c' = cworld c" "cmgr c' = cmgr c" "creceived c' = creceived c" "partial (cx c') []"
    "cerr c' = [] \<Longrightarrow> csent c' @ unsent (cx c') = csent c @ unsent (cx c)"
proof -
  note w = assms(4) [unfolded doWriteFd_def]
  have "cworld c' = cworld c \<and> cmgr c' = cmgr c \<and> creceived c' = creceived c \<and> partial (cx c') [] \<and>
    (cerr c' = [] \<longrightarrow> csent c' @ unsent (cx c') = csent c @ unsent (cx c))"
  proof (cases rule: write_outcomes [OF assms(1,2) w refl, case_names sent blocked failed])
    case (blocked e ws k)
    then show ?thesis
      using sent_to_again(2) [OF assms(1,2), of k e ws] assms(3) by (simp add: sent_to_def)
  qed (auto simp: sent_to_def call_error_def)
  then show "cworld c' = cworld c" "cmgr c' = cmgr c" "creceived c' = creceived c" "partial (cx c') []"
    "cerr c' = [] \<Longrightarrow> csent c' @ unsent (cx c') = csent c @ unsent (cx c)" by simp_all
qed

lemma process_call:
  assumes "conn_laws E" "slice_ok (xout (cx c))" "sl_len (xout (cx c)) = 0" "cursor (cx c) = 0"
    and "doProcessFd E c = Some (Inr c')"
  obtains req resp where "answers E (cworld c) (cmgr c) req resp (cworld c') (cmgr c')"
    "req = contents (xin (cx c))" "creceived c' = creceived c" "partial (cx c') []"
    "cerr c' = [] \<Longrightarrow> csent c' @ unsent (cx c') = csent c @ resp"
proof -
  obtain inp where inp: "slice_range (xin (cx c)) 0 (unat (sl_len (xin (cx c)))) = Inr inp"
    using assms(5) by (auto simp: doProcessFd_def split: sum.splits)
  then have req: "inp = contents (xin (cx c))"
    by (simp add: slice_range_def contents_def split: if_splits)
  obtain out err w m where h: "ReqHandler_handle (ce_server E) inp (xout (cx c)) (cworld c) (cmgr c) = Some (Inr (out, err, w, m))"
    using assms(5) inp by (fastforce simp: doProcessFd_def run_bind_Inr_iff)
  have ans: "answers E (cworld c) (cmgr c) inp (case err of None \<Rightarrow> contents out | Some e \<Rightarrow> []) w m"
    using h assms(3) by (auto simp: answers_def)
  let ?c = "set_x (\<lambda>x. x\<lparr>xout := out, cstate := CONN_WRITING\<rparr>) (c\<lparr>cworld := w, cmgr := m\<rparr>)"
  show ?thesis
  proof (cases err)
    case (Some e)
    then have "c' = set_x reinit (?c\<lparr>cerr := e\<rparr>)"
      using assms(5) inp h by (simp add: doProcessFd_def reinit_def)
    then show ?thesis using that [OF _ req] ans Some by simp
  next
    case None
    have out: "slice_ok (xout (cx ?c))" "cursor (cx ?c) \<le> sl_len (xout (cx ?c))" "cstate (cx ?c) = CONN_WRITING"
      using handle_out [OF h] assms(2,4) conn_lawsD(2) [OF assms(1)] by (fastforce simp: encode_laws_def)+
    have "doWriteFd E ?c = Some (Inr c')"
      using assms(5) inp h None by (simp add: doProcessFd_def)
    note w = write_call [OF out this]
    have "unsent (cx ?c) = contents out" using assms(4) by (simp add: unsent_def)
    then show ?thesis using that [OF _ req] ans None w by simp
  qed
qed

text \<open>Reading on a socket whose reads do not fail.\<close>

lemma read_good_step:
  assumes "expand_laws E" "slice_ok (xin (cx c))" "sl_len (xin (cx c)) < reqlen (cx c)" "ds \<noteq> []"
  obtains s where "slice_ok s" "contents s = contents (xin (cx c)) @ take (unat (read_count c)) ds" "sl_len s \<le> reqlen (cx c)"
    "read_loop_fd E (Got ds # rs) c =
      read_loop_fd E rs (set_x (set_in s) (c\<lparr>creads := rs, creceived := creceived c @ take (unat (read_count c)) ds\<rparr>))"
proof -
  let ?ds = "take (unat (read_count c)) ds"
  have ne: "?ds \<noteq> []" "length ?ds \<le> unat (read_count c)" using read_count_pos [OF assms(3)] assms(4) by auto
  obtain s where s: "read_loop_fd E (Got ds # rs) c = read_loop_fd E rs (set_x (set_in s) (c\<lparr>creads := rs, creceived := creceived c @ ?ds\<rparr>))"
    "slice_ok s" "contents s = contents (xin (cx c)) @ ?ds" "unat (sl_len s) = unat (sl_len (xin (cx c))) + length ?ds"
    using read_got [OF assms(1,2,3) ne, of rs] read_got_take [OF assms(3), of E ds rs] by metis
  have "sl_len s \<le> reqlen (cx c)"
    using s(4) ne(2) assms(3) by (auto simp: word_le_nat_alt word_less_nat_alt read_count_def Let_def unat_sub split: if_splits)
  then show ?thesis using that s by blast
qed

lemma read_good:
  assumes "expand_laws E" "slice_ok (xin (cx c))" "\<forall>r \<in> set rs. \<not> failed r"
    and "read_loop_fd E rs c = Some r" "creads c = rs"
  obtains s rs' d where "r = Inr (\<not> sl_len s < reqlen (cx c), set_x (set_in s) (c\<lparr>creads := rs', creceived := creceived c @ d\<rparr>))"
    "slice_ok s" "contents s = contents (xin (cx c)) @ d" "d = [] \<or> sl_len s \<le> reqlen (cx c)"
  using assms
proof (induction rs arbitrary: c thesis)
  case Nil
  then have "r = Inr (True, c)" "set_in (xin (cx c)) (cx c) = cx c" "\<not> sl_len (xin (cx c)) < reqlen (cx c)"
    by (simp_all add: read_loop_fd.simps [of E "[]" c] set_in_def split: if_splits)
  then show ?case using Nil.prems(1) [of "xin (cx c)" "[]" "creads c"] Nil.prems(3) by simp
next
  case (Cons x rs)
  obtain ds where x: "x = Got ds" using Cons.prems(4) by (cases x) auto
  show ?case
  proof (cases "sl_len (xin (cx c)) < reqlen (cx c)")
    case False
    then have "r = Inr (True, c)" "set_in (xin (cx c)) (cx c) = cx c"
      using Cons.prems(5) by (simp_all add: read_loop_fd.simps [of E "x # rs" c] set_in_def)
    then show ?thesis using Cons.prems(1) [of "xin (cx c)" "[]" "creads c"] Cons.prems(3) False by simp
  next
    case True
    let ?ds = "take (unat (read_count c)) ds"
    show ?thesis
    proof (cases "ds = []")
      case empty: True
      let ?s = "expand E (read_count c) (xin (cx c))"
      note e = expand_ok [OF Cons.prems(2,3), of "read_count c"]
      have "r = Inr (False, set_x (set_in ?s) (c\<lparr>creads := rs, creceived := creceived c\<rparr>))"
        using Cons.prems(5) True e(1,3) x empty slice_ok_set [OF Cons.prems(3)]
        by (simp add: read_loop_fd.simps [of E "Got [] # rs" c] set_in_def write_at_def)
      then show ?thesis using Cons.prems(1) [of ?s "[]" rs] e True by simp
    next
      case False
      then obtain s where s: "slice_ok s" "contents s = contents (xin (cx c)) @ ?ds" and le: "sl_len s \<le> reqlen (cx c)"
        and step: "read_loop_fd E (x # rs) c = read_loop_fd E rs (set_x (set_in s) (c\<lparr>creads := rs, creceived := creceived c @ ?ds\<rparr>))"
        using read_good_step [OF Cons.prems(2,3) True] x by metis
      let ?c = "set_x (set_in s) (c\<lparr>creads := rs, creceived := creceived c @ ?ds\<rparr>)"
      obtain s' rs' d where t: "r = Inr (\<not> sl_len s' < reqlen (cx ?c), set_x (set_in s') (?c\<lparr>creads := rs', creceived := creceived ?c @ d\<rparr>))"
        "slice_ok s'" "contents s' = contents (xin (cx ?c)) @ d" "d = [] \<or> sl_len s' \<le> reqlen (cx ?c)"
        by (rule Cons.IH [of ?c]) (use Cons.prems s step in \<open>auto simp: set_in_def\<close>)
      have "sl_len s' \<le> reqlen (cx c)"
      proof (cases "d = []")
        case True
        then have "sl_len s' = sl_len s"
          using t(2,3) s(1) length_contents [of s'] length_contents [of s] by (simp add: set_in_def word_unat_eq_iff)
        then show ?thesis using le by simp
      qed (use t(4) in \<open>simp add: set_in_def\<close>)
      then show ?thesis
        using Cons.prems(1) [of s' "?ds @ d" rs'] t(1-3) s(2) by (simp add: set_in_def)
    qed
  qed
qed

text \<open>
  The reading loop of a connection that has the part \<open>p\<close> of a frame: after good reads it has as much more of
  the frame as was received, and it is complete when the frame is.
\<close>

lemma read_outcome:
  assumes "expand_laws E" "slice_ok (xin (cx c))" "cstate (cx c) = CONN_READING" "read_loop_fd E (creads c) c = Some r"
  obtains b s e rs d where "r = Inr (b, set_x (set_in s) (c\<lparr>creads := rs, cerrno := e, creceived := d\<rparr>))"
    "(\<forall>r \<in> set (creads c). \<not> failed r) \<and> partial (cx c) p \<Longrightarrow> \<exists>d'. d = creceived c @ d'
       \<and> contents s = request_of (p @ d') \<and> (if b then framed (p @ d') else length (p @ d') \<le> frame_len p)"
proof -
  obtain b s e rs d where any: "r = Inr (b, set_x (set_in s) (c\<lparr>creads := rs, cerrno := e, creceived := d\<rparr>))"
    by (rule read_loop_ok [OF assms(1) conjI [OF disjI1 [OF assms(2)] slice_ok_set [OF assms(2)]] assms(4) refl]) blast+
  have "\<exists>d'. d = creceived c @ d' \<and> contents s = request_of (p @ d')
      \<and> (if b then framed (p @ d') else length (p @ d') \<le> frame_len p)"
    if good: "(\<forall>r \<in> set (creads c). \<not> failed r) \<and> partial (cx c) p"
  proof -
    obtain s' rs' d' where g: "r = Inr (\<not> sl_len s' < reqlen (cx c), set_x (set_in s') (c\<lparr>creads := rs', creceived := creceived c @ d'\<rparr>))"
      "slice_ok s'" "contents s' = contents (xin (cx c)) @ d'" "d' = [] \<or> sl_len s' \<le> reqlen (cx c)"
      by (rule read_good [OF assms(1,2) _ assms(4) refl]) (use good in auto)
    then have eq: "s' = s" "creceived c @ d' = d" "b \<longleftrightarrow> \<not> sl_len s' < reqlen (cx c)"
      using any by (auto simp: set_in_def dest: arg_cong [where f = "\<lambda>c. xin (cx c)"] arg_cong [where f = creceived])
    have h: "hd p \<le> 7" "8 \<le> length p" "length p \<le> frame_len p" "reqlen (cx c) = announced p" "contents (xin (cx c)) = request_of p"
      using good assms(3) by simp_all
    have "unat (sl_len s) = length (request_of p @ d')"
      using length_contents [OF g(2)] g(3) eq(1) h(5) by simp
    then have len: "length (p @ d') = head_len p + unat (sl_len s)"
      using head_le [OF h(1,2)] by (simp add: request_of_def)
    have "if b then framed (p @ d') else length (p @ d') \<le> frame_len p"
      using len g(4) eq(1,3) h(2-4) head_append [OF h(1,2), of d'] h(1)
      by (auto simp: framed_def frame_len_def word_less_nat_alt word_le_nat_alt)
    then show ?thesis using eq(1,2) g(3) h(5) head_append(3) [OF h(1,2)] by auto
  qed
  then show ?thesis using that any by blast
qed

lemma read_call:
  assumes "conn_laws E" "slice_ok (xin (cx c))" "slice_ok (xout (cx c))"
    and "sl_len (xout (cx c)) = 0" "cursor (cx c) = 0" "cstate (cx c) = CONN_READING"
    and "doReadFd E c = Some (Inr c')"
  shows "quiet_call ((\<forall>r \<in> set (creads c). \<not> failed r) \<and> partial (cx c) p) p c c'
    \<or> serving_call E ((\<forall>r \<in> set (creads c). \<not> failed r) \<and> partial (cx c) p) p c c'"
    (is "quiet_call ?good p c c' \<or> _")
proof -
  let ?k = "\<lambda>(complete, c).
       if complete then doProcessFd E (set_x (\<lambda>x. x\<lparr>cstate := CONN_PROCESSING\<rparr>) c) else Some (Inr c)"
  obtain r where r: "read_loop_fd E (creads c) c = Some r" "run_bind (Some r) ?k = Some (Inr c')"
    using assms(7) by (cases "read_loop_fd E (creads c) c") (auto simp: doReadFd_def)
  obtain b s e rs d where any: "r = Inr (b, set_x (set_in s) (c\<lparr>creads := rs, cerrno := e, creceived := d\<rparr>))"
    and good: "?good \<Longrightarrow> \<exists>d'. d = creceived c @ d'
       \<and> contents s = request_of (p @ d') \<and> (if b then framed (p @ d') else length (p @ d') \<le> frame_len p)"
    by (rule read_outcome [OF conn_lawsD(1) [OF assms(1)] assms(2,6) r(1)]) blast
  let ?c = "set_x (set_in s) (c\<lparr>creads := rs, cerrno := e, creceived := d\<rparr>)"
  show ?thesis
  proof (cases b)
    case False
    then have c': "c' = ?c" using r(2) any by simp
    have "\<exists>d'. creceived c' = creceived c @ d' \<and> partial (cx c') (p @ d')" if ?good
      using good [OF that] that False assms(6) c' by (auto simp: set_in_def head_append)
    then show ?thesis
      using c' by (simp add: quiet_call_def unsent_def set_in_def)
  next
    case True
    let ?p = "set_x (\<lambda>x. x\<lparr>cstate := CONN_PROCESSING\<rparr>) ?c"
    have "doProcessFd E ?p = Some (Inr c')" using r(2) any True by simp
    then obtain req resp where a: "answers E (cworld ?p) (cmgr ?p) req resp (cworld c') (cmgr c')"
      "req = contents (xin (cx ?p))" "creceived c' = creceived ?p" "partial (cx c') []"
      "cerr c' = [] \<Longrightarrow> csent c' @ unsent (cx c') = csent ?p @ resp"
      by (rule process_call [OF assms(1), of ?p, rotated 3]) (use assms(3-5) in \<open>auto simp: set_in_def\<close>)
    have "\<exists>d'. creceived c' = creceived c @ d' \<and> framed (p @ d') \<and> req = request_of (p @ d')" if ?good
      using good [OF that] True a(2,3) by (auto simp: set_in_def)
    then show ?thesis
      using a(1,4,5) unsent_fresh [OF assms(4)] by (auto simp: serving_call_def)
  qed
qed

text \<open>A call for a fresh connection: its first eight bytes are the start of a frame.\<close>

lemma announced_header:
  assumes "length hdr = 8" "hdr ! 0 \<le> 7"
  shows "be_value (length_array hdr (Suc (unat (hdr ! 0)))) = announced hdr"
proof -
  have h: "hd hdr = hdr ! 0" using assms(1) by (intro hd_conv_nth) auto
  have "length_array hdr (Suc (unat (hdr ! 0))) = replicate (7 - unat (hdr ! 0)) 0 @ take (Suc (unat (hdr ! 0))) hdr"
    using assms by (cases "unat (hdr ! 0) = 7") (auto simp: length_array_def word_le_nat_alt)
  then show ?thesis by (simp add: announced_def h be_value_zeros)
qed

lemma call_after:
  assumes "cworld d = cworld c" "cmgr d = cmgr c" "csent d = csent c" "unsent (cx d) = unsent (cx c)"
    and "creceived d = creceived c @ h" "good \<Longrightarrow> good'"
  shows "quiet_call good' h d c' \<Longrightarrow> quiet_call good [] c c'"
    "serving_call E good' h d c' \<Longrightarrow> serving_call E good [] c c'"
  using assms unfolding quiet_call_def serving_call_def by fastforce+

lemma start_call:
  assumes "conn_laws E" "be_read (sv_codec64 (ce_server E)) = be_value" "sl_len (xout (cx c)) = 0"
    and "sl_set (xin (cx c))" "sl_set (xout (cx c))" "doStartFd E c = Some (Inr c')"
  shows "quiet_call (header_whole (creads c)) [] c c' \<or> serving_call E (header_whole (creads c)) [] c c'"
proof -
  let ?c = "set_x reinit c"
  have s: "start_loop_fd E (creads c) ?c = Some (Inr c')"
    using assms(6) by (simp add: doStartFd_def)
  have fresh: "unsent (cx c) = []" by (rule unsent_fresh [OF assms(3)])
  show ?thesis
  proof (cases rule: start_loop_cases [OF conn_lawsD(3) [OF assms(1)] s, case_names quiet refused request])
    case (request ds e rs)
    let ?hdr = "ds @ drop (length ds) (ce_junk E)"
    let ?d = "?c\<lparr>creads := rs, cerrno := e, creceived := creceived ?c @ ds\<rparr>"
    have hdr: "length ?hdr = 8" using request(2) conn_lawsD(3) [OF assms(1)] by simp
    have d: "slice_ok (xin (cx ?d))" "sl_len (xin (cx ?d)) = 0"
      using assms(4) by (simp_all add: reinit_def slice_ok_def)
    show ?thesis
    proof (cases rule: start_request_cases [where c = ?d, OF conn_lawsD(1) [OF assms(1)] d hdr, case_names bad good])
      case bad
      then have "c' = ?d\<lparr>cerr := take 127 (bad_length_msg (?hdr ! 0))\<rparr>" using request(4) by simp
      then show ?thesis by (simp add: quiet_call_def)
    next
      case (good s)
      let ?h = "after_header E ?hdr s ?d"
      have r: "doReadFd E ?h = Some (Inr c')" using request(4) good(4) by simp
      have h: "slice_ok (xin (cx ?h))" "slice_ok (xout (cx ?h))" "sl_len (xout (cx ?h)) = 0" "cursor (cx ?h) = 0"
        "cstate (cx ?h) = CONN_READING" "unsent (cx ?h) = []"
        using good(2) assms(5) by (simp_all add: after_header_def reinit_def slice_ok_def unsent_def contents_def)
      have g: "(\<forall>r \<in> set (creads ?h). \<not> failed r) \<and> partial (cx ?h) ds" if w: "header_whole (creads c)"
      proof -
        have ds: "length ds = 8" "?hdr = ds" "\<forall>r \<in> set rs. \<not> failed r"
          using request(3) [OF w] conn_lawsD(3) [OF assms(1)] by simp_all
        then have "hd ds = ds ! 0" by (intro hd_conv_nth) auto
        then show ?thesis
          using good(1,3) ds announced_header [of ds]
          by (simp add: after_header_def assms(2) request_of_def frame_len_def)
      qed
      have "cworld ?h = cworld c" "cmgr ?h = cmgr c" "csent ?h = csent c" "unsent (cx ?h) = unsent (cx c)"
        "creceived ?h = creceived c @ ds"
        using h(6) fresh by (simp_all add: after_header_def)
      from call_after [OF this g] read_call [OF assms(1) h(1-5) r, of ds] show ?thesis by blast
    qed
  qed (use fresh in \<open>simp_all add: quiet_call_def call_error_def\<close>)
qed

text \<open>What a socket has to give for its connection to be in step with its client.\<close>

fun whole_reads :: "ConnState \<Rightarrow> read_result list \<Rightarrow> bool" where
  "whole_reads CONN_READY rs \<longleftrightarrow> header_whole rs"
| "whole_reads CONN_READING rs \<longleftrightarrow> (\<forall>r \<in> set rs. \<not> failed r)"
| "whole_reads _ rs \<longleftrightarrow> True"

lemma state_call:
  assumes "conn_laws E" "be_read (sv_codec64 (ce_server E)) = be_value" "conn_kept (ce_init E) (cx c)"
    and "handle_state E c = Some (Inr c')" "good \<longleftrightarrow> whole_reads (cstate (cx c)) (creads c) \<and> partial (cx c) p"
  shows "quiet_call good p c c' \<or> serving_call E good p c c'"
proof (cases "ce_init E")
  case False
  then have x: "cx c = new_conn False (xfd (cx c))" using assms(3) by (simp add: conn_kept_def)
  then have "cstate (cx c) = CONN_READY" by (metis new_conn_sel(1))
  moreover have "idle_call c c'" using unset_call [OF conn_lawsD(3) [OF assms(1)] x assms(4)] by simp
  ultimately have "quiet_call good p c c'"
    using assms(5) by (auto simp: idle_call_def quiet_call_def)
  then show ?thesis ..
next
  case True
  then have ok: "conn_ok (cx c)" using assms(3) by (simp add: conn_kept_def)
  show ?thesis
  proof (cases "cstate (cx c)")
    case CONN_READY
    have "quiet_call (header_whole (creads c)) [] c c' \<or> serving_call E (header_whole (creads c)) [] c c'"
      by (rule start_call [OF assms(1,2)]) (use assms(4) ok conn_okD [OF ok] CONN_READY in \<open>simp_all add: handle_state_def conn_ok_def\<close>)
    then show ?thesis
      using assms(5) CONN_READY by (cases "p = []") (auto simp: quiet_call_def serving_call_def)
  next
    case CONN_READING
    then show ?thesis
      using read_call [OF assms(1), of c c' p] ok assms(4,5) by (simp add: handle_state_def conn_ok_def)
  next
    case CONN_WRITING
    have "quiet_call good p c c'"
      using write_call [of c E c'] ok assms(4,5) CONN_WRITING by (auto simp: quiet_call_def handle_state_def conn_ok_def order_less_imp_le)
    then show ?thesis ..
  qed (use ok in \<open>simp add: conn_ok_def\<close>)
qed

section \<open>The service over time\<close>

text \<open>
  What the clients see: the bytes sent to and received from the handler on each descriptor since it was
  last closed, how often it was closed, and whether its socket has behaved and no call for it
  has reported an error.
\<close>

record history =
  h_in :: bytes
  h_out :: bytes
  h_closed :: nat
  h_intact :: bool

definition fresh_history :: "nat \<Rightarrow> history" where
  "fresh_history n = \<lparr>h_in = [], h_out = [], h_closed = n, h_intact = True\<rparr>"

definition conn_at :: "bool \<Rightarrow> conns \<Rightarrow> int \<Rightarrow> connFdStateMach" where
  "conn_at init cs fd = (case cs fd of None \<Rightarrow> new_conn init fd | Some x \<Rightarrow> x)"

inductive service_step ::
    "('w, 'd, 'it) conn_env \<Rightarrow> ('w, 'd) handler \<times> (int \<Rightarrow> history) \<Rightarrow> ('w, 'd) handler \<times> (int \<Rightarrow> history) \<Rightarrow> bool"
  for E where
  call: "handleFd E fd cs (new_call w m e rs ws) = Some (Inr (cs', c)) \<Longrightarrow>
    H' = H(fd := (H fd)\<lparr>h_in := h_in (H fd) @ creceived c, h_out := h_out (H fd) @ csent c,
      h_intact := h_intact (H fd) \<and> cerr c = [] \<and> whole_reads (cstate (conn_at (ce_init E) cs fd)) rs\<rparr>) \<Longrightarrow>
    service_step E ((cs, w, m, e), H) ((cs', cworld c, cmgr c, cerrno c), H')"
| close: "service_step E ((cs, w, m, e), H) ((unregisterFd fd cs, w, m, e), H(fd := fresh_history (Suc (h_closed (H fd)))))"
| others: "service_step E ((cs, w, m, e), H) ((cs, w, m, e'), H)"

inductive_cases service_stepE: "service_step E s s'"

lemma service_handler: "service_step E s s' \<Longrightarrow> handler_step E (fst s) (fst s')"
  by (erule service_step.cases) (auto intro: handler_step.intros)

lemma service_handlers: "(service_step E)\<^sup>*\<^sup>* s s' \<Longrightarrow> (handler_step E)\<^sup>*\<^sup>* (fst s) (fst s')"
  by (induction rule: rtranclp_induct) (auto intro: rtranclp.rtrancl_into_rtrancl service_handler)

text \<open>
  The specification: requests take effect one after the other.  An entry of the log has the connection (its
  descriptor, and how often that was closed before), the request and the response.
\<close>

type_synonym log = "((int \<times> nat) \<times> bytes \<times> bytes) list"

fun served :: "('w, 'd, 'it) conn_env \<Rightarrow> 'w \<Rightarrow> 'd manager \<Rightarrow> log \<Rightarrow> 'w \<Rightarrow> 'd manager \<Rightarrow> bool" where
  "served E w m [] w' m' \<longleftrightarrow> w' = w \<and> m' = m"
| "served E w m ((t, req, resp) # l) w' m' \<longleftrightarrow> (\<exists>w1 m1. answers E w m req resp w1 m1 \<and> served E w1 m1 l w' m')"

lemma served_snoc:
  "served E w m l w1 m1 \<Longrightarrow> answers E w1 m1 req resp w' m' \<Longrightarrow> served E w m (l @ [(t, req, resp)]) w' m'"
  by (induction l arbitrary: w m) (auto, blast)

definition exchanges :: "int \<times> nat \<Rightarrow> log \<Rightarrow> (bytes \<times> bytes) list" where
  "exchanges t l = map snd (filter (\<lambda>e. fst e = t) l)"

lemma exchanges_snoc [simp]:
  "exchanges t (l @ [(t', r)]) = (if t' = t then exchanges t l @ [r] else exchanges t l)"
  by (simp add: exchanges_def)

text \<open>A connection in step: its input is the frames of its requests, its output their responses.\<close>

definition in_step :: "(bytes \<times> bytes) list \<Rightarrow> connFdStateMach \<Rightarrow> history \<Rightarrow> bool" where
  "in_step es x h \<longleftrightarrow> (\<exists>bss p. h_in h = concat bss @ p \<and> partial x p
     \<and> list_all framed bss \<and> map request_of bss = map fst es
     \<and> h_out h @ unsent x = concat (map snd es))"

lemma in_step_fresh [simp]: "in_step [] (new_conn init fd) (fresh_history n)"
  by (auto simp: in_step_def fresh_history_def unsent_def contents_def new_conn_def reinit_def intro: exI [of _ "[]"])

lemma h_closed_fresh [simp]: "h_closed (fresh_history n) = n"
  by (simp add: fresh_history_def)

lemma conn_at_unregister: "conn_at init (unregisterFd fd cs) = (conn_at init cs)(fd := new_conn init fd)"
  by (simp add: conn_at_def unregisterFd_def fun_eq_iff)

lemma handleFd_at:
  assumes "handleFd E fd cs c = Some (Inr (cs', c'))"
  shows "handle_state E (c\<lparr>cx := conn_at (ce_init E) cs fd\<rparr>) = Some (Inr c')" "conn_at (ce_init E) cs' = (conn_at (ce_init E) cs)(fd := cx c')"
proof -
  have "handle_state E (c\<lparr>cx := conn_at (ce_init E) cs fd\<rparr>) = Some (Inr c') \<and> cs' = (snd (stateFor (ce_init E) fd cs))(fd \<mapsto> cx c')"
    using assms by (auto simp: handleFd_def stateFor_def conn_at_def run_bind_Inr_iff split: option.splits)
  then show "handle_state E (c\<lparr>cx := conn_at (ce_init E) cs fd\<rparr>) = Some (Inr c')" "conn_at (ce_init E) cs' = (conn_at (ce_init E) cs)(fd := cx c')"
    by (auto simp: conn_at_def stateFor_def fun_eq_iff split: option.split)
qed

text \<open>One call for a connection, whether its socket behaves or not.\<close>

lemma in_step_call:
  assumes "conn_laws E" "be_read (sv_codec64 (ce_server E)) = be_value" "conn_kept (ce_init E) (cx c)"
    and "handle_state E c = Some (Inr c')" "creceived c = []" "csent c = []"
    and "h_intact h \<Longrightarrow> in_step es (cx c) h"
    and "h' = h\<lparr>h_in := h_in h @ creceived c', h_out := h_out h @ csent c',
      h_intact := h_intact h \<and> cerr c' = [] \<and> whole_reads (cstate (cx c)) (creads c)\<rparr>"
  shows "cworld c' = cworld c \<and> cmgr c' = cmgr c \<and> (h_intact h' \<longrightarrow> in_step es (cx c') h')
    \<or> (\<exists>req resp. answers E (cworld c) (cmgr c) req resp (cworld c') (cmgr c')
        \<and> (h_intact h' \<longrightarrow> in_step (es @ [(req, resp)]) (cx c') h'))"
proof (cases "h_intact h'")
  case False
  then show ?thesis
    using state_call [OF assms(1-4) refl, of "[]"] by (auto simp: quiet_call_def serving_call_def)
next
  case True
  then obtain bss p where h: "h_in h = concat bss @ p" "partial (cx c) p" "list_all framed bss"
    "map request_of bss = map fst es" "h_out h @ unsent (cx c) = concat (map snd es)"
    using assms(7,8) by (auto simp: in_step_def)
  have "quiet_call True p c c' \<or> serving_call E True p c c'"
    by (rule state_call [OF assms(1-4)]) (use True assms(8) h(2) in simp)
  then show ?thesis
  proof
    assume "quiet_call True p c c'"
    then obtain d where d: "cworld c' = cworld c" "cmgr c' = cmgr c" "creceived c' = d" "partial (cx c') (p @ d)"
      "csent c' @ unsent (cx c') = unsent (cx c)"
      using True assms(5,6,8) by (auto simp: quiet_call_def)
    have "in_step es (cx c') h'"
      unfolding in_step_def by (rule exI [of _ bss], rule exI [of _ "p @ d"]) (use h d assms(8) in simp)
    then show ?thesis using d(1,2) by simp
  next
    assume "serving_call E True p c c'"
    then obtain req resp d where s: "answers E (cworld c) (cmgr c) req resp (cworld c') (cmgr c')"
      "creceived c' = d" "framed (p @ d)" "req = request_of (p @ d)" "partial (cx c') []"
      "csent c' @ unsent (cx c') = unsent (cx c) @ resp"
      using True assms(5,6,8) by (auto simp: serving_call_def)
    have "h_out h' @ unsent (cx c') = concat (map snd es) @ resp"
      using s(6) assms(8) by (simp flip: h(5))
    then have "in_step (es @ [(req, resp)]) (cx c') h'"
      unfolding in_step_def by (intro exI [of _ "bss @ [p @ d]"] exI [of _ "[]"]) (use h s assms(8) in simp)
    then show ?thesis using s(1) by blast
  qed
qed

text \<open>What holds of the service: the log so far, and every connection that is intact is in step with it.\<close>

definition serviced ::
    "('w, 'd, 'it) conn_env \<Rightarrow> 'w \<Rightarrow> 'd manager \<Rightarrow> log \<Rightarrow> ('w, 'd) handler \<times> (int \<Rightarrow> history) \<Rightarrow> bool" where
  "serviced E w0 m0 l = (\<lambda>((cs, w, m, e), H).
     served E w0 m0 l w m \<and> (\<forall>en \<in> set l. snd (fst en) \<le> h_closed (H (fst (fst en))))
     \<and> (\<forall>fd. h_intact (H fd) \<longrightarrow> in_step (exchanges (fd, h_closed (H fd)) l) (conn_at (ce_init E) cs fd) (H fd)))"

lemma exchanges_none: "(\<And>en. en \<in> set l \<Longrightarrow> fst en \<noteq> t) \<Longrightarrow> exchanges t l = []"
  by (simp add: exchanges_def)

lemma serviced_call:
  assumes "conn_laws E" "be_read (sv_codec64 (ce_server E)) = be_value" "conns_ok (ce_init E) cs"
    and "serviced E w0 m0 l ((cs, w, m, e), H)"
    and "handleFd E fd cs (new_call w m e rs ws) = Some (Inr (cs', c))"
    and H': "H' fd = (H fd)\<lparr>h_in := h_in (H fd) @ creceived c, h_out := h_out (H fd) @ csent c,
      h_intact := h_intact (H fd) \<and> cerr c = [] \<and> whole_reads (cstate (conn_at (ce_init E) cs fd)) rs\<rparr>"
    "\<And>fd'. h_closed (H' fd') = h_closed (H fd')" "\<And>fd'. fd' \<noteq> fd \<Longrightarrow> H' fd' = H fd'"
  shows "\<exists>l'. serviced E w0 m0 l' ((cs', cworld c, cmgr c, cerrno c), H')"
proof -
  let ?x = "conn_at (ce_init E) cs fd"
  let ?c = "(new_call w m e rs ws)\<lparr>cx := ?x\<rparr>"
  let ?t = "(fd, h_closed (H fd))"
  note inv = assms(4) [unfolded serviced_def prod.case]
  have h: "handle_state E ?c = Some (Inr c)" "conn_at (ce_init E) cs' = (conn_at (ce_init E) cs)(fd := cx c)"
    using handleFd_at [OF assms(5)] by simp_all
  have ok: "conn_kept (ce_init E) (cx ?c)"
    using assms(3) by (auto simp: conns_ok_def conn_at_def split: option.split)
  have step: "h_intact (H fd) \<Longrightarrow> in_step (exchanges ?t l) (cx ?c) (H fd)" using inv by simp
  from in_step_call [OF assms(1,2) ok h(1) _ _ step, of "H' fd"] H'(1) consider
      (quiet) "cworld c = w" "cmgr c = m" "h_intact (H' fd) \<longrightarrow> in_step (exchanges ?t l) (cx c) (H' fd)"
    | (serving) req resp where "answers E w m req resp (cworld c) (cmgr c)"
        "h_intact (H' fd) \<longrightarrow> in_step (exchanges ?t l @ [(req, resp)]) (cx c) (H' fd)"
    by (auto simp: new_call_def)
  then show ?thesis
  proof cases
    case quiet
    have "serviced E w0 m0 l ((cs', cworld c, cmgr c, cerrno c), H')"
      using inv quiet h(2) H'(2,3) unfolding serviced_def prod.case by auto
    then show ?thesis by blast
  next
    case (serving req resp)
    have "serviced E w0 m0 (l @ [(?t, req, resp)]) ((cs', cworld c, cmgr c, cerrno c), H')"
      using inv serving h(2) H'(2,3) served_snoc [of E w0 m0 l w m, OF _ serving(1)]
      unfolding serviced_def prod.case by auto
    then show ?thesis by blast
  qed
qed

lemma serviced_step:
  assumes "conn_laws E" "be_read (sv_codec64 (ce_server E)) = be_value" "conns_ok (ce_init E) (fst (fst s))"
    and "serviced E w0 m0 l s" "service_step E s s'"
  shows "\<exists>l'. serviced E w0 m0 l' s'"
  using assms(5)
proof (cases rule: service_stepE [consumes 1, case_names call close others])
  case (call fd cs w m e rs ws cs' c H)
  then show ?thesis
    using serviced_call [OF assms(1,2), of cs w0 m0 l w m e H fd rs ws cs' c "snd s'"] assms(3,4) by simp
next
  case (close cs w m e H fd)
  note inv = assms(4) [unfolded close(1) serviced_def prod.case]
  have "exchanges (fd, Suc (h_closed (H fd))) l = []"
    using inv by (intro exchanges_none) force
  then have "serviced E w0 m0 l s'"
    using inv unfolding close(2) serviced_def prod.case
    by (auto simp: conn_at_unregister intro: le_SucI)
  then show ?thesis by blast
next
  case (others cs w m e H e1)
  then show ?thesis using assms(4) by (auto simp: serviced_def)
qed

lemma serviced_steps:
  assumes "conn_laws E" "be_read (sv_codec64 (ce_server E)) = be_value" "owned m"
    and "(service_step E)\<^sup>*\<^sup>* ((Map.empty, w, m, e), \<lambda>_. fresh_history 0) s"
  shows "\<exists>l. serviced E w m l s"
  using assms(4)
proof (induction rule: rtranclp_induct)
  case base
  have "serviced E w m [] ((Map.empty, w, m, e), \<lambda>_. fresh_history 0)"
    by (simp add: serviced_def conn_at_def exchanges_def)
  then show ?case by blast
next
  case (step s s')
  have "conns_ok (ce_init E) (fst (fst s))"
    using handler_steps_ok [OF assms(1) service_handlers [OF step(1)]] assms(3) by (simp add: conns_ok_def)
  then show ?case using serviced_step [OF assms(1,2)] step by blast
qed

section \<open>Properties\<close>

text \<open>
  C2. The connections of one handler, whose calls its thread makes one after the other (the order of the log is that of
  the calls; threads that interleave are the subject of C1, C8 and C9).  After any calls for any sockets, with any results
  of their system calls, there is a log of requests and responses that takes the world and the manager from where they were
  to where they are, one request at a time.  For every connection that has received each header, of eight bytes, in one read,
  that has had no failed read in a request and that has met no error, the bytes received are the frames of its requests in the
  log and the part of the next that is there, and the bytes sent, followed by those it still keeps, are its responses in the
  log, in the same order.  Nothing is said of other connections; where the slices of new connections are not set none
  gets beyond its first length byte (C13, C25), and this adds nothing.
\<close>

theorem requests_serialized:
  assumes "conn_laws E" "be_read (sv_codec64 (ce_server E)) = be_value" "owned m"
    and "(service_step E)\<^sup>*\<^sup>* ((Map.empty, w, m, e), \<lambda>_. fresh_history 0) ((cs, w', m', e'), H)"
  shows "\<exists>l. served E w m l w' m' \<and>
    (\<forall>fd. h_intact (H fd) \<longrightarrow> in_step (exchanges (fd, h_closed (H fd)) l) (conn_at (ce_init E) cs fd) (H fd))"
  using serviced_steps [OF assms] by (auto simp: serviced_def)

text \<open>A request of seven bytes arrives at socket 4, which takes two bytes of the response.\<close>

theorem requests_serialized_witness:
  "\<exists>cs c l. handleFd demo_conn 4 Map.empty (new_call [] (mem_manager True) EINTR
      [Got [0, 1, 2, 3, 4, 5, 6, 7]] [Wrote 2, WriteFail EAGAIN]) = Some (Inr (cs, c))
    \<and> unsent (cx c) = [3] \<and> served demo_conn [] (mem_manager True) l (cworld c) (cmgr c)
    \<and> in_step (exchanges (4, 0) l) (cx c)
        \<lparr>h_in = [0, 1, 2, 3, 4, 5, 6, 7], h_out = [1, 2], h_closed = 0, h_intact = True\<rparr>"
proof -
  let ?c = "new_call [] (mem_manager True) EINTR [Got [0, 1, 2, 3, 4, 5, 6, 7]] [Wrote 2, WriteFail EAGAIN]"
  have z: "be_value [0] = 0" by (simp add: be_value_def)
  have "\<exists>c. handle_state demo_conn (?c\<lparr>cx := new_conn True 4\<rparr>) = Some (Inr c)
      \<and> unsent (cx c) = [3] \<and> csent c = [1, 2] \<and> creceived c = [0, 1, 2, 3, 4, 5, 6, 7] \<and> cerr c = []"
    by (simp add: handle_state_def new_conn_def reinit_def doStartFd_def new_call_def
      start_request_def Let_def length_array_def write_at_def set_in_def expand_def
      doReadFd_def read_loop_fd.simps doProcessFd_def slice_range_def doWriteFd_def write_loop_fd.simps demo_handle)
      (simp add: demo_conn_def demo_response_def be64_def be_value_zeros z unsent_def contents_def min_def)
  then obtain c where c: "handleFd demo_conn 4 Map.empty ?c = Some (Inr ([4 \<mapsto> cx c], c))"
    "unsent (cx c) = [3]" "csent c = [1, 2]" "creceived c = [0, 1, 2, 3, 4, 5, 6, 7]" "cerr c = []"
    by (auto simp: handleFd_def stateFor_def)
  let ?H = "(\<lambda>_. fresh_history 0)(4 := \<lparr>h_in = [0, 1, 2, 3, 4, 5, 6, 7], h_out = [1, 2], h_closed = 0, h_intact = True\<rparr>)"
  have "service_step demo_conn ((Map.empty, [], mem_manager True, EINTR), \<lambda>_. fresh_history 0)
      (([4 \<mapsto> cx c], cworld c, cmgr c, cerrno c), ?H)"
    by (rule service_step.call [OF c(1)])
      (simp add: c fresh_history_def conn_at_def new_conn_def reinit_def)
  then have "(service_step demo_conn)\<^sup>*\<^sup>* ((Map.empty, [], mem_manager True, EINTR), \<lambda>_. fresh_history 0)
      (([4 \<mapsto> cx c], cworld c, cmgr c, cerrno c), ?H)"
    by (rule r_into_rtranclp)
  note run = requests_serialized [OF demo_conn_laws _ no_dbs_owned [OF no_dbs_mem] this]
  obtain l where "served demo_conn [] (mem_manager True) l (cworld c) (cmgr c)"
    "\<forall>fd. h_intact (?H fd) \<longrightarrow> in_step (exchanges (fd, h_closed (?H fd)) l) (conn_at True [4 \<mapsto> cx c] fd) (?H fd)"
    using run by (auto simp: demo_conn_def be64_def)
  then show ?thesis
    using c by (force simp: conn_at_def dest: spec [of _ 4])
qed

end
