(* ===== verification/Counters.thy ===== *)
theory Counters
  imports Service
begin

text \<open>
  Counters over the service: what the clients of a server see of a counter that only increments and decrements
  use, whatever connections they come from.
\<close>

section \<open>Running totals\<close>

text \<open>The values a counter takes, from its old one on; a change is its direction and its delta.\<close>

fun totals :: "u64 \<Rightarrow> (bool \<times> u64) list \<Rightarrow> u64 list" where
  "totals old [] = []"
| "totals old ((incr, delta) # cs) = (let v = next_count incr delta old in v # totals v cs)"

definition total_count :: "u64 \<Rightarrow> (bool \<times> u64) list \<Rightarrow> u64" where
  "total_count old cs = last (old # totals old cs)"

lemma total_simps [simp]: "total_count old [] = old" "total_count old ((incr, delta) # cs) = total_count (next_count incr delta old) cs"
  by (simp_all add: total_count_def Let_def)

definition change :: "bool \<times> u64 \<Rightarrow> int" where
  "change = (\<lambda>(incr, delta). (if incr then 1 else -1) * (int (unat delta) mod 2 ^ 16))"

lemma total_value: "int (unat (total_count old cs)) = (int (unat old) + sum_list (map change cs)) mod 2 ^ 64"
proof (induction cs arbitrary: old)
  case Nil
  then show ?case using uint_lt2p [of old] by simp
next
  case (Cons c cs)
  obtain incr delta where c: "c = (incr, delta)" by (cases c)
  have "int (unat (next_count incr delta old)) = (int (unat old) + change c) mod 2 ^ 64"
    using next_count_value [of incr delta old] by (simp add: change_def c)
  then show ?case
    using Cons.IH [of "next_count incr delta old"] by (simp add: c mod_add_left_eq add.assoc)
qed

section \<open>Requests on one counter\<close>

text \<open>A request to change a counter, with its id, and its answer.\<close>

definition asks :: "('w, 'd, 'it, 'o) server \<Rightarrow> bytes \<Rightarrow> u64 \<Rightarrow> codec_value \<times> bool \<times> u64 \<Rightarrow> bytes \<Rightarrow> bool" where
  "asks S key initVal = (\<lambda>(rid, incr, delta) req.
     sv_decode S req = (request rid CHR ''N'' [VBytes key, VBool incr, VPosInt delta, VPosInt initVal], None))"

definition says :: "('w, 'd, 'it, slice) server \<Rightarrow> codec_value \<Rightarrow> u64 \<Rightarrow> bytes \<Rightarrow> bool" where
  "says S rid v resp \<longleftrightarrow> (\<exists>s out err. sl_len s = 0 \<and> sv_encode S (VArray [rid, VNil, VPosInt v]) s = (out, err)
     \<and> resp = (case err of None \<Rightarrow> contents out | Some e \<Rightarrow> []))"

lemma answers_count:
  assumes "db_laws (sv_rocks (ce_server E)) cont snap pos" "puts_succeed (sv_rocks (ce_server E))"
    and "asks (ce_server E) key initVal (rid, incr, delta) req" "answers E w m req resp w1 m1"
    and "ndbForKey (sv_env (ce_server E)) key (w, m, []) = Inr (Some n, w, m, [])" "n < length (dbs m)"
    and "map_of (cont (dbs m ! n)) key = None \<or> (\<exists>t. map_of (cont (dbs m ! n)) key = Some t \<and> length t = 8)"
    and "old = (case map_of (cont (dbs m ! n)) key of
            Some t \<Rightarrow> be_read (sv_codec64 (ce_server E)) t | None \<Rightarrow> ucast (ucast initVal :: u16))"
  obtains d where "w1 = w" "m1 = m\<lparr>dbs := (dbs m)[n := d]\<rparr>" "says (ce_server E) rid (next_count incr delta old) resp"
    "map_of (cont d) = (map_of (cont (dbs m ! n)))(key \<mapsto> be_write (sv_codec64 (ce_server E)) (next_count incr delta old))"
proof -
  let ?S = "ce_server E"
  obtain s out err where a: "sl_len s = 0" "ReqHandler_handle ?S req s w m = Some (Inr (out, err, w1, m1))"
    "resp = (case err of None \<Rightarrow> contents out | Some e \<Rightarrow> [])"
    using assms(4) by (auto simp: answers_def)
  have dec: "sv_decode ?S req = (request rid CHR ''N'' [VBytes key, VBool incr, VPosInt delta, VPosInt initVal], None)"
    using assms(3) by (simp add: asks_def)
  obtain d where d: "ReqHandler_handle ?S req s w m =
      Some (Inr (respond ?S rid VNil (VPosInt (next_count incr delta old)) s w (m\<lparr>dbs := (dbs m)[n := d]\<rparr>)))"
    "map_of (cont d) = (map_of (cont (dbs m ! n)))(key \<mapsto> be_write (sv_codec64 ?S) (next_count incr delta old))"
    using incrdecr_answer [OF assms(1,2) dec assms(5-8)] by blast
  obtain out' err' where e: "sv_encode ?S (VArray [rid, VNil, VPosInt (next_count incr delta old)]) s = (out', err')"
    by (cases "sv_encode ?S (VArray [rid, VNil, VPosInt (next_count incr delta old)]) s")
  then have "out = out'" "err = err'" "w1 = w" "m1 = m\<lparr>dbs := (dbs m)[n := d]\<rparr>"
    using a(2) d(1) by (simp_all add: respond_def)
  then show ?thesis using that d(2) a(1,3) e by (auto simp: says_def)
qed

text \<open>A log of such requests: the database after it, and that of every answer.\<close>

definition counted :: "(bytes \<rightharpoonup> bytes) \<Rightarrow> codec64 \<Rightarrow> bytes \<Rightarrow> u64 \<Rightarrow> (bool \<times> u64) list \<Rightarrow> (bytes \<rightharpoonup> bytes)" where
  "counted f C key old cs = (if cs = [] then f else f(key \<mapsto> be_write C (total_count old cs)))"

lemma served_counts:
  assumes "db_laws (sv_rocks (ce_server E)) cont snap pos" "puts_succeed (sv_rocks (ce_server E))"
    and "codec64_laws (sv_codec64 (ce_server E))"
    and "list_all2 (\<lambda>c (t, req, resp). asks (ce_server E) key initVal c req) cs l" "served E w m l w' m'"
    and "ndbForKey (sv_env (ce_server E)) key (w, m, []) = Inr (Some n, w, m, [])" "n < length (dbs m)"
    and "map_of (cont (dbs m ! n)) key = None \<or> (\<exists>t. map_of (cont (dbs m ! n)) key = Some t \<and> length t = 8)"
    and "old = (case map_of (cont (dbs m ! n)) key of
            Some t \<Rightarrow> be_read (sv_codec64 (ce_server E)) t | None \<Rightarrow> ucast (ucast initVal :: u16))"
  shows "list_all2 (\<lambda>((rid, _), v) (t, req, resp). says (ce_server E) rid v resp) (zip cs (totals old (map snd cs))) l
    \<and> w' = w \<and> (\<exists>d. m' = m\<lparr>dbs := (dbs m)[n := d]\<rparr>
       \<and> map_of (cont d) = counted (map_of (cont (dbs m ! n))) (sv_codec64 (ce_server E)) key old (map snd cs))"
  using assms(4-)
proof (induction cs l arbitrary: w m old rule: list_all2_induct)
  case Nil
  then show ?case by (auto simp: counted_def intro!: exI [of _ "dbs m ! n"])
next
  case (Cons c cs x l)
  let ?C = "sv_codec64 (ce_server E)"
  obtain rid incr delta where c: "c = (rid, incr, delta)" by (cases c)
  obtain t req resp where x: "x = (t, req, resp)" by (cases x)
  obtain w1 m1 where s: "answers E w m req resp w1 m1" "served E w1 m1 l w' m'"
    using Cons.prems(1) by (auto simp: x)
  have a: "asks (ce_server E) key initVal (rid, incr, delta) req" using Cons.hyps(1) by (simp add: c x)
  let ?v = "next_count incr delta old"
  obtain d where d: "w1 = w" "m1 = m\<lparr>dbs := (dbs m)[n := d]\<rparr>" "says (ce_server E) rid ?v resp"
    "map_of (cont d) = (map_of (cont (dbs m ! n)))(key \<mapsto> be_write ?C ?v)"
    by (rule answers_count [OF assms(1,2) a s(1) Cons.prems(2-5)])
  have at: "dbs m1 ! n = d" "n < length (dbs m1)" using Cons.prems(3) d(2) by simp_all
  have "ndbForKey (sv_env (ce_server E)) key (w1, m1, []) = Inr (Some n, w1, m1, [])"
    unfolding d(2) by (rule lookup_again [OF Cons.prems(2)])
  note ih = Cons.IH [OF s(2) this at(2), of ?v]
  have old: "?v = (case map_of (cont (dbs m1 ! n)) key of Some t \<Rightarrow> be_read ?C t | None \<Rightarrow> ucast (ucast initVal :: u16))"
    "\<exists>t. map_of (cont (dbs m1 ! n)) key = Some t \<and> length t = 8"
    using assms(3) by (simp_all add: at(1) d(4) codec64_laws_def)
  note r = ih [OF disjI2 [OF old(2)] old(1)]
  then obtain d' where "w' = w1" "m' = m1\<lparr>dbs := (dbs m1)[n := d']\<rparr>"
    "map_of (cont d') = counted (map_of (cont d)) ?C key ?v (map snd cs)"
    unfolding at(1) by blast
  then have "w' = w \<and> m' = m\<lparr>dbs := (dbs m)[n := d']\<rparr>
      \<and> map_of (cont d') = counted (map_of (cont (dbs m ! n))) ?C key old (map snd (c # cs))"
    by (simp add: d(1,2,4) c counted_def)
  then show ?case
    using r d(3) unfolding c x by (auto simp: Let_def)
qed

section \<open>Properties\<close>

text \<open>
  C6. A counter behind the service: if all requests of a log are increments and decrements of one key, with one
  initial value, the database of the key is open and has a value of eight bytes for it, and puts succeed, every request is answered with the running total of those before it and its own, whatever connection
  it came from, and after the log the key holds the sum of all changes modulo 2^64 (each delta modulo 2^16): no
  change is lost or counted twice.  No other key and no other database changes.
\<close>

theorem counter_log:
  assumes "db_laws (sv_rocks (ce_server E)) cont snap pos" "puts_succeed (sv_rocks (ce_server E))"
    and "codec64_laws (sv_codec64 (ce_server E))"
    and "served E w m l w' m'" "l \<noteq> []" "list_all2 (\<lambda>c (t, req, resp). asks (ce_server E) key initVal c req) cs l"
    and "ndbForKey (sv_env (ce_server E)) key (w, m, []) = Inr (Some n, w, m, [])" "n < length (dbs m)"
    and "map_of (cont (dbs m ! n)) key = Some old" "length old = 8"
  shows "\<exists>v. int (unat v) = (int (unat (be_read (sv_codec64 (ce_server E)) old)) + sum_list (map change (map snd cs))) mod 2 ^ 64
    \<and> w' = w \<and> (\<exists>d. m' = m\<lparr>dbs := (dbs m)[n := d]\<rparr>
       \<and> map_of (cont d) = (map_of (cont (dbs m ! n)))(key \<mapsto> be_write (sv_codec64 (ce_server E)) v))
    \<and> list_all2 (\<lambda>((rid, _), v) (t, req, resp). says (ce_server E) rid v resp)
        (zip cs (totals (be_read (sv_codec64 (ce_server E)) old) (map snd cs))) l"
proof -
  have "cs \<noteq> []" using assms(5,6) by (cases cs) auto
  then show ?thesis
    using served_counts [OF assms(1-3,6,4,7,8), of "be_read (sv_codec64 (ce_server E)) old"] assms(9,10)
    by (intro exI [of _ "total_count (be_read (sv_codec64 (ce_server E)) old) (map snd cs)"])
      (simp only: total_value, simp add: counted_def)
qed

text \<open>A server whose requests all add five to one counter; its answers are the encoded numbers.\<close>

definition count_conn :: "(string list, mem_db, mem_it) conn_env" where
  "count_conn = demo_conn\<lparr>ce_server := \<lparr>sv_env = sv_env (demo_server [Put (demo_key 2) (be_bytes 100)] VNil),
       sv_rocks = mem_rocks, sv_codec64 = be64,
       sv_decode = (\<lambda>_. (request VNil CHR ''N'' [VBytes (demo_key 2), VBool True, VPosInt 5, VPosInt 0], None)),
       sv_encode = (\<lambda>v s. (case v of VArray [_, _, VPosInt x] \<Rightarrow> \<lparr>sl_buf = be_bytes x, sl_len = 8, sl_set = True\<rparr> | _ \<Rightarrow> s, None)),
       sv_order = rev, sv_junk = 0\<rparr>\<rparr>"

lemma count_conn_laws:
  "db_laws (sv_rocks (ce_server count_conn)) mem_entries mem_snap mem_pos" "puts_succeed (sv_rocks (ce_server count_conn))"
  "codec64_laws (sv_codec64 (ce_server count_conn))"
  "asks (ce_server count_conn) (demo_key 2) 0 (VNil, True, 5) req"
  by (simp_all add: count_conn_def mem_db_laws mem_puts_succeed be64_laws asks_def)

lemma count_conn_answers:
  assumes "ndbForKey (sv_env (ce_server count_conn)) (demo_key 2) (w, m, []) = Inr (Some 0, w, m, [])" "0 < length (dbs m)"
    and "map_of (mem_entries (dbs m ! 0)) (demo_key 2) = Some t" "length t = 8"
  obtains resp d where "answers count_conn w m [] resp w (m\<lparr>dbs := (dbs m)[0 := d]\<rparr>)"
    "map_of (mem_entries d) (demo_key 2) = Some (be_bytes (next_count True 5 (be_value t)))"
proof -
  let ?s = "\<lparr>sl_buf = [], sl_len = 0, sl_set = True\<rparr>"
  have dec: "sv_decode (ce_server count_conn) [] = (request VNil CHR ''N'' [VBytes (demo_key 2), VBool True, VPosInt 5, VPosInt 0], None)"
    by (simp add: count_conn_def)
  have f: "map_of (mem_entries (dbs m ! 0)) (demo_key 2) = None \<or> (\<exists>t. map_of (mem_entries (dbs m ! 0)) (demo_key 2) = Some t \<and> length t = 8)"
    using assms(3,4) by blast
  define out where "out = \<lparr>sl_buf = be_bytes (next_count True 5 (be_value t)), sl_len = 8, sl_set = True\<rparr>"
  obtain d where d: "ReqHandler_handle (ce_server count_conn) [] ?s w m = Some (Inr (respond (ce_server count_conn) VNil VNil
      (VPosInt (next_count True 5 (be_value t))) ?s w (m\<lparr>dbs := (dbs m)[0 := d]\<rparr>)))"
    "map_of (mem_entries d) (demo_key 2) = Some (be_bytes (next_count True 5 (be_value t)))"
    using incrdecr_answer [OF count_conn_laws(1,2) dec assms(1,2) f refl, of ?s] assms(3)
    by (auto simp: count_conn_def be64_def)
  have "ReqHandler_handle (ce_server count_conn) [] ?s w m = Some (Inr (out, None, w, m\<lparr>dbs := (dbs m)[0 := d]\<rparr>))"
    unfolding d(1) by (simp add: respond_def count_conn_def out_def)
  then have "answers count_conn w m [] (contents out) w (m\<lparr>dbs := (dbs m)[0 := d]\<rparr>)"
    unfolding answers_def by (intro exI [of _ ?s] exI [of _ out] exI [of _ None]) simp
  then show ?thesis using that d(2) by blast
qed

lemma count_conn_open:
  obtains w m where "ndbForKey (sv_env (ce_server count_conn)) (demo_key 2) (w, m, []) = Inr (Some 0, w, m, [])"
    "dbs m = [[Put (demo_key 2) (be_bytes 100)]]"
proof -
  obtain w m where f: "ndbForKey (sv_env (ce_server count_conn)) (demo_key 2) ([], mem_manager True, []) = Inr (Some 0, w, m, [])"
    "dbs m = [[Put (demo_key 2) (be_bytes 100)]]"
    using demo_find [of "[Put (demo_key 2) (be_bytes 100)]" VNil] by (auto simp: count_conn_def)
  obtain k where k: "route (mem_manager True :: mem_db manager) (demo_key 2) = Inr (Inr k)" "db_look m k = Some 0"
    using ndbForKey_step(4) [OF f(1), of 0] by auto
  have "ndbForKey (sv_env (ce_server count_conn)) (demo_key 2) (w, m, []) = Inr (Some 0, w, m, [])"
    using route_same_setup [OF ndbForKey_step(1) [OF f(1)], of "demo_key 2"] k by (simp add: ndbForKey_route db_fetch_hit)
  then show ?thesis using that f(2) by blast
qed

theorem counter_log_witness:
  "\<exists>w m w' m' r1 r2 v. dbs m = [[Put (demo_key 2) (be_bytes 100)]]
     \<and> served count_conn w m [((4, 0), [], r1), ((5, 0), [], r2)] w' m'
     \<and> map_of (mem_entries (dbs m' ! 0)) (demo_key 2) = Some (be_bytes v) \<and> int (unat v) = 110"
proof -
  obtain w m where again: "ndbForKey (sv_env (ce_server count_conn)) (demo_key 2) (w, m, []) = Inr (Some 0, w, m, [])"
    and m: "dbs m = [[Put (demo_key 2) (be_bytes 100)]]"
    by (rule count_conn_open)
  have len: "0 < length (dbs m)" by (simp add: m)
  have old: "map_of (mem_entries (dbs m ! 0)) (demo_key 2) = Some (be_bytes 100)" "length (be_bytes (v :: u64)) = 8"
    "be_value (be_bytes v) = v" for v
    using be64_laws by (simp_all add: m mem_entries_def codec64_laws_def be64_def)
  obtain r1 d1 where a1: "answers count_conn w m [] r1 w (m\<lparr>dbs := (dbs m)[0 := d1]\<rparr>)"
    "map_of (mem_entries d1) (demo_key 2) = Some (be_bytes (next_count True 5 (be_value (be_bytes 100))))"
    by (rule count_conn_answers [OF again len old(1,2)])
  define m1 where "m1 = m\<lparr>dbs := (dbs m)[0 := d1]\<rparr>"
  have at: "0 < length (dbs m1)" "map_of (mem_entries (dbs m1 ! 0)) (demo_key 2) = Some (be_bytes (next_count True 5 (be_value (be_bytes 100))))"
    using a1(2) by (simp_all add: m m1_def)
  have "ndbForKey (sv_env (ce_server count_conn)) (demo_key 2) (w, m1, []) = Inr (Some 0, w, m1, [])"
    unfolding m1_def by (rule lookup_again [OF again])
  then obtain r2 d2 where a2: "answers count_conn w m1 [] r2 w (m1\<lparr>dbs := (dbs m1)[0 := d2]\<rparr>)"
    by (rule count_conn_answers [OF _ at old(2)])
  let ?l = "[((4, 0), [], r1), ((5, 0), [], r2)] :: log"
  have s: "served count_conn w m ?l w (m1\<lparr>dbs := (dbs m1)[0 := d2]\<rparr>)" using a1(1) a2 m1_def by auto
  have asked: "list_all2 (\<lambda>c (t, req, resp). asks (ce_server count_conn) (demo_key 2) 0 c req) [(VNil, True, 5), (VNil, True, 5)] ?l"
    by (simp add: count_conn_laws(4))
  have "?l \<noteq> []" by simp
  from counter_log [OF count_conn_laws(1-3) s this asked again len old(1,2)]
  obtain v d where v: "int (unat v) = (int (unat (be_read (sv_codec64 (ce_server count_conn)) (be_bytes 100)))
        + sum_list (map change (map snd [(VNil, True, 5), (VNil, True, 5)]))) mod 2 ^ 64"
    "m1\<lparr>dbs := (dbs m1)[0 := d2]\<rparr> = m\<lparr>dbs := (dbs m)[0 := d]\<rparr>"
    "map_of (mem_entries d) = (map_of (mem_entries (dbs m ! 0)))(demo_key 2 \<mapsto> be_write (sv_codec64 (ce_server count_conn)) v)"
    by blast
  have "int (unat v) = 110" using v(1) old(3) by (simp add: count_conn_def be64_def change_def)
  moreover have "map_of (mem_entries (dbs (m\<lparr>dbs := (dbs m)[0 := d]\<rparr>) ! 0)) (demo_key 2) = Some (be_bytes v)"
    using v(3) by (simp add: m count_conn_def be64_def)
  ultimately show ?thesis using s m unfolding v(2) by blast
qed

end
