(* ===== verification/OldConn.thy ===== *)
theory OldConn
  imports ConnSpec
begin

text \<open>
  \<^verbatim>\<open>handler.cc\<close>, the earlier source of the connection handler.  The makefile no longer names it; it
  is compared here with its successor in \<^verbatim>\<open>conn.cc\<close>.  \<^verbatim>\<open>stateFor\<close>, \<^verbatim>\<open>unregisterFd\<close>, \<^verbatim>\<open>doProcessFd\<close>
  and \<^verbatim>\<open>doWriteFd\<close> do the same in both (through pointers here, references there) and are those of
  the theory \<open>Conn\<close>; \<^verbatim>\<open>doReadFd\<close> keeps the result of \<^verbatim>\<open>read\<close> in an \<^verbatim>\<open>int\<close>.
\<close>

section \<open>Reading with a signed count\<close>

text \<open>
  \<^verbatim>\<open>n2 = reqlen - len\<close> cuts the number to 32 bits; \<^verbatim>\<open>n2 > FD_BUF_INCR\<close> compares it as a \<^verbatim>\<open>size_t\<close>, so
  a negative number is cut to 256 as well.
\<close>

definition old_read_count :: "('w, 'd) call \<Rightarrow> u64" where
  "old_read_count c =
     (let n2 = scast (ucast (reqlen (cx c) - sl_len (xin (cx c))) :: u32) :: u64
      in if FD_BUF_INCR < n2 then FD_BUF_INCR else n2)"

fun old_read_into :: "read_result \<Rightarrow> u64 \<Rightarrow> ('w, 'd) call \<Rightarrow> (int \<times> ('w, 'd) call) res" where
  "old_read_into (Got ds) n c =
     (let ds = take (unat n) ds; s = xin (cx c)
      in res_bind (write_at (sl_buf s) (unat (sl_len s)) ds) (\<lambda>b.
         Inr (int (length ds), set_x (set_in (s\<lparr>sl_buf := b\<rparr>)) (c\<lparr>creceived := creceived c @ ds\<rparr>))))"
| "old_read_into (ReadFail e) n c = Inr (- 1, c\<lparr>cerrno := e\<rparr>)"

fun old_read_loop ::
    "('w, 'd, 'it) conn_env \<Rightarrow> read_result list \<Rightarrow> ('w, 'd) call \<Rightarrow> (bool \<times> ('w, 'd) call) res option" where
  "old_read_loop E rs c =
     (if sl_len (xin (cx c)) < reqlen (cx c) then
        if \<not> sl_set (xin (cx c)) then Some (Inl Uninit)
        else (case rs of
           [] \<Rightarrow> None
         | r # rs \<Rightarrow>
             let n2 = old_read_count c;
                 c = set_x (\<lambda>x. set_in (expand E n2 (xin x)) x) (c\<lparr>creads := rs\<rparr>)
             in case old_read_into r n2 c of
                  Inl f \<Rightarrow> Some (Inl f)
                | Inr (n2, c) \<Rightarrow>
                    if 0 < n2 then old_read_loop E rs (add_len (of_int n2) c)
                    else if n2 = 0 then Some (Inr (False, c))
                    else if cerrno c = EINTR then old_read_loop E rs c
                    else if cerrno c = EAGAIN \<or> cerrno c = EWOULDBLOCK then Some (Inr (False, c))
                    else Some (Inr (False, call_error (read_msg E n2 (cerrno c)) c)))
      else Some (Inr (True, c)))"

declare old_read_loop.simps [simp del]

definition old_doReadFd :: "('w, 'd, 'it) conn_env \<Rightarrow> ('w, 'd) call \<Rightarrow> ('w, 'd) call res option" where
  "old_doReadFd E c =
     run_bind (old_read_loop E (creads c) c) (\<lambda>(complete, c).
       if complete then doProcessFd E (set_x (\<lambda>x. x\<lparr>cstate := CONN_PROCESSING\<rparr>) c) else Some (Inr c))"

section \<open>The start of a request and the handler\<close>

definition old_start_request :: "('w, 'd, 'it) conn_env \<Rightarrow> bytes \<Rightarrow> ('w, 'd) call \<Rightarrow> ('w, 'd) call res option" where
  "old_start_request E hdr c =
     (let numBytesForLen = hdr ! 0 in
      if 7 < numBytesForLen then Some (Inr (c\<lparr>cerr := take 127 (bad_length_msg numBytesForLen)\<rparr>))
      else
        let n2 = unat numBytesForLen + 1;
            s = (if n2 < 8 then expand E (of_nat (8 - n2)) (xin (cx c)) else xin (cx c))
        in case (if n2 < 8 then if sl_set s then write_at (sl_buf s) 0 (drop n2 hdr) else Inl Uninit else Inr (sl_buf s)) of
             Inl f \<Rightarrow> Some (Inl f)
           | Inr b \<Rightarrow>
               let s = (if n2 < 8 then s\<lparr>sl_buf := b, sl_len := of_nat (8 - n2)\<rparr> else s)
               in old_doReadFd E (set_x (\<lambda>x. x\<lparr>xin := s,
                     reqlen := be_read (sv_codec64 (ce_server E)) (length_array hdr n2),
                     cstate := CONN_READING\<rparr>) c))"

fun old_start_loop ::
    "('w, 'd, 'it) conn_env \<Rightarrow> read_result list \<Rightarrow> ('w, 'd) call \<Rightarrow> ('w, 'd) call res option" where
  "old_start_loop E [] c = None"
| "old_start_loop E (r # rs) c =
     (let ds = (case r of Got ds \<Rightarrow> take 8 ds | ReadFail e \<Rightarrow> []);
          c = (case r of Got ds \<Rightarrow> c | ReadFail e \<Rightarrow> c\<lparr>cerrno := e\<rparr>)\<lparr>creads := rs, creceived := creceived c @ ds\<rparr>;
          n2 = (case r of Got _ \<Rightarrow> int (length ds) | ReadFail _ \<Rightarrow> -1)
      in if n2 \<le> 0 then
           (if cerrno c = EINTR then old_start_loop E rs c
            else if cerrno c = EAGAIN \<or> cerrno c = EWOULDBLOCK then Some (Inr c)
            else Some (Inr (call_error (read_msg E n2 (cerrno c)) c)))
         else old_start_request E (ds @ drop (length ds) (ce_junk E)) c)"

definition old_doStartFd :: "('w, 'd, 'it) conn_env \<Rightarrow> ('w, 'd) call \<Rightarrow> ('w, 'd) call res option" where
  "old_doStartFd E c = old_start_loop E (creads c) (set_x reinit c)"

definition old_handle_state :: "('w, 'd, 'it) conn_env \<Rightarrow> ('w, 'd) call \<Rightarrow> ('w, 'd) call res option" where
  "old_handle_state E c = (case cstate (cx c) of
      CONN_READY \<Rightarrow> old_doStartFd E c
    | CONN_READING \<Rightarrow> old_doReadFd E c
    | CONN_PROCESSING \<Rightarrow> doProcessFd E c
    | CONN_WRITING \<Rightarrow> doWriteFd E c)"

definition old_handleFd ::
    "('w, 'd, 'it) conn_env \<Rightarrow> int \<Rightarrow> conns \<Rightarrow> ('w, 'd) call \<Rightarrow> (conns \<times> ('w, 'd) call) res option" where
  "old_handleFd E fd cs c =
     (let (x, cs) = stateFor (ce_init E) fd cs in
      case x of
        None \<Rightarrow> None
      | Some x \<Rightarrow> run_bind (old_handle_state E (c\<lparr>cx := x\<rparr>)) (\<lambda>c. Some (Inr (cs(fd \<mapsto> cx c), c))))"

section \<open>Where the two agree\<close>

lemma scast_small: "x < 2 ^ 31 \<Longrightarrow> scast (ucast x :: u32) = (x :: u64)"
proof (rule bit_word_eqI)
  fix n assume "x < 2 ^ 31"
  then have t: "take_bit 31 x = x" by (intro take_bit_self) (simp add: word_less_nat_alt)
  then have b: "bit x m \<Longrightarrow> m < 31" for m by (metis bit_take_bit_iff)
  show "bit (scast (ucast x :: u32) :: u64) n \<longleftrightarrow> bit x n"
    using b [of n] b [of 31] by (auto simp: bit_simps min_def)
qed

lemma old_read_count_eq:
  assumes "reqlen (cx c) < 2 ^ 31" "sl_len (xin (cx c)) < reqlen (cx c)"
  shows "old_read_count c = read_count c"
proof -
  have "reqlen (cx c) - sl_len (xin (cx c)) < 2 ^ 31"
    using assms by (simp add: word_less_nat_alt unat_sub word_le_nat_alt)
  then show ?thesis by (simp add: old_read_count_def read_count_def scast_small)
qed

lemma old_read_loop_eq:
  assumes "reqlen (cx c) < 2 ^ 31" "\<forall>r \<in> set rs. \<not> failed r"
  shows "old_read_loop E rs c = read_loop_fd E rs c"
  using assms
proof (induction rs arbitrary: c)
  case Nil
  then show ?case by (subst old_read_loop.simps, subst read_loop_fd.simps) simp
next
  case (Cons r rs)
  obtain ds where r: "r = Got ds" using Cons.prems(2) by (cases r) auto
  show ?case
  proof (cases "sl_len (xin (cx c)) < reqlen (cx c)")
    case True
    let ?n = "read_count c"
    let ?c = "set_x (\<lambda>x. set_in (expand E ?n (xin x)) x) (c\<lparr>creads := rs\<rparr>)"
    let ?s = "xin (cx ?c)"
    let ?ds = "take (unat ?n) ds"
    have n: "old_read_count c = ?n" by (rule old_read_count_eq [OF Cons.prems(1) True])
    have "unat (of_nat (length ?ds) :: u64) = length ?ds"
      using unsigned_less [where 'a = nat, of ?n] by (simp add: unat_of_nat min_def)
    then have z: "0 < (of_nat (length ?ds) :: u64) \<longleftrightarrow> 0 < int (length ?ds)"
      "(of_nat (length ?ds) :: u64) = 0 \<longleftrightarrow> int (length ?ds) = 0"
      by (simp_all only: word_less_nat_alt unat_0 of_nat_0_less_iff word_unat_eq_iff of_nat_eq_0_iff)
    show ?thesis
    proof (cases "write_at (sl_buf ?s) (unat (sl_len ?s)) ?ds")
      case (Inl f)
      then show ?thesis
        using True by (subst old_read_loop.simps, subst read_loop_fd.simps) (simp add: r n Let_def)
    next
      case (Inr b)
      have ih: "old_read_loop E rs (add_len k (set_x (set_in s) (?c\<lparr>creceived := d\<rparr>))) = read_loop_fd E rs (add_len k (set_x (set_in s) (?c\<lparr>creceived := d\<rparr>)))" for k s d
        by (rule Cons.IH) (use Cons.prems in \<open>auto simp: add_len_def set_in_def\<close>)
      show ?thesis
        using True Inr z ih by (subst old_read_loop.simps, subst read_loop_fd.simps) (simp add: r n Let_def)
    qed
  next
    case False
    then show ?thesis by (subst old_read_loop.simps, subst read_loop_fd.simps) simp
  qed
qed

lemma old_doReadFd_eq:
  assumes "reqlen (cx c) < 2 ^ 31" "\<forall>r \<in> set (creads c). \<not> failed r"
  shows "old_doReadFd E c = doReadFd E c"
  by (simp add: old_doReadFd_def doReadFd_def old_read_loop_eq [OF assms])

lemma unat_sum_le: "unat (x + y :: u64) \<le> unat x + unat y"
  by (metis mod_less_eq_dividend unat_word_ariths(1))

lemma small_header:
  assumes "length hdr = 8" "hdr ! 0 \<le> 3"
  shows "be_value (length_array hdr (Suc (unat (hdr ! 0)))) < 2 ^ 31"
proof -
  obtain nb rest where hdr: "hdr = nb # rest" "length rest = 7" using assms(1) by (cases hdr) auto
  let ?n = "unat nb"
  have n: "?n \<le> 3" using assms(2) hdr by (simp add: word_le_nat_alt)
  let ?lb = "take ?n rest"
  have lb: "length ?lb = ?n" "hdr = nb # ?lb @ drop ?n rest" using n hdr by simp_all
  have p: "256 ^ ?n \<le> (256 ^ 3 :: nat)" using n by (intro power_increasing) simp_all
  have "unat (be_value ?lb) < 2 ^ (8 * ?n)"
    using unat_below [of "8 * ?n" "be_value ?lb"] be_value_short [of ?lb] lb(1) by simp
  then have b: "unat (be_value ?lb) < 256 ^ 3" using p by (simp add: power_mult)
  have "unat (of_nat (?n * 256 ^ ?n) :: u64) \<le> ?n * 256 ^ ?n" by (simp only: unat_of_nat mod_less_eq_dividend)
  also have "\<dots> \<le> 3 * 256 ^ 3" using n p by (intro mult_le_mono)
  finally have "unat (of_nat (?n * 256 ^ ?n) + be_value ?lb) < 2 ^ 31"
    using b unat_sum_le [of "of_nat (?n * 256 ^ ?n)" "be_value ?lb"] by simp
  moreover have "be_value (length_array hdr (Suc (unat (hdr ! 0)))) = of_nat (?n * 256 ^ ?n) + be_value ?lb"
    using header_value [of nb ?lb "drop ?n rest"] lb hdr n by (simp add: word_le_nat_alt)
  ultimately show ?thesis by (simp add: word_less_nat_alt)
qed

lemma old_start_request_eq:
  assumes "length hdr = 8" "hdr ! 0 \<le> 3" "be_read (sv_codec64 (ce_server E)) = be_value"
    and "\<forall>r \<in> set (creads c). \<not> failed r"
  shows "old_start_request E hdr c = start_request E hdr c"
proof -
  have "old_doReadFd E (set_x (\<lambda>x. x\<lparr>xin := s, reqlen := be_value (length_array hdr (Suc (unat (hdr ! 0)))), cstate := CONN_READING\<rparr>) c)
      = doReadFd E (set_x (\<lambda>x. x\<lparr>xin := s, reqlen := be_value (length_array hdr (Suc (unat (hdr ! 0)))), cstate := CONN_READING\<rparr>) c)" for s
    by (rule old_doReadFd_eq) (use small_header [OF assms(1,2)] assms(4) in auto)
  then show ?thesis
    by (simp add: old_start_request_def start_request_def assms(3) Let_def cong: sum.case_cong)
qed

lemma old_doStartFd_eq:
  assumes "length (ce_junk E) = 8" "be_read (sv_codec64 (ce_server E)) = be_value"
    and "\<forall>r \<in> set (creads c). \<not> failed r" "creads c = Got (nb # bs) # rs" "nb \<le> 3"
  shows "old_doStartFd E c = doStartFd E c"
proof -
  let ?hdr = "take 8 (nb # bs) @ drop (length (take 8 (nb # bs))) (ce_junk E)"
  let ?c = "(set_x reinit c)\<lparr>creads := rs, creceived := creceived c @ take 8 (nb # bs)\<rparr>"
  have "old_start_request E ?hdr ?c = start_request E ?hdr ?c"
    by (rule old_start_request_eq) (use assms in auto)
  then show ?thesis
    by (simp add: old_doStartFd_def doStartFd_def assms(4) Let_def)
qed

section \<open>Properties\<close>

text \<open>
  C22. The two handlers: as long as no read fails and the request is below 2^31 bytes (which a header
  with at most three bytes of length ensures), the signed and the unsigned handler do the same, in
  every state of the connection.  For a connection that is ready the first read is one that gives a byte, so the end of the
  input before a request is not covered.
\<close>

theorem old_handler_agrees:
  assumes "length (ce_junk E) = 8" "be_read (sv_codec64 (ce_server E)) = be_value"
    and "\<forall>r \<in> set (creads c). \<not> failed r" "stateFor (ce_init E) fd cs = (Some x, cs0)"
    and "cstate x = CONN_READY \<Longrightarrow> creads c = Got (nb # bs) # rs \<and> nb \<le> 3"
    and "cstate x = CONN_READING \<Longrightarrow> reqlen x < 2 ^ 31"
  shows "old_handleFd E fd cs c = handleFd E fd cs c"
proof -
  let ?c = "c\<lparr>cx := x\<rparr>"
  have "old_handle_state E ?c = handle_state E ?c"
    using old_doStartFd_eq [OF assms(1,2), of ?c nb bs rs] old_doReadFd_eq [of ?c E] assms(3,5,6)
    by (cases "cstate x") (simp_all add: old_handle_state_def handle_state_def)
  then show ?thesis
    by (simp add: old_handleFd_def handleFd_def assms(4))
qed

theorem old_handler_agrees_witness:
  "old_handleFd demo_conn 4 Map.empty (new_call [] (mem_manager True) EINTR [Got (1 # [0, 9, 9]), Got []] []) =
     handleFd demo_conn 4 Map.empty (new_call [] (mem_manager True) EINTR [Got (1 # [0, 9, 9]), Got []] [])"
proof -
  let ?c = "new_call [] (mem_manager True) EINTR [Got (1 # [0, 9, 9]), Got []] []"
  have s: "stateFor (ce_init demo_conn) 4 Map.empty = (Some (new_conn True 4), [4 \<mapsto> new_conn True 4])" "cstate (new_conn True 4) = CONN_READY"
    by (simp_all add: stateFor_def new_conn_def reinit_def)
  show ?thesis
    using old_handler_agrees [where E = demo_conn and c = ?c, OF _ _ _ s(1), of 1 "[0, 9, 9]" "[Got []]"] s(2)
    by (simp add: demo_conn_def be64_def new_call_def)
qed

text \<open>
  A failed read, seen: where the unsigned count of \<^verbatim>\<open>conn.cc\<close> goes on, the signed one stops; a
  socket without more data leaves the connection waiting with every byte it has, and any other error is
  reported and resets the connection.
\<close>

theorem old_handler_waits:
  assumes "expand_laws E" "slice_ok (xin (cx c))" "cstate (cx c) = CONN_READING"
    and "sl_len (xin (cx c)) < reqlen (cx c)" "creads c = ReadFail e # rs" "e \<noteq> EINTR"
  shows "\<exists>c'. old_handle_state E c = Some (Inr c') \<and> creads c' = rs \<and>
    (if e = EAGAIN \<or> e = EWOULDBLOCK
     then cstate (cx c') = CONN_READING \<and> reqlen (cx c') = reqlen (cx c) \<and> cerr c' = cerr c
        \<and> slice_ok (xin (cx c')) \<and> contents (xin (cx c')) = contents (xin (cx c))
     else cstate (cx c') = CONN_READY \<and> cerr c' = take 127 (read_msg E (-1) e))"
proof -
  let ?s = "expand E (old_read_count c) (xin (cx c))"
  let ?c = "set_x (set_in ?s) (c\<lparr>creads := rs, cerrno := e\<rparr>)"
  have "old_read_loop E (creads c) c = Some (Inr (False,
      if e = EAGAIN \<or> e = EWOULDBLOCK then ?c else call_error (read_msg E (-1) e) ?c))"
    using assms(4-6) slice_ok_set [OF assms(2)] by (subst old_read_loop.simps) (simp add: set_in_def Let_def call_error_def)
  then show ?thesis
    using assms(3) expand_ok(2,4) [OF assms(1,2), of "old_read_count c"]
    by (simp add: old_handle_state_def old_doReadFd_def set_in_def call_error_def reinit_def)
qed

theorem old_handler_waits_witness:
  "\<exists>c'. old_handle_state demo_conn ((new_call [] (mem_manager True) EINTR [ReadFail EAGAIN] [])\<lparr>cx :=
     (new_conn True 4)\<lparr>xin := \<lparr>sl_buf = [5, 6], sl_len = 2, sl_set = True\<rparr>, reqlen := 9, cstate := CONN_READING\<rparr>\<rparr>) = Some (Inr c')
     \<and> contents (xin (cx c')) = [5, 6]"
proof -
  let ?c = "(new_call [] (mem_manager True) EINTR [ReadFail EAGAIN] [])\<lparr>cx :=
     (new_conn True 4)\<lparr>xin := \<lparr>sl_buf = [5, 6], sl_len = 2, sl_set = True\<rparr>, reqlen := 9, cstate := CONN_READING\<rparr>\<rparr>"
  have c: "slice_ok (xin (cx ?c))" "cstate (cx ?c) = CONN_READING" "sl_len (xin (cx ?c)) < reqlen (cx ?c)"
    "creads ?c = ReadFail EAGAIN # []" "EAGAIN \<noteq> EINTR" "contents (xin (cx ?c)) = [5, 6]"
    by (simp_all add: slice_ok_def contents_def new_call_def)
  from old_handler_waits [OF conn_lawsD(1) [OF demo_conn_laws] c(1-5)] show ?thesis
    unfolding c(6) by auto
qed

end
