(* ===== verification/Capi.thy ===== *)
theory Capi
  imports Handler
begin

text \<open>
  \<^verbatim>\<open>ndb-c.h\<close> and \<^verbatim>\<open>ndb-c.cc\<close>: the C interface.  Every call gives a request key under which the
  library keeps what the call's results point to (\<^verbatim>\<open>freeinfo\<close>), until \<^verbatim>\<open>ndb_release\<close> is called
  with the key.

  A \<^verbatim>\<open>ndb_t*\<close> is an index into the databases that were opened; a deleted one is \<open>None\<close> there.
\<close>

section \<open>Slices and what they point to\<close>

text \<open>
  A slice that a call gives out points to memory that is kept under its key (\<open>Owned\<close>), to a static
  string, or to memory that is gone when the call returns, of which only the length is left.
\<close>

datatype cslice = Unset | Static string | Owned bytes | Dangling nat

record freeinfo =
  fdb :: "nat option"
  fstrings :: "bytes list"
  fsliceBytes :: "cslice list"
  farrSliceBytes :: "cslice list list"
  farrBytes :: "bytes list"

definition new_freeinfo :: freeinfo where
  "new_freeinfo = \<lparr>fdb = None, fstrings = [], fsliceBytes = [], farrSliceBytes = [], farrBytes = []\<rparr>"

record copt =
  c_create_if_missing :: bool
  c_max_background_compactions :: nat
  c_max_background_flushes :: nat
  c_write_buffer_size :: u64

text \<open>
  The globals, the databases and the world; the environment: memory (pages times page size, in
  64 bits) and cores of the machine, \<^verbatim>\<open>DB::Open\<close>, the database library, the byte order, and how
  many bytes a \<^verbatim>\<open>std::string\<close> holds in itself (15 for libstdc++).
\<close>

record ('w, 'd) capi =
  cseq :: u32
  mfree :: "u32 \<rightharpoonup> freeinfo"
  once :: bool
  inited :: bool
  ccache :: u64
  copts :: copt
  cdbs :: "'d option list"
  cw :: 'w

record ('w, 'd, 'it) capi_env =
  ca_ram :: u64
  ca_cores :: nat
  ca_open :: "'w \<Rightarrow> copt \<Rightarrow> bytes \<Rightarrow> status \<times> 'd option \<times> 'w"
  ca_rocks :: "('d, 'it) rocksdb"
  ca_codec64 :: codec64
  ca_sso :: nat

text \<open>
  A slice taken from a local \<^verbatim>\<open>std::string\<close> that is then moved into \<^verbatim>\<open>strings_\<close>: the characters of a
  long string stay where they are, those of a short one are copied from the string that is about to go.
\<close>

definition string_slice :: "nat \<Rightarrow> bytes \<Rightarrow> cslice" where
  "string_slice sso src = (if length src \<le> sso then Dangling (length src) else Owned src)"

definition ndb_str_to_slice :: "nat \<Rightarrow> bytes \<Rightarrow> cslice \<Rightarrow> freeinfo \<Rightarrow> bool \<times> cslice \<times> freeinfo" where
  "ndb_str_to_slice sso src dest rkv =
     (if src = [] then (False, dest, rkv)
      else (True, string_slice sso src, rkv\<lparr>fstrings := fstrings rkv @ [src]\<rparr>))"

section \<open>Initialisation\<close>

definition ndb_once_init :: "('w, 'd, 'it) capi_env \<Rightarrow> ('w, 'd) capi \<Rightarrow> ('w, 'd) capi" where
  "ndb_once_init E st =
     (let ram = ca_ram E;
          cacheSize = ram div 16;
          cacheSize = (if cacheSize > 67108864 then 67108864 else cacheSize);
          cores = ca_cores E
      in st\<lparr>ccache := cacheSize,
           copts := \<lparr>c_create_if_missing = True, c_max_background_compactions = cores,
             c_max_background_flushes = cores, c_write_buffer_size = 16777216\<rparr>,
           cseq := 1, inited := True\<rparr>)"

definition ndb_init :: "('w, 'd, 'it) capi_env \<Rightarrow> ('w, 'd) capi \<Rightarrow> ('w, 'd) capi" where
  "ndb_init E st = (if once st then st else (ndb_once_init E st)\<lparr>once := True\<rparr>)"

definition NOT_INITED_ERR :: string where
  "NOT_INITED_ERR = ''ndb not initialised''"

section \<open>Request keys\<close>

text \<open>Erasing an entry runs \<^verbatim>\<open>~freeinfo\<close>, which deletes the database; storing one replaces what is there.\<close>

definition erase_entry :: "u32 \<Rightarrow> ('w, 'd) capi \<Rightarrow> ('w, 'd) capi" where
  "erase_entry rk st = (case mfree st rk of
      None \<Rightarrow> st
    | Some fi \<Rightarrow> st\<lparr>mfree := (mfree st)(rk := None),
        cdbs := (case fdb fi of None \<Rightarrow> cdbs st | Some n \<Rightarrow> (cdbs st)[n := None])\<rparr>)"

definition keep_entry :: "u32 \<Rightarrow> freeinfo \<Rightarrow> ('w, 'd) capi \<Rightarrow> ('w, 'd) capi" where
  "keep_entry rk fi st = (erase_entry rk st)\<lparr>mfree := (mfree (erase_entry rk st))(rk \<mapsto> fi)\<rparr>"

definition next_key :: "('w, 'd) capi \<Rightarrow> u32 \<times> ('w, 'd) capi" where
  "next_key st = (cseq st + 1, st\<lparr>cseq := cseq st + 1\<rparr>)"

fun ndb_release :: "u32 list \<Rightarrow> nat \<Rightarrow> ('w, 'd) capi \<Rightarrow> ('w, 'd) capi res" where
  "ndb_release reqkeys 0 st = Inr st"
| "ndb_release [] (Suc n) st = Inl OobRead"
| "ndb_release (rk # reqkeys) (Suc n) st = ndb_release reqkeys n (erase_entry rk st)"

definition db_rep :: "('w, 'd) capi \<Rightarrow> nat option \<Rightarrow> 'd res" where
  "db_rep st db = (case db of
      None \<Rightarrow> Inl NullDeref
    | Some n \<Rightarrow> if n < length (cdbs st) then (case cdbs st ! n of None \<Rightarrow> Inl StaleDb | Some d \<Rightarrow> Inr d)
        else Inl StaleDb)"

lemma db_rep_cseq [simp]: "db_rep (st\<lparr>cseq := n\<rparr>) db = db_rep st db"
  by (simp add: db_rep_def split: option.split)

definition set_db :: "nat option \<Rightarrow> 'd \<Rightarrow> ('w, 'd) capi \<Rightarrow> ('w, 'd) capi" where
  "set_db db d st = (case db of None \<Rightarrow> st | Some n \<Rightarrow> st\<lparr>cdbs := (cdbs st)[n := Some d]\<rparr>)"

section \<open>The calls\<close>

definition ndb_open ::
    "('w, 'd, 'it) capi_env \<Rightarrow> bytes \<Rightarrow> nat option \<Rightarrow> cslice \<Rightarrow> ('w, 'd) capi \<Rightarrow>
     u32 \<times> nat option \<times> cslice \<times> ('w, 'd) capi" where
  "ndb_open E dir db err st =
     (let st = ndb_init E st in
      if \<not> inited st then (0, db, Static NOT_INITED_ERR, st)
      else
        let (rk, st) = next_key st;
            (s, ldb, w) = ca_open E (cw st) (copts st) dir;
            st = st\<lparr>cw := w\<rparr>
        in case (if st_ok s then ldb else None) of
             Some d \<Rightarrow>
               let n = length (cdbs st)
               in (rk, Some n, err, keep_entry rk (new_freeinfo\<lparr>fdb := Some n\<rparr>) (st\<lparr>cdbs := cdbs st @ [Some d]\<rparr>))
           | None \<Rightarrow>
               let str = bytes_of (st_string s)
               in (rk, db, string_slice (ca_sso E) str, keep_entry rk (new_freeinfo\<lparr>fstrings := [str]\<rparr>) st))"

definition ndb_get_multi ::
    "('w, 'd, 'it) capi_env \<Rightarrow> nat option \<Rightarrow> bytes list \<Rightarrow> ('w, 'd) capi \<Rightarrow>
     (u32 \<times> cslice list \<times> cslice list \<times> ('w, 'd) capi) res" where
  "ndb_get_multi E db keys st =
     (let (rk, st) = next_key st in
      res_bind (db_rep st db) (\<lambda>d.
        let (vvals, verrs) = Ndb_gets (ca_rocks E) d keys [];
            verrs = map bytes_of verrs
        in if length verrs < length keys \<or> length vvals < length keys then Inl OobRead
           else
             let errs2 = map (string_slice (ca_sso E)) (take (length keys) verrs);
                 vals2 = map (string_slice (ca_sso E)) (take (length keys) vvals);
                 strs = concat (map (\<lambda>(e, v). [e, v]) (zip (take (length keys) verrs) (take (length keys) vvals)))
             in Inr (rk, vals2, errs2,
                  keep_entry rk (new_freeinfo\<lparr>fstrings := strs, farrSliceBytes := [errs2, vals2]\<rparr>) st)))"

text \<open>\<^verbatim>\<open>std::string sval = nullptr;\<close> reads the characters behind a null pointer.\<close>

definition ndb_get ::
    "('w, 'd, 'it) capi_env \<Rightarrow> nat option \<Rightarrow> bytes \<Rightarrow> cslice \<Rightarrow> cslice \<Rightarrow> ('w, 'd) capi \<Rightarrow>
     (u32 \<times> cslice \<times> cslice \<times> ('w, 'd) capi) res" where
  "ndb_get E db key val err st =
     (let (rk, st) = next_key st; sval = (Inl NullDeref :: bytes res) in
      res_bind sval (\<lambda>sval.
      res_bind (db_rep st db) (\<lambda>d.
        let (sval, serr) = Ndb_get (ca_rocks E) d key (sval, []);
            (_, err, rkv) = ndb_str_to_slice (ca_sso E) (bytes_of serr) err new_freeinfo;
            (_, val, rkv) = ndb_str_to_slice (ca_sso E) sval val rkv
        in Inr (rk, val, err, keep_entry rk rkv st))))"

fun put_pairs :: "bytes list \<Rightarrow> (bytes list \<times> bytes list) res" where
  "put_pairs [] = Inr ([], [])"
| "put_pairs [k] = Inl OobRead"
| "put_pairs (k # v # kvs) = res_bind (put_pairs kvs) (\<lambda>(ks, vs). Inr (k # ks, v # vs))"

definition ndb_update ::
    "('w, 'd, 'it) capi_env \<Rightarrow> nat option \<Rightarrow> bytes list \<Rightarrow> bytes list \<Rightarrow> cslice \<Rightarrow> ('w, 'd) capi \<Rightarrow>
     (u32 \<times> cslice \<times> ('w, 'd) capi) res" where
  "ndb_update E db putKvs dels err st =
     (let (rk, st) = next_key st in
      res_bind (put_pairs putKvs) (\<lambda>(putkeys, putvalues).
      res_bind (db_rep st db) (\<lambda>d.
      res_bind (Ndb_update (ca_rocks E) d putkeys putvalues dels []) (\<lambda>(d, serr).
        let (_, err, rkv) = ndb_str_to_slice (ca_sso E) (bytes_of serr) err new_freeinfo
        in Inr (rk, err, keep_entry rk rkv (set_db db d st))))))"

text \<open>The rows of a query are copied by its callback; \<^verbatim>\<open>*results\<close> is set only if there are any.\<close>

definition ndb_query ::
    "('w, 'd, 'it) capi_env \<Rightarrow> nat option \<Rightarrow> bytes \<Rightarrow> bytes \<Rightarrow> u8 \<Rightarrow> u8 \<Rightarrow> bool \<Rightarrow> bool \<Rightarrow> u8 \<Rightarrow>
     nat \<Rightarrow> nat \<Rightarrow> cslice list option \<Rightarrow> cslice \<Rightarrow> ('w, 'd) capi \<Rightarrow>
     (u32 \<times> cslice list option \<times> nat \<times> cslice \<times> ('w, 'd) capi) res option" where
  "ndb_query E db seekpos1 seekpos2 kindid shapeid ancestorOnly withCursor lastFilterOp offset limit results err st =
     (let (rk, st) = next_key st in
      case db_rep st db of
        Inl f \<Rightarrow> Some (Inl f)
      | Inr d \<Rightarrow>
          run_bind (Ndb_query (ca_rocks E) d seekpos1 seekpos2 kindid shapeid ancestorOnly withCursor
              lastFilterOp offset limit (\<lambda>sl sls. if sl = [] then sls else sls @ [sl]) [] []) (\<lambda>(sls, serr).
            let (_, err, rkv) = ndb_str_to_slice (ca_sso E) (bytes_of serr) err new_freeinfo;
                sl = map Owned sls
            in Some (Inr (rk, if sls = [] then results else Some sl, length sls, err,
                 keep_entry rk (rkv\<lparr>farrBytes := sls, fsliceBytes := sl\<rparr>) st))))"

definition ndb_incr_decr ::
    "('w, 'd, 'it) capi_env \<Rightarrow> nat option \<Rightarrow> bytes \<Rightarrow> bool \<Rightarrow> u16 \<Rightarrow> u16 \<Rightarrow> u64 \<Rightarrow> cslice \<Rightarrow> ('w, 'd) capi \<Rightarrow>
     (u32 \<times> u64 \<times> cslice \<times> ('w, 'd) capi) res" where
  "ndb_incr_decr E db key incr delta initVal nextVal err st =
     (let (rk, st) = next_key st in
      res_bind (db_rep st db) (\<lambda>d.
        let (d, nextVal, serr) = Ndb_incrdecr (ca_codec64 E) (ca_rocks E) d key incr delta initVal (nextVal, []);
            (_, err, rkv) = ndb_str_to_slice (ca_sso E) (bytes_of serr) err new_freeinfo
        in Inr (rk, nextVal, err, keep_entry rk rkv (set_db db d st))))"

text \<open>\<^verbatim>\<open>ndb_to_hex\<close>, of the characters of a slice.\<close>

definition hex_lut :: string where
  "hex_lut = ''0123456789ABCDEF''"

definition ndb_to_hex :: "bytes \<Rightarrow> string" where
  "ndb_to_hex input = ''0X'' @ concat (map (\<lambda>c. [hex_lut ! unat (drop_bit 4 c), hex_lut ! unat (c AND 15)]) input)"

section \<open>What a call keeps\<close>

lemma keep_fresh: "mfree st rk = None \<Longrightarrow> keep_entry rk fi st = st\<lparr>mfree := (mfree st)(rk \<mapsto> fi)\<rparr>"
  by (simp add: keep_entry_def erase_entry_def)

text \<open>
  What a call gives its caller: slices, each with what was there before the call, and arrays of slices.  An entry holds them
  if the characters of every slice that was stored, and every array, are among what it keeps; the exceptions are strings
  that are short enough to be in themselves, of which nothing is left.
\<close>

type_synonym given = "(cslice \<times> cslice) list \<times> cslice list list"

definition kept_slice :: "nat \<Rightarrow> freeinfo \<Rightarrow> cslice \<Rightarrow> bool" where
  "kept_slice sso fi sl \<longleftrightarrow> (case sl of
      Owned b \<Rightarrow> b \<in> set (fstrings fi) \<union> set (farrBytes fi)
    | Dangling n \<Rightarrow> n \<le> sso
    | _ \<Rightarrow> False)"

definition holds_given :: "nat \<Rightarrow> freeinfo \<Rightarrow> given \<Rightarrow> bool" where
  "holds_given sso fi = (\<lambda>(slices, arrays).
     (\<forall>(before, after) \<in> set slices. after = before \<or> kept_slice sso fi after)
     \<and> (\<forall>a \<in> set arrays. a \<in> insert (fsliceBytes fi) (set (farrSliceBytes fi)) \<and> (\<forall>sl \<in> set a. kept_slice sso fi sl)))"

lemma kept_string: "b \<in> set (fstrings fi) \<Longrightarrow> kept_slice sso fi (string_slice sso b)"
  by (simp add: kept_slice_def string_slice_def)

lemma str_to_slice_kept:
  assumes "ndb_str_to_slice sso src dest rkv = (b, dest', rkv')"
  shows "dest' = dest \<or> kept_slice sso rkv' dest'"
  using assms by (auto simp: ndb_str_to_slice_def kept_string split: if_splits)

text \<open>A call, by the key it returns, what it gives, and the state it leaves.\<close>

inductive capi_call :: "('w, 'd, 'it) capi_env \<Rightarrow> ('w, 'd) capi \<Rightarrow> u32 \<Rightarrow> given \<Rightarrow> ('w, 'd) capi \<Rightarrow> bool"
  for E where
  open_call: "ndb_open E dir db err st = (rk, db', err', st') \<Longrightarrow> capi_call E st rk ([(err, err')], []) st'"
| get_call: "ndb_get E db key val err st = Inr (rk, val', err', st') \<Longrightarrow> capi_call E st rk ([(val, val'), (err, err')], []) st'"
| multi_call: "ndb_get_multi E db keys st = Inr (rk, vals, errs, st') \<Longrightarrow> capi_call E st rk ([], [vals, errs]) st'"
| update_call: "ndb_update E db putKvs dels err st = Inr (rk, err', st') \<Longrightarrow> capi_call E st rk ([(err, err')], []) st'"
| query_call: "ndb_query E db seekpos1 seekpos2 kindid shapeid ancestorOnly withCursor op offset limit results err st
    = Some (Inr (rk, results', num, err', st')) \<Longrightarrow>
    capi_call E st rk ([(err, err')], if num = 0 then [] else [the results']) st'"
| incr_call: "ndb_incr_decr E db key incr delta initVal nextVal err st = Inr (rk, v, err', st') \<Longrightarrow>
    capi_call E st rk ([(err, err')], []) st'"

text \<open>Runs of the library: calls and releases; the number counts the calls.\<close>

inductive capi_run :: "('w, 'd, 'it) capi_env \<Rightarrow> nat \<Rightarrow> ('w, 'd) capi \<Rightarrow> bool"
  for E where
  start: "\<not> once st \<Longrightarrow> cdbs st = [] \<Longrightarrow> mfree st = Map.empty \<Longrightarrow> capi_run E 0 st"
| call: "capi_run E n st \<Longrightarrow> capi_call E st rk given st' \<Longrightarrow> capi_run E (Suc n) st'"
| release: "capi_run E n st \<Longrightarrow> ndb_release reqkeys num st = Inr st' \<Longrightarrow> capi_run E n st'"

text \<open>Same databases, some of them changed, new ones at the end; none goes.\<close>

definition dbs_kept :: "'d option list \<Rightarrow> 'd option list \<Rightarrow> bool" where
  "dbs_kept ds ds' \<longleftrightarrow> length ds \<le> length ds' \<and> (\<forall>i < length ds. ds' ! i = None \<longleftrightarrow> ds ! i = None)"

lemma dbs_kept_refl [simp]: "dbs_kept ds ds"
  by (simp add: dbs_kept_def)

lemma dbs_kept_append [simp]: "dbs_kept ds (ds @ xs)"
  by (simp add: dbs_kept_def nth_append)

lemma dbs_kept_set_db: "db_rep st db = Inr d \<Longrightarrow> dbs_kept (cdbs st) (cdbs (set_db db d' st))"
  by (auto simp: dbs_kept_def set_db_def db_rep_def nth_list_update split: option.splits if_splits)

lemma set_db_simps [simp]: "mfree (set_db db d st) = mfree st" "cseq (set_db db d st) = cseq st"
  "once (set_db db d st) = once st" "inited (set_db db d st) = inited st"
  by (simp_all add: set_db_def split: option.split)

text \<open>What \<^verbatim>\<open>ndb_open\<close> does before its entry is kept: the first call initialises, then there may be a new database.\<close>

lemma open_shape:
  assumes "once st \<Longrightarrow> inited st" "ndb_open E dir db err st = (rk, db', err', st')"
  obtains sa sb fi where "sa = st \<and> once st \<or> sa = (ndb_once_init E st)\<lparr>once := True\<rparr> \<and> \<not> once st"
    "rk = cseq sa + 1" "st' = keep_entry rk fi sb" "mfree sb = mfree sa" "cseq sb = rk" "once sb" "inited sb"
    "dbs_kept (cdbs sa) (cdbs sb)" "holds_given (ca_sso E) fi ([(err, err')], [])"
proof -
  let ?st0 = "ndb_init E st"
  have st0: "?st0 = st \<and> once st \<or> ?st0 = (ndb_once_init E st)\<lparr>once := True\<rparr> \<and> \<not> once st" "once ?st0" "inited ?st0"
    using assms(1) by (auto simp: ndb_init_def ndb_once_init_def Let_def)
  obtain s ldb w where o: "ca_open E (cw ?st0) (copts ?st0) dir = (s, ldb, w)" by (metis prod_cases3)
  show ?thesis
  proof (cases "if st_ok s then ldb else None")
    case None
    then show ?thesis
      using assms(2) o st0(3)
      by (intro that [where fi = "new_freeinfo\<lparr>fstrings := [bytes_of (st_string s)]\<rparr>" and
            sb = "?st0\<lparr>cseq := cseq ?st0 + 1, cw := w\<rparr>", OF st0(1)])
        (auto simp: ndb_open_def Let_def next_key_def st0(2,3) holds_given_def kept_string)
  next
    case (Some d)
    then show ?thesis
      using assms(2) o st0(3)
      by (intro that [where fi = "new_freeinfo\<lparr>fdb := Some (length (cdbs ?st0))\<rparr>" and
            sb = "?st0\<lparr>cseq := cseq ?st0 + 1, cw := w, cdbs := cdbs ?st0 @ [Some d]\<rparr>", OF st0(1)])
        (auto simp: ndb_open_def Let_def next_key_def st0(2,3) holds_given_def)
  qed
qed

text \<open>What the other calls keep.\<close>

lemma multi_holds:
  assumes "ndb_get_multi E db keys st = Inr (rk, vals, errs, st')"
  obtains d fi where "db_rep (st\<lparr>cseq := cseq st + 1\<rparr>) db = Inr d" "rk = cseq st + 1"
    "st' = keep_entry rk fi (st\<lparr>cseq := cseq st + 1\<rparr>)" "holds_given (ca_sso E) fi ([], [vals, errs])"
proof -
  obtain d where d: "db_rep st db = Inr d" using assms by (auto simp: ndb_get_multi_def next_key_def res_bind_Inr_iff)
  obtain vs es where g: "Ndb_gets (ca_rocks E) d keys [] = (vs, es)" by (cases "Ndb_gets (ca_rocks E) d keys []")
  define vs' es' where "vs' = take (length keys) vs" and "es' = take (length keys) (map bytes_of es)"
  let ?strs = "concat (map (\<lambda>(e, v). [e, v]) (zip es' vs'))"
  have len: "length vs' = length keys" "length es' = length keys" and
    r: "vals = map (string_slice (ca_sso E)) vs'" "errs = map (string_slice (ca_sso E)) es'" "rk = cseq st + 1"
    "st' = keep_entry rk (new_freeinfo\<lparr>fstrings := ?strs, farrSliceBytes := [errs, vals]\<rparr>) (st\<lparr>cseq := cseq st + 1\<rparr>)"
    using assms by (auto simp: ndb_get_multi_def next_key_def d g Let_def vs'_def es'_def split: if_splits)
  have "b \<in> set ?strs" if "b \<in> set vs' \<union> set es'" for b
  proof -
    have "map fst (zip es' vs') = es'" "map snd (zip es' vs') = vs'" using len by simp_all
    then have "b \<in> snd ` set (zip es' vs') \<union> fst ` set (zip es' vs')" using that by (metis set_map)
    then show ?thesis by force
  qed
  then show ?thesis
    using that [OF _ r(3,4)] d by (auto simp: holds_given_def r(1,2) kept_string)
qed

lemma query_holds:
  assumes "ndb_query E db seekpos1 seekpos2 kindid shapeid ancestorOnly withCursor op offset limit results err st
    = Some (Inr (rk, results', num, err', st'))"
  obtains d fi where "db_rep (st\<lparr>cseq := cseq st + 1\<rparr>) db = Inr d" "rk = cseq st + 1"
    "st' = keep_entry rk fi (st\<lparr>cseq := cseq st + 1\<rparr>)"
    "holds_given (ca_sso E) fi ([(err, err')], if num = 0 then [] else [the results'])"
proof -
  obtain d sls serr where q: "db_rep st db = Inr d"
    "Ndb_query (ca_rocks E) d seekpos1 seekpos2 kindid shapeid ancestorOnly withCursor op offset limit
       (\<lambda>sl sls. if sl = [] then sls else sls @ [sl]) [] [] = Some (Inr (sls, serr))"
    using assms by (auto simp: ndb_query_def next_key_def run_bind_Inr_iff split: sum.splits)
  obtain b err1 rkv where s: "ndb_str_to_slice (ca_sso E) (bytes_of serr) err new_freeinfo = (b, err1, rkv)" by (metis prod_cases3)
  let ?fi = "rkv\<lparr>farrBytes := sls, fsliceBytes := map Owned sls\<rparr>"
  have r: "rk = cseq st + 1" "results' = (if sls = [] then results else Some (map Owned sls))" "num = length sls" "err' = err1"
    "st' = keep_entry rk ?fi (st\<lparr>cseq := cseq st + 1\<rparr>)"
    using assms by (auto simp: ndb_query_def next_key_def q s Let_def)
  have e: "err' = err \<or> kept_slice (ca_sso E) ?fi err'"
    using s by (auto simp: r(4) ndb_str_to_slice_def kept_string new_freeinfo_def split: if_splits)
  have "holds_given (ca_sso E) ?fi ([(err, err')], if num = 0 then [] else [the results'])"
    using e by (auto simp: holds_given_def r(2,3) kept_slice_def)
  then show ?thesis using that [OF _ r(1,5)] q(1) by simp
qed

text \<open>Every call takes the next key and keeps one entry under it, with what its caller is given.\<close>

lemma capi_call_shape:
  assumes "capi_call E st rk given st'" "once st \<Longrightarrow> inited st" "\<not> once st \<Longrightarrow> cdbs st = []"
  obtains sa sb fi where "sa = st \<and> once st \<or> sa = (ndb_once_init E st)\<lparr>once := True\<rparr> \<and> \<not> once st"
    "rk = cseq sa + 1" "st' = keep_entry rk fi sb" "mfree sb = mfree sa" "cseq sb = rk" "once sb" "inited sb"
    "dbs_kept (cdbs sa) (cdbs sb)" "holds_given (ca_sso E) fi given"
proof -
  note shape = that
  let ?s = "st\<lparr>cseq := cseq st + 1\<rparr>"
  have used: "once st" if "db_rep ?s db = Inr d" for db d
    using that assms(3) by (cases "once st") (auto simp: db_rep_def split: option.splits if_splits)
  have plain: thesis if "db_rep ?s db = Inr d" "rk = cseq st + 1" "st' = keep_entry rk fi ?s" "holds_given (ca_sso E) fi given" for db d fi
    by (rule shape [where sa = st and sb = ?s and fi = fi]) (use used [OF that(1)] assms(2) that in auto)
  have changed: thesis if "db_rep ?s db = Inr d" "rk = cseq st + 1" "st' = keep_entry rk fi (set_db db d' ?s)"
    "holds_given (ca_sso E) fi given" for db d d' fi
    by (rule shape [where sa = st and sb = "set_db db d' ?s" and fi = fi])
      (use dbs_kept_set_db [OF that(1), of d'] used [OF that(1)] assms(2) that in auto)
  show ?thesis
    using assms(1)
  proof cases
    case (open_call dir db err db' err')
    show ?thesis
      by (rule open_shape [OF assms(2) open_call(2)]) (use open_call(1) shape in blast)+
  next
    case (get_call db key val err val' err')
    then show ?thesis by (simp add: ndb_get_def next_key_def)
  next
    case (multi_call db keys vals errs)
    show ?thesis by (rule multi_holds [OF multi_call(2)]) (use multi_call(1) plain in blast)
  next
    case (update_call db putKvs dels err err')
    then obtain ks vs d d' serr where u: "put_pairs putKvs = Inr (ks, vs)" "db_rep ?s db = Inr d"
      "Ndb_update (ca_rocks E) d ks vs dels [] = Inr (d', serr)"
      by (auto simp: ndb_update_def next_key_def res_bind_Inr_iff)
    obtain b err1 fi where s: "ndb_str_to_slice (ca_sso E) (bytes_of serr) err new_freeinfo = (b, err1, fi)" by (metis prod_cases3)
    have "rk = cseq st + 1" "err' = err1" "st' = keep_entry rk fi (set_db db d' ?s)"
      using update_call(2) u by (auto simp: ndb_update_def next_key_def s)
    then show ?thesis
      using changed [OF u(2)] str_to_slice_kept [OF s] update_call(1) by (simp add: holds_given_def)
  next
    case (query_call db seekpos1 seekpos2 kindid shapeid ancestorOnly withCursor op offset limit results err results' num err')
    show ?thesis by (rule query_holds [OF query_call(2)]) (use query_call(1) plain in blast)
  next
    case (incr_call db key incr delta initVal nextVal err v err')
    then obtain d where d: "db_rep ?s db = Inr d"
      by (auto simp: ndb_incr_decr_def next_key_def res_bind_Inr_iff)
    obtain d' v1 serr where u: "Ndb_incrdecr (ca_codec64 E) (ca_rocks E) d key incr delta initVal (nextVal, []) = (d', v1, serr)"
      by (metis prod_cases3)
    obtain b err1 fi where s: "ndb_str_to_slice (ca_sso E) (bytes_of serr) err new_freeinfo = (b, err1, fi)" by (metis prod_cases3)
    have "rk = cseq st + 1" "err' = err1" "st' = keep_entry rk fi (set_db db d' ?s)"
      using incr_call(2) d u by (auto simp: ndb_incr_decr_def next_key_def s)
    then show ?thesis
      using changed [OF d] str_to_slice_kept [OF s] incr_call(1) by (simp add: holds_given_def)
  qed
qed

lemma release_keeps:
  assumes "ndb_release reqkeys num st = Inr st'"
  shows "once st' = once st" "inited st' = inited st" "cseq st' = cseq st" "length (cdbs st') = length (cdbs st)"
    "mfree st' \<subseteq>\<^sub>m mfree st"
proof -
  have e: "once (erase_entry rk st) = once st" "inited (erase_entry rk st) = inited st"
    "cseq (erase_entry rk st) = cseq st" "length (cdbs (erase_entry rk st)) = length (cdbs st)"
    "mfree (erase_entry rk st) \<subseteq>\<^sub>m mfree st" for rk and st :: "('a, 'b) capi"
    by (auto simp: erase_entry_def map_le_def split: option.splits)
  show "once st' = once st" "inited st' = inited st" "cseq st' = cseq st" "length (cdbs st') = length (cdbs st)"
    "mfree st' \<subseteq>\<^sub>m mfree st"
    using assms by (induction reqkeys num st rule: ndb_release.induct) (auto simp: e intro: map_le_trans [OF _ e(5)])
qed

definition capi_inv :: "nat \<Rightarrow> ('w, 'd) capi \<Rightarrow> bool" where
  "capi_inv n st \<longleftrightarrow> (once st \<longrightarrow> inited st \<and> unat (cseq st) \<le> n + 1)
     \<and> (\<not> once st \<longrightarrow> cdbs st = [] \<and> mfree st = Map.empty)
     \<and> (\<forall>rk \<in> dom (mfree st). unat rk \<le> unat (cseq st))"

text \<open>The next key is in use by no entry, as long as the counter has not come round.\<close>

lemma capi_call_fresh:
  assumes "capi_call E st rk given st'" "capi_inv n st" "n + 2 < 2 ^ 32"
  shows "mfree st rk = None \<and> (\<exists>fi. mfree st' = (mfree st)(rk \<mapsto> fi) \<and> holds_given (ca_sso E) fi given) \<and> dbs_kept (cdbs st) (cdbs st')"
    "capi_inv (Suc n) st'"
proof -
  have inv: "once st \<Longrightarrow> inited st" "\<not> once st \<Longrightarrow> cdbs st = []" using assms(2) by (auto simp: capi_inv_def)
  obtain sa sb fi where s: "sa = st \<and> once st \<or> sa = (ndb_once_init E st)\<lparr>once := True\<rparr> \<and> \<not> once st"
    "rk = cseq sa + 1" "st' = keep_entry rk fi sb" "mfree sb = mfree sa" "cseq sb = rk" "once sb" "inited sb"
    "dbs_kept (cdbs sa) (cdbs sb)" "holds_given (ca_sso E) fi given"
    by (rule capi_call_shape [OF assms(1) inv])
  have sa: "mfree sa = mfree st" "cdbs sa = cdbs st" "unat (cseq sa) \<le> n + 1"
    "\<forall>rk \<in> dom (mfree st). unat rk \<le> unat (cseq sa)"
    using s(1) assms(2) by (auto simp: capi_inv_def ndb_once_init_def Let_def)
  have u: "unat rk = unat (cseq sa) + 1"
    unfolding s(2) using sa(3) assms(3) by (subst unat_add_lem [THEN iffD1]) simp_all
  then have f: "mfree st rk = None" using sa(4) by (metis Suc_eq_plus1 domIff not_less_eq_eq order_refl)
  then have k: "st' = sb\<lparr>mfree := (mfree st)(rk \<mapsto> fi)\<rparr>"
    using keep_fresh [of sb rk fi] s(3,4) sa(1) by simp
  show "mfree st rk = None \<and> (\<exists>fi. mfree st' = (mfree st)(rk \<mapsto> fi) \<and> holds_given (ca_sso E) fi given) \<and> dbs_kept (cdbs st) (cdbs st')"
    using f k s(8,9) sa(2) by auto
  show "capi_inv (Suc n) st'"
    unfolding capi_inv_def
  proof (intro conjI impI ballI)
    fix rk' assume "rk' \<in> dom (mfree st')"
    then have "rk' = rk \<or> rk' \<in> dom (mfree st)" using k by (auto split: if_splits)
    moreover have "unat rk' \<le> unat (cseq sa)" if "rk' \<in> dom (mfree st)" using sa(4) that by blast
    ultimately have "unat rk' \<le> unat rk" using u by (elim disjE) simp_all
    then show "unat rk' \<le> unat (cseq st')" using k s(5) by simp
  qed (use k s(5-7) sa(3) u in simp_all)
qed

lemma capi_run_inv:
  assumes "capi_run E n st" "n + 1 < 2 ^ 32"
  shows "capi_inv n st"
  using assms
proof (induction rule: capi_run.induct)
  case (call n st rk given st')
  then show ?case using capi_call_fresh(2) [OF call.hyps(2)] by simp
next
  case (release n st reqkeys num st')
  then show ?case
    using release_keeps [OF release.hyps(2)] by (auto simp: capi_inv_def map_le_def dest: domIff [THEN iffD2]) (metis domI domIff)+
qed (simp add: capi_inv_def)

section \<open>Properties\<close>

text \<open>
  C20. Lifetimes: as long as fewer than 2^32 - 2 calls were made, a call of the library gives a key that no
  entry has, and the entry it makes under this key holds what the call gives: the characters of every slice (other than a string
  short enough to be in itself, for which nothing is kept), and the arrays of slices of \<^verbatim>\<open>ndb_get_multi\<close> and \<^verbatim>\<open>ndb_query\<close>.
  Every other entry stays as it is, and no database is deleted; only \<^verbatim>\<open>ndb_release\<close> removes entries.
\<close>

theorem results_live:
  assumes "capi_run E n st" "n + 2 < 2 ^ 32" "capi_call E st rk given st'"
  shows "mfree st rk = None \<and> (\<exists>fi. mfree st' = (mfree st)(rk \<mapsto> fi) \<and> holds_given (ca_sso E) fi given)
    \<and> (\<forall>i < length (cdbs st). cdbs st' ! i = None \<longleftrightarrow> cdbs st ! i = None)"
  using capi_call_fresh(1) [OF assms(3) capi_run_inv [OF assms(1)] assms(2)] assms(2)
  by (auto simp: dbs_kept_def)

definition demo_capi :: "(string list, mem_db, mem_it) capi_env" where
  "demo_capi = \<lparr>ca_ram = 0, ca_cores = 1, ca_open = (\<lambda>w opt dir. (st_OK, Some [], w)), ca_rocks = mem_rocks,
     ca_codec64 = be64, ca_sso = 15\<rparr>"

definition capi0 :: "(string list, mem_db) capi" where
  "capi0 = \<lparr>cseq = 0, mfree = Map.empty, once = False, inited = False, ccache = 0,
     copts = \<lparr>c_create_if_missing = False, c_max_background_compactions = 0, c_max_background_flushes = 0,
       c_write_buffer_size = 0\<rparr>, cdbs = [], cw = []\<rparr>"

text \<open>Two values are read, one of them long.\<close>

theorem results_live_witness:
  "\<exists>st st' errs fi. ndb_get_multi (demo_capi\<lparr>ca_open := (\<lambda>w opt dir. (st_OK, Some [Put [1] (replicate 16 8)], w))\<rparr>) (Some 0) [[1], [2]] st = Inr (3, [Owned (replicate 16 8), Dangling 0], errs, st')
     \<and> mfree st' 3 = Some fi \<and> replicate 16 8 \<in> set (fstrings fi) \<union> set (farrBytes fi)"
proof -
  let ?E = "demo_capi\<lparr>ca_open := (\<lambda>w opt dir. (st_OK, Some [Put [1] (replicate 16 8)], w))\<rparr>"
  obtain db st where o: "ndb_open ?E [] None Unset capi0 = (2, db, Unset, st)" "cdbs st = [Some [Put [1] (replicate 16 8)]]" "cseq st = 2"
    by (simp add: ndb_open_def ndb_init_def ndb_once_init_def demo_capi_def capi0_def next_key_def st_OK_def keep_fresh)
  have "capi_run ?E 0 capi0" by (rule capi_run.start) (simp_all add: capi0_def)
  then have run: "capi_run ?E 1 st" using capi_run.call [OF _ capi_call.open_call [OF o(1)]] by simp
  obtain errs st' where m: "ndb_get_multi ?E (Some 0) [[1], [2]] st = Inr (3, [Owned (replicate 16 8), Dangling 0], errs, st')"
    by (simp add: ndb_get_multi_def next_key_def db_rep_def o Ndb_gets_def demo_capi_def mem_get_def mem_entries_def
        string_slice_def Let_def)
  obtain fi where "mfree st' 3 = Some fi" "holds_given (ca_sso ?E) fi ([], [[Owned (replicate 16 8), Dangling 0], errs])"
    using results_live [OF run _ capi_call.multi_call [OF m]] by auto
  then show ?thesis using m by (auto simp: holds_given_def kept_slice_def)
qed

text \<open>
  A program that opens a database, and then makes calls whose keys it releases at once: updates without puts and deletes.
\<close>

definition only_first :: "('w, 'd) capi \<Rightarrow> bool" where
  "only_first st \<longleftrightarrow> once st \<and> inited st \<and> (\<exists>d. cdbs st = [Some d]) \<and> dom (mfree st) = {2}
     \<and> map_option fdb (mfree st 2) = Some (Some 0)"

lemma str_to_slice_fdb: "ndb_str_to_slice sso src dest rkv = (b, dest', rkv') \<Longrightarrow> fdb rkv' = fdb rkv"
  by (auto simp: ndb_str_to_slice_def split: if_splits)

lemma empty_update:
  assumes "cdbs st = [Some d]"
  obtains err d' fi where "ndb_update E (Some 0) [] [] Unset st =
      Inr (cseq st + 1, err, keep_entry (cseq st + 1) fi (st\<lparr>cseq := cseq st + 1, cdbs := [Some d']\<rparr>))" "fdb fi = None"
proof -
  obtain s d' where w: "db_write (ca_rocks E) d [] = (s, d')" by fastforce
  obtain b err fi where "ndb_str_to_slice (ca_sso E) (bytes_of (if st_ok s then [] else st_string s)) Unset new_freeinfo = (b, err, fi)"
    by (metis prod_cases3)
  then show ?thesis
    using that [of err fi d'] str_to_slice_fdb [of _ _ _ new_freeinfo] assms w
    by (auto simp: ndb_update_def next_key_def db_rep_def Ndb_update_def set_db_def new_freeinfo_def)
qed

lemma many_calls:
  assumes "capi_run E 1 st" "only_first st" "cseq st = 2" "k < 2 ^ 32"
  shows "\<exists>st'. capi_run E (Suc k) st' \<and> only_first st' \<and> cseq st' = 2 + of_nat k"
  using assms(4)
proof (induction k)
  case (Suc k)
  then obtain st1 where st1: "capi_run E (Suc k) st1" "only_first st1" "cseq st1 = 2 + of_nat k" by auto
  obtain d where d: "cdbs st1 = [Some d]" using st1(2) by (auto simp: only_first_def)
  define rk where "rk = cseq st1 + 1"
  obtain err d' fi where u: "ndb_update E (Some 0) [] [] Unset st1 =
      Inr (rk, err, keep_entry rk fi (st1\<lparr>cseq := rk, cdbs := [Some d']\<rparr>))" "fdb fi = None"
    unfolding rk_def by (rule empty_update [OF d])
  have "of_nat (Suc k) \<noteq> (0 :: u32)" using Suc.prems by (simp only: word_of_nat_eq_0_iff) (auto dest: dvd_imp_le)
  then have key: "rk \<noteq> 2" using st1(3) by (simp add: rk_def algebra_simps)
  define st2 where "st2 = st1\<lparr>cseq := rk, cdbs := [Some d']\<rparr>"
  have "mfree st1 rk = None" using st1(2) key by (auto simp: only_first_def)
  then have "ndb_release [rk] (Suc 0) (keep_entry rk fi st2) = Inr st2"
    using u(2) by (simp add: keep_fresh st2_def erase_entry_def fun_upd_idem)
  then have "capi_run E (Suc (Suc k)) st2"
    by (rule capi_run.release [OF capi_run.call [OF st1(1) capi_call.update_call [OF u(1)]], folded st2_def])
  moreover have "only_first st2" using st1(2) key u(2) by (auto simp: only_first_def st2_def)
  ultimately show ?case using st1(3) by (intro exI [of _ st2]) (simp add: st2_def rk_def)
qed (use assms in auto)

text \<open>
  C21. The bound on the keys is sharp: whatever the environment, a program that opens a database and then makes 2^32 - 1
  calls whose keys it releases at once, so that only the entry of \<^verbatim>\<open>ndb_open\<close> is kept, gets the key of this entry
  from its next call, which replaces the entry: the open database is deleted although its key was never released.
\<close>

theorem keys_wrap:
  assumes "\<not> once st0" "cdbs st0 = []" "mfree st0 = Map.empty"
    and "ca_open E (cw st0) (copts (ndb_init E st0)) dir = (s, Some d, w)" "st_ok s"
  shows "\<exists>st1 st given st'. ndb_open E dir db err st0 = (2, Some 0, err, st1)
    \<and> capi_run E (2 ^ 32) st \<and> (\<exists>d. cdbs st = [Some d]) \<and> dom (mfree st) = {2} \<and> capi_call E st 2 given st' \<and> cdbs st' = [None]"
proof -
  obtain st1 where o: "ndb_open E dir db err st0 = (2, Some 0, err, st1)" "only_first st1" "cseq st1 = 2"
    using assms by (auto simp: ndb_open_def ndb_init_def ndb_once_init_def Let_def next_key_def keep_entry_def erase_entry_def
        only_first_def new_freeinfo_def)
  have "capi_run E 1 st1"
    using capi_run.call [OF capi_run.start [OF assms(1-3)] capi_call.open_call [OF o(1)]] by simp
  then obtain st where st: "capi_run E (2 ^ 32) st" "only_first st" "cseq st + 1 = 2"
    using many_calls [OF _ o(2,3), of E "2 ^ 32 - 1"] by auto
  obtain d where d: "cdbs st = [Some d]" using st(2) by (auto simp: only_first_def)
  obtain err' d' fi where u: "ndb_update E (Some 0) [] [] Unset st =
      Inr (2, err', keep_entry 2 fi (st\<lparr>cseq := 2, cdbs := [Some d']\<rparr>))"
    by (rule empty_update [OF d, unfolded st(3)])
  have "cdbs (keep_entry 2 fi (st\<lparr>cseq := 2, cdbs := [Some d']\<rparr>)) = [None]"
    using st(2) by (auto simp: only_first_def keep_entry_def erase_entry_def)
  moreover have "dom (mfree st) = {2}" using st(2) by (auto simp: only_first_def)
  ultimately show ?thesis using o(1) st(1) d capi_call.update_call [OF u] by blast
qed

theorem keys_wrap_witness:
  "\<exists>st given st'. capi_run demo_capi (2 ^ 32) st \<and> (\<exists>d. cdbs st = [Some d]) \<and> capi_call demo_capi st 2 given st' \<and> cdbs st' = [None]"
proof -
  have s: "\<not> once capi0" "cdbs capi0 = []" "mfree capi0 = Map.empty" "st_ok st_OK"
    "ca_open demo_capi (cw capi0) (copts (ndb_init demo_capi capi0)) [] = (st_OK, Some [], [])"
    by (simp_all add: capi0_def demo_capi_def)
  from keys_wrap [OF s(1-3) s(5,4), of None Unset] show ?thesis by blast
qed

text \<open>
  C37. Short values: \<^verbatim>\<open>ndb_get_multi\<close> takes the pointers of its results before the strings are
  moved to where they are kept.  The result of a stored key is what is stored if that is longer than a
  string holds in itself, and otherwise points into a string that is gone.
\<close>

theorem multi_short_values:
  assumes "db_laws (ca_rocks E) cont snap pos" "db_rep st db = Inr d"
    and "ndb_get_multi E db keys st = Inr (rk, vals, errs, st')"
  shows "length vals = length keys \<and> (\<forall>i < length keys. \<forall>v. map_of (cont d) (keys ! i) = Some v \<longrightarrow>
    vals ! i = (if length v \<le> ca_sso E then Dangling (length v) else Owned v))"
proof -
  have lawful: "lawful_db (ca_rocks E) cont snap pos" by unfold_locales (rule assms(1))
  have g: "fst (Ndb_gets (ca_rocks E) d keys []) = map (\<lambda>k. snd (db_get (ca_rocks E) d k)) keys"
    by (subst lawful_db.gets_eq [OF lawful]) simp
  have vals: "vals = map (string_slice (ca_sso E)) (take (length keys) (fst (Ndb_gets (ca_rocks E) d keys [])))"
    using assms(3,2) by (auto simp: ndb_get_multi_def next_key_def Let_def split_beta split: if_splits)
  then show ?thesis
    using db_lawsD(4) [OF assms(1)] unfolding g by (simp add: string_slice_def)
qed

theorem multi_short_values_witness:
  "\<exists>rk vals errs st'. ndb_get_multi demo_capi (Some 0) [[1], [2]] (capi0\<lparr>cdbs := [Some [Put [1] [7], Put [2] (replicate 16 8)]]\<rparr>) =
      Inr (rk, vals, errs, st') \<and> vals ! 0 = Dangling 1 \<and> vals ! 1 = Owned (replicate 16 8)"
proof -
  let ?d = "[Put [1] [7], Put [2] (replicate 16 8)]"
  let ?st = "capi0\<lparr>cdbs := [Some ?d]\<rparr>"
  have e: "map_of (mem_entries ?d) [1] = Some [7]" "map_of (mem_entries ?d) [2] = Some (replicate 16 8)"
    by (simp_all add: mem_entries_def)
  have d: "db_rep ?st (Some 0) = Inr ?d" by (simp add: db_rep_def)
  obtain rk vals errs st' where m: "ndb_get_multi demo_capi (Some 0) [[1], [2]] ?st = Inr (rk, vals, errs, st')"
    by (simp add: ndb_get_multi_def next_key_def db_rep_def demo_capi_def capi0_def Ndb_gets_def Let_def)
  have "db_laws (ca_rocks demo_capi) mem_entries mem_snap mem_pos" by (simp add: demo_capi_def mem_db_laws)
  from multi_short_values [OF this d m] m e show ?thesis
    by (fastforce simp: demo_capi_def nth_Cons')
qed

text \<open>
  C30. Rows of a query: on a lawful database whose keys have at least two bytes and the length of the end position, with a filter
  operator that exists and a seek position that is not empty, \<^verbatim>\<open>ndb_query\<close> gives its caller exactly the entities
  that the specification of the query lists (those that are not empty), each a copy that is kept under the key it
  returns, whatever its length; it changes no database.
\<close>

theorem capi_query_rows:
  assumes "db_laws (ca_rocks E) cont snap pos" "db_rep st db = Inr d" "seekpos1 \<noteq> []"
    and "query_plan seekpos2 ancestorOnly withCursor lastFilterOp = Inr p"
    and "\<forall>k \<in> set (map fst (cont d)). row_ok p k"
    and "rows = filter (\<lambda>e. e \<noteq> []) (query_results p seekpos1 kindid shapeid offset limit (map fst (cont d)))"
    and "mfree st (cseq st + 1) = None"
  shows "\<exists>st'. ndb_query E db seekpos1 seekpos2 kindid shapeid ancestorOnly withCursor lastFilterOp offset limit results err st =
      Some (Inr (cseq st + 1, if rows = [] then results else Some (map Owned rows), length rows, err, st'))
    \<and> cdbs st' = cdbs st \<and> map_option farrBytes (mfree st' (cseq st + 1)) = Some rows"
proof -
  have f: "fold (\<lambda>sl sls. if sl = [] then sls else sls @ [sl]) xs s = s @ filter (\<lambda>e. e \<noteq> []) xs"
    for xs s :: "bytes list"
    by (induction xs arbitrary: s) auto
  show ?thesis
    using Ndb_query_spec [OF assms(1,3-5), of kindid shapeid offset limit "\<lambda>sl sls. if sl = [] then sls else sls @ [sl]" "[]" "[]"]
    by (simp add: ndb_query_def next_key_def assms(2) f assms(6) bytes_of_def Let_def ndb_str_to_slice_def keep_fresh assms(7))
qed

theorem capi_query_rows_witness:
  "\<exists>st'. ndb_query demo_capi (Some 0) [0x20, 5] [] 0 0 False True (QueryFilterOp_val F_LTE) 0 5 None Unset
      (capi0\<lparr>cdbs := [Some [Put [0x20, 1, 0] [7], Put [0x20, 5, 2] [8], Put [0x20, 9, 2] [9]]]\<rparr>) =
     Some (Inr (1, Some [Owned [0x20, 5, 2]], 1, Unset, st'))"
proof -
  let ?d = "[Put [0x20, 1, 0] [7], Put [0x20, 5, 2] [8], Put [0x20, 9, 2] [9]]"
  let ?st = "capi0\<lparr>cdbs := [Some ?d]\<rparr>"
  have l: "db_laws (ca_rocks demo_capi) mem_entries mem_snap mem_pos" by (simp add: demo_capi_def mem_db_laws)
  have d: "db_rep ?st (Some 0) = Inr ?d" by (simp add: db_rep_def)
  show ?thesis
    using capi_query_rows [OF l d, of "[0x20, 5]" "[]" False True "QueryFilterOp_val F_LTE" _ _ 0 0 0 5 None Unset,
        OF _ query_plan_simps(5)]
    by (auto simp: query_eval query_results_def visit_def seek_index_def skip_rows_def row_in_range_def capi0_def)
qed

lemma put_pairs_concat: "put_pairs (concat (map (\<lambda>(k, v). [k, v]) kvs)) = Inr (map fst kvs, map snd kvs)"
  by (induction kvs) auto

lemma set_db_at: "db_rep st db = Inr d \<Longrightarrow> db_rep (set_db db d' st) db = Inr d'"
  by (auto simp: db_rep_def set_db_def split: option.splits if_splits)

lemma db_rep_mfree [simp]: "db_rep (st\<lparr>mfree := f\<rparr>) db = db_rep st db"
  by (simp add: db_rep_def split: option.split)

text \<open>
  C19. Reading back through the C interface: \<^verbatim>\<open>ndb_update\<close> on a database that takes its writes reports no
  error, and a following \<^verbatim>\<open>ndb_get_multi\<close> finds, for every key that is then there, the value of its
  last put (of before, if it was not put), and reports the not-found error for every key that was deleted or never
  there.  What its caller gets of a value or a message that is longer than a string holds in itself is its bytes; of a shorter
  one only the length, because the pointer is to a string that is gone.
\<close>

theorem capi_read_back:
  assumes "db_laws (ca_rocks E) cont snap pos" "writes_succeed (ca_rocks E)" "db_rep st db = Inr d"
    and "mfree st (cseq st + 1) = None" "mfree st (cseq st + 2) = None"
  shows "\<exists>st1 st2 vals errs.
      ndb_update E db (concat (map (\<lambda>(k, v). [k, v]) kvs)) dels err st = Inr (cseq st + 1, err, st1)
    \<and> ndb_get_multi E db keys st1 = Inr (cseq st + 2, vals, errs, st2)
    \<and> length vals = length keys \<and> length errs = length keys
    \<and> (\<forall>i < length keys. case (if keys ! i \<in> set dels then None else (map_of (cont d) ++ map_of (rev kvs)) (keys ! i)) of
         Some v \<Rightarrow> vals ! i = (if length v \<le> ca_sso E then Dangling (length v) else Owned v) \<and> errs ! i = Dangling 0
       | None \<Rightarrow> errs ! i = string_slice (ca_sso E) (bytes_of NOT_FOUND_ERROR))"
proof -
  let ?R = "ca_rocks E" and ?S = "string_slice (ca_sso E)"
  have empty: "?S [] = Dangling 0" by (simp add: string_slice_def)
  have lawful: "lawful_db ?R cont snap pos" by unfold_locales (rule assms(1))
  define b where "b = \<lparr>putkeys = map fst kvs, putvalues = map snd kvs, delkeys = dels\<rparr>"
  define d' where "d' = snd (db_write ?R d (batch_ops b))"
  have new: "map_of (cont d') k = (if k \<in> set dels then None else (map_of (cont d) ++ map_of (rev kvs)) k)" for k
    using batch_stored [OF assms(1,2), of d b k]
    by (simp add: d'_def b_def zip_map_fst_snd map_add_def split: option.split)
  let ?st1 = "(set_db db d' (st\<lparr>cseq := cseq st + 1\<rparr>))\<lparr>mfree := (mfree st)(cseq st + 1 \<mapsto> new_freeinfo)\<rparr>"
  have u: "ndb_update E db (concat (map (\<lambda>(k, v). [k, v]) kvs)) dels err st = Inr (cseq st + 1, err, ?st1)"
    using Ndb_update_ok [OF assms(2), of b d]
    by (simp add: ndb_update_def next_key_def put_pairs_concat assms(3) b_def d'_def bytes_of_def ndb_str_to_slice_def
        keep_fresh assms(4))
  have rep: "db_rep (set_db db d' (st\<lparr>cseq := cseq st + 1\<rparr>)) db = Inr d'"
    by (rule set_db_at) (simp add: assms(3))
  have g: "Ndb_gets ?R d' keys [] = (map (\<lambda>k. snd (db_get ?R d' k)) keys, map (\<lambda>k. snd (Ndb_get ?R d' k ([], []))) keys)"
    by (rule lawful_db.gets_eq [OF lawful])
  let ?vals = "map (\<lambda>k. ?S (snd (db_get ?R d' k))) keys"
  let ?errs = "map (\<lambda>k. ?S (bytes_of (snd (Ndb_get ?R d' k ([], []))))) keys"
  obtain st2 where m: "ndb_get_multi E db keys ?st1 = Inr (cseq st + 2, ?vals, ?errs, st2)"
    by (simp add: ndb_get_multi_def next_key_def rep g Let_def comp_def add.assoc)
  have r: "case (if k \<in> set dels then None else (map_of (cont d) ++ map_of (rev kvs)) k) of
         Some v \<Rightarrow> ?S (snd (db_get ?R d' k)) = ?S v \<and> ?S (bytes_of (snd (Ndb_get ?R d' k ([], [])))) = ?S []
       | None \<Rightarrow> ?S (bytes_of (snd (Ndb_get ?R d' k ([], [])))) = ?S (bytes_of NOT_FOUND_ERROR)" for k
    unfolding new [symmetric] lawful_db.get_eq [OF lawful]
    using db_lawsD(4) [OF assms(1), of d' k] by (simp add: bytes_of_def split: option.split)
  show ?thesis
    unfolding string_slice_def [of _ "_ :: bytes", symmetric] empty [symmetric]
    by (intro exI [of _ ?st1] exI [of _ st2] exI [of _ ?vals] exI [of _ ?errs] conjI allI impI u m length_map)
      (simp only: nth_map r)
qed

theorem capi_read_back_witness:
  "\<exists>st1 st2 vals errs. ndb_update demo_capi (Some 0) (concat (map (\<lambda>(k, v). [k, v]) [([1], replicate 16 8)])) [[2]] Unset
       (capi0\<lparr>cdbs := [Some [Put [2] [9]]]\<rparr>) = Inr (1, Unset, st1)
     \<and> ndb_get_multi demo_capi (Some 0) [[1], [2]] st1 = Inr (2, vals, errs, st2)
     \<and> vals ! 0 = Owned (replicate 16 8) \<and> errs ! 1 = Owned (bytes_of NOT_FOUND_ERROR)"
proof -
  let ?st = "capi0\<lparr>cdbs := [Some [Put [2] [9]]]\<rparr>"
  have l: "db_laws (ca_rocks demo_capi) mem_entries mem_snap mem_pos" "writes_succeed (ca_rocks demo_capi)"
    by (simp_all add: demo_capi_def mem_db_laws demo_server_laws)
  have d: "db_rep ?st (Some 0) = Inr [Put [2] [9]]" by (simp add: db_rep_def)
  show ?thesis
    using capi_read_back [OF l d, of "[([1], replicate 16 8)]" "[[2]]" Unset "[[1], [2]]"]
    by (fastforce simp: capi0_def demo_capi_def string_slice_def bytes_of_def NOT_FOUND_ERROR_def nth_Cons')
qed

end
