(* ===== verification/OldCapi.thy ===== *)
theory OldCapi
  imports Capi
begin

text \<open>
  \<^verbatim>\<open>c.h\<close> and \<^verbatim>\<open>c.cc\<close>, the earlier C interface; the makefile no longer names it.  It is \<^verbatim>\<open>ndb-c.cc\<close> but
  for two things: its loops count with an \<^verbatim>\<open>int\<close>, and it hands \<^verbatim>\<open>Ndb\<close> pointers to strings that start as null.
  The operations where this shows are here; the initialisation, the keys and \<^verbatim>\<open>ndb_open\<close> are
  the same text as in \<^verbatim>\<open>ndb-c.cc\<close> and those of the theory \<open>Capi\<close>.

  The class \<^verbatim>\<open>Ndb\<close> of that time is not in the repository and a parameter, of which nothing is assumed: what its operations
  do, with the strings that the pointers of the caller point to afterwards (\<open>None\<close> for a null pointer; whether an operation could
  set them at all depends on its signature).  \<^verbatim>\<open>gets\<close> is called as it is now and is that of \<open>Store\<close>.
\<close>

section \<open>The earlier Ndb\<close>

record 'd old_ndb =
  on_get :: "'d \<Rightarrow> bytes \<Rightarrow> bytes option \<times> bytes option"
  on_update :: "'d \<Rightarrow> bytes list \<Rightarrow> bytes list \<Rightarrow> bytes list \<Rightarrow> ('d \<times> bytes option) res"
  on_query :: "'d \<Rightarrow> bytes \<Rightarrow> bytes \<Rightarrow> u8 \<Rightarrow> u8 \<Rightarrow> bool \<Rightarrow> bool \<Rightarrow> u8 \<Rightarrow> nat \<Rightarrow> nat \<Rightarrow> (bytes list \<times> bytes option) res option"
  on_incrdecr :: "'d \<Rightarrow> bytes \<Rightarrow> bool \<Rightarrow> u16 \<Rightarrow> u16 \<Rightarrow> u64 \<Rightarrow> 'd \<times> u64 \<times> bytes option"

section \<open>Loops with an int\<close>


definition int_loop :: "'a list \<Rightarrow> unit res" where
  "int_loop xs = (if int (length xs) \<le> int_max then Inr () else Inl IntOverflow)"


section \<open>The calls\<close>

text \<open>
  The string behind the pointer is moved as well: the characters of a short one are copied and the string it leaves is
  empty, so the slice taken before has only its length left.
\<close>

definition old_str_to_slice :: "nat \<Rightarrow> bytes option \<Rightarrow> cslice \<Rightarrow> freeinfo \<Rightarrow> bool \<times> cslice \<times> freeinfo" where
  "old_str_to_slice sso src dest rkv = (case src of
      None \<Rightarrow> (False, dest, rkv)
    | Some s \<Rightarrow>
        if length s = 0 then (False, dest, rkv)
        else (True, string_slice sso s, rkv\<lparr>fstrings := fstrings rkv @ [s]\<rparr>))"


definition old_get ::
    "('w, 'd, 'it) capi_env \<Rightarrow> 'd old_ndb \<Rightarrow> nat option \<Rightarrow> bytes \<Rightarrow> cslice \<Rightarrow> cslice \<Rightarrow> ('w, 'd) capi \<Rightarrow>
     (u32 \<times> cslice \<times> cslice \<times> ('w, 'd) capi) res" where
  "old_get E N db key val err st =
     (let (rk, st) = next_key st in
      res_bind (db_rep st db) (\<lambda>d.
        let (sval, serr) = on_get N d key;
            (_, err, rkv) = old_str_to_slice (ca_sso E) serr err new_freeinfo;
            (_, val, rkv) = old_str_to_slice (ca_sso E) sval val rkv
        in Inr (rk, val, err, keep_entry rk rkv st)))"

definition old_update ::
    "('w, 'd, 'it) capi_env \<Rightarrow> 'd old_ndb \<Rightarrow> nat option \<Rightarrow> bytes list \<Rightarrow> bytes list \<Rightarrow> cslice \<Rightarrow> ('w, 'd) capi \<Rightarrow>
     (u32 \<times> cslice \<times> ('w, 'd) capi) res" where
  "old_update E N db putKvs dels err st =
     (let (rk, st) = next_key st in
      res_bind (int_loop putKvs) (\<lambda>_.
      res_bind (put_pairs putKvs) (\<lambda>(putkeys, putvalues).
      res_bind (int_loop dels) (\<lambda>_.
      res_bind (db_rep st db) (\<lambda>d.
      res_bind (on_update N d putkeys putvalues dels) (\<lambda>(d, serr).
        let (_, err, rkv) = old_str_to_slice (ca_sso E) serr err new_freeinfo
        in Inr (rk, err, keep_entry rk rkv (set_db db d st))))))))"

definition old_query ::
    "('w, 'd, 'it) capi_env \<Rightarrow> 'd old_ndb \<Rightarrow> nat option \<Rightarrow> bytes \<Rightarrow> bytes \<Rightarrow> u8 \<Rightarrow> u8 \<Rightarrow> bool \<Rightarrow> bool \<Rightarrow> u8 \<Rightarrow>
     nat \<Rightarrow> nat \<Rightarrow> cslice list option \<Rightarrow> cslice \<Rightarrow> ('w, 'd) capi \<Rightarrow>
     (u32 \<times> cslice list option \<times> nat \<times> cslice \<times> ('w, 'd) capi) res option" where
  "old_query E N db seekpos1 seekpos2 kindid shapeid ancestorOnly withCursor lastFilterOp offset limit results err st =
     (let (rk, st) = next_key st in
      case db_rep st db of
        Inl f \<Rightarrow> Some (Inl f)
      | Inr d \<Rightarrow>
          run_bind (on_query N d seekpos1 seekpos2 kindid shapeid ancestorOnly withCursor
              lastFilterOp offset limit) (\<lambda>(rows, serr).
            let sls = filter (\<lambda>sl. sl \<noteq> []) rows;
                (_, err, rkv) = old_str_to_slice (ca_sso E) serr err new_freeinfo;
                sl = map Owned sls
            in Some (Inr (rk, if sls = [] then results else Some sl, length sls, err,
                 keep_entry rk (rkv\<lparr>farrBytes := sls, fsliceBytes := sl\<rparr>) st))))"

definition old_incr_decr ::
    "('w, 'd, 'it) capi_env \<Rightarrow> 'd old_ndb \<Rightarrow> nat option \<Rightarrow> bytes \<Rightarrow> bool \<Rightarrow> u16 \<Rightarrow> u16 \<Rightarrow> u64 \<Rightarrow> cslice \<Rightarrow>
     ('w, 'd) capi \<Rightarrow> (u32 \<times> u64 \<times> cslice \<times> ('w, 'd) capi) res" where
  "old_incr_decr E N db key incr delta initVal nextVal err st =
     (let (rk, st) = next_key st in
      res_bind (db_rep st db) (\<lambda>d.
        let (d, nextVal, serr) = on_incrdecr N d key incr delta initVal nextVal;
            (_, err, rkv) = old_str_to_slice (ca_sso E) serr err new_freeinfo
        in Inr (rk, nextVal, err, keep_entry rk rkv (set_db db d st))))"

section \<open>Properties\<close>



end
