(* ===== verification/Server.thy ===== *)
theory Server
  imports Handler
begin

text \<open>
  \<^verbatim>\<open>ndbserver_main.cc\<close>: the command line of the server, the configuration file, and what \<^verbatim>\<open>main\<close>
  does with them; the handlers it gives to the connection manager, a library outside the
  repository, its signal handlers, and its exit code.
\<close>

section \<open>The command line\<close>

text \<open>
  The local variables of \<^verbatim>\<open>main\<close> and the fields of the manager it sets; \<^verbatim>\<open>dbPerKind_\<close> has no
  initialiser, \<open>None\<close> until an option sets it.
\<close>

record startup =
  port :: int
  workers :: int
  clearOnStartup :: bool
  initfile :: string
  st_dbPerKind :: "bool option"
  st_shardMin :: u16
  st_shardRange :: u16

definition startup0 :: startup where
  "startup0 = \<lparr>port = 9999, workers = -1, clearOnStartup = False, initfile = ''init.cfg'',
     st_dbPerKind = None, st_shardMin = 1, st_shardRange = 1\<rparr>"

text \<open>
  \<^verbatim>\<open>memcmp("true", argv[++i], 4) == 0\<close>: four bytes of the argument and its terminator are read,
  whatever its length.
\<close>

definition is_true :: "string \<Rightarrow> bool res" where
  "is_true v = res_bind (memcmp (bytes_of ''true'') (bytes_of v @ [0]) 4) (\<lambda>r. Inr (r = 0))"

text \<open>
  The loop over the arguments, the ones that are left.  \<^verbatim>\<open>argv[argc]\<close> is a null pointer, which an option
  at the end of the line that needs a value reads through.  The result is \<open>None\<close> for \<^verbatim>\<open>-help\<close>, which
  ends the program.  Other arguments are passed over.
\<close>

fun parse_args :: "string list \<Rightarrow> startup \<Rightarrow> startup option res" where
  "parse_args [] st = Inr (Some st)"
| "parse_args (arg # args) st =
     (if arg = ''-p'' \<or> arg = ''-port'' then
        (case args of [] \<Rightarrow> Inl NullDeref
         | v # args' \<Rightarrow> (case stoi v of Inl f \<Rightarrow> Inl f | Inr n \<Rightarrow> parse_args args' (st\<lparr>port := n\<rparr>)))
      else if arg = ''-i'' \<or> arg = ''-initfile'' then
        (case args of [] \<Rightarrow> Inl NullDeref
         | v # args' \<Rightarrow> parse_args args' (st\<lparr>initfile := v\<rparr>))
      else if arg = ''-w'' \<or> arg = ''-workers'' then
        (case args of [] \<Rightarrow> Inl NullDeref
         | v # args' \<Rightarrow> (case stoi v of Inl f \<Rightarrow> Inl f | Inr n \<Rightarrow> parse_args args' (st\<lparr>workers := n\<rparr>)))
      else if arg = ''-k'' \<or> arg = ''-perkind'' then
        (case args of [] \<Rightarrow> Inl NullDeref
         | v # args' \<Rightarrow> (case is_true v of Inl f \<Rightarrow> Inl f
             | Inr b \<Rightarrow> parse_args args' (st\<lparr>st_dbPerKind := Some b\<rparr>)))
      else if arg = ''-s'' \<or> arg = ''-shards'' then
        (case args of [] \<Rightarrow> Inl NullDeref
         | v # args' \<Rightarrow> (case stoi v of Inl f \<Rightarrow> Inl f
             | Inr n \<Rightarrow> (case args' of [] \<Rightarrow> Inl NullDeref
                 | v' # args'' \<Rightarrow> (case stoi v' of Inl f \<Rightarrow> Inl f
                     | Inr n' \<Rightarrow> parse_args args'' (st\<lparr>st_shardMin := word_of_int n, st_shardRange := word_of_int n'\<rparr>)))))
      else if arg = ''-h'' \<or> arg = ''-help'' then Inr None
      else if arg = ''-x'' \<or> arg = ''-clear'' then
        (case args of [] \<Rightarrow> Inl NullDeref
         | v # args' \<Rightarrow> (case is_true v of Inl f \<Rightarrow> Inl f
             | Inr b \<Rightarrow> parse_args args' (st\<lparr>clearOnStartup := b\<rparr>)))
      else parse_args args st)"

section \<open>Startup\<close>

text \<open>
  The manager and the shell commands that are run before the connections are opened.  A
  configuration file that cannot be opened is reported and read as empty.
\<close>

datatype 'd started = Exit int | Serve startup "'d manager" "string list"

definition new_manager :: "options \<Rightarrow> startup \<Rightarrow> bool \<Rightarrow> 'd manager" where
  "new_manager opt0 st junk = config.extend (config0 opt0)
     \<lparr>indexDbs = Map.empty, shardDbs = Map.empty, perkindDbs = Map.empty, dbs = [],
      dbPerKind = (case st_dbPerKind st of None \<Rightarrow> junk | Some b \<Rightarrow> b),
      shardMin = st_shardMin st, shardRange = st_shardRange st\<rparr>"

definition server_start ::
    "options \<Rightarrow> (string \<Rightarrow> string option) \<Rightarrow> bool \<Rightarrow> string list \<Rightarrow> 'd started res" where
  "server_start opt0 files junk argv =
     res_bind (parse_args (tl argv) startup0) (\<lambda>r. case r of
       None \<Rightarrow> Inr (Exit 0)
     | Some st \<Rightarrow>
         res_bind (Manager_load opt0 (case files (initfile st) of None \<Rightarrow> [] | Some s \<Rightarrow> s) (new_manager opt0 st junk)) (\<lambda>m.
           Inr (Serve st m (if clearOnStartup st
             then [''rm -rf '' @ basedir m, ''mkdir -p '' @ basedir m] else []))))"

section \<open>Serving and shutting down\<close>

text \<open>
  The connection manager is a library: what \<^verbatim>\<open>main\<close> calls of it, on a state of its own.  While it
  runs, it goes on (\<open>Progress\<close>), asks for a handler for each worker it starts, and signals come in.
  A handler is its table of connections.
\<close>

record 'c connmgr =
  cm_new :: "int \<Rightarrow> int \<Rightarrow> 'c"
  cm_open :: "'c \<Rightarrow> 'c \<times> string"
  cm_close :: "'c \<Rightarrow> 'c"
  cm_hasServerErrors :: "'c \<Rightarrow> bool"

datatype signal = SIGINT | SIGTERM | SIGUSR1 | SIGUSR2

datatype 'c event = Progress "'c \<Rightarrow> 'c" | Worker | Signal signal

text \<open>\<open>s_connmgr\<close> is \<^verbatim>\<open>connmgr_\<close>, false for a null pointer.  A signal runs its handler to the end.\<close>

record ('c, 'h) serving =
  s_connmgr :: bool
  conn_mgr :: 'c
  hdlrs :: "(int \<rightharpoonup> 'h) list"

definition sighdlr :: "'c connmgr \<Rightarrow> ('c, 'h) serving \<Rightarrow> ('c, 'h) serving" where
  "sighdlr L st = (if s_connmgr st then st\<lparr>conn_mgr := cm_close L (conn_mgr st), s_connmgr := False\<rparr> else st)"

fun on_signal :: "'c connmgr \<Rightarrow> signal \<Rightarrow> ('c, 'h) serving \<Rightarrow> ('c, 'h) serving" where
  "on_signal L SIGINT st = sighdlr L st"
| "on_signal L SIGTERM st = sighdlr L st"
| "on_signal L SIGUSR1 st = st"
| "on_signal L SIGUSR2 st = st"

definition new_handler :: "('c, 'h) serving \<Rightarrow> ('c, 'h) serving" where
  "new_handler st = st\<lparr>hdlrs := hdlrs st @ [Map.empty]\<rparr>"

fun on_event :: "'c connmgr \<Rightarrow> 'c event \<Rightarrow> ('c, 'h) serving \<Rightarrow> ('c, 'h) serving" where
  "on_event L (Progress f) st = st\<lparr>conn_mgr := f (conn_mgr st)\<rparr>"
| "on_event L Worker st = new_handler st"
| "on_event L (Signal s) st = on_signal L s st"

text \<open>
  \<^verbatim>\<open>main\<close> from the connection manager on: the signals before the connections are opened, and what happens until
  they are closed.  The result is the exit code.
\<close>

definition connected :: "'c connmgr \<Rightarrow> startup \<Rightarrow> ('c, 'h) serving" where
  "connected L st = \<lparr>s_connmgr = True, conn_mgr = cm_new L (port st) (workers st), hdlrs = []\<rparr>"

definition serve :: "'c connmgr \<Rightarrow> startup \<Rightarrow> signal list \<Rightarrow> 'c event list \<Rightarrow> int \<times> ('c, 'h) serving" where
  "serve L st sigs events =
     (let sv = fold (on_signal L) sigs (connected L st);
          (cm, err) = cm_open L (conn_mgr sv);
          sv = sv\<lparr>conn_mgr := cm\<rparr>
      in if 0 < length err then (1, sv)
         else
           let sv = fold (on_event L) events sv
           in (if cm_hasServerErrors L (conn_mgr sv) then 1 else 0, sv))"

section \<open>The configuration file and the databases\<close>

text \<open>Reading the configuration changes the configured part of a manager only.\<close>

lemma more_set_option [simp]: "config.more (set_option s2 opt key m) = config.more m"
  by (simp add: set_option_def Let_def)

lemma more_set_cache [simp]: "config.more (set_cache cap key m) = config.more m"
  by (simp add: set_cache_def)

lemma more_fold: "(\<And>k m. config.more (f k m) = config.more m) \<Longrightarrow> config.more (fold f ks m) = config.more m"
  by (induction ks arbitrary: m) auto

lemma more_load_line: "load_line opt0 line m = Inr m' \<Longrightarrow> config.more m' = config.more m"
  by (auto simp: load_line_def res_bind_Inr_iff Let_def more_fold split: option.splits if_splits)

lemma more_load: "Manager_load opt0 fs m = Inr m' \<Longrightarrow> config.more m' = config.more m"
proof -
  have "load_lines opt0 ls m = Inr m' \<Longrightarrow> config.more m' = config.more m" for ls m'
    by (induction ls arbitrary: m) (auto simp: res_bind_Inr_iff dest: more_load_line)
  then show "Manager_load opt0 fs m = Inr m' \<Longrightarrow> config.more m' = config.more m"
    by (simp add: Manager_load_def)
qed

lemma more_manager:
  "config.more m' = config.more (m :: 'd manager) \<Longrightarrow>
     indexDbs m' = indexDbs m \<and> shardDbs m' = shardDbs m \<and> perkindDbs m' = perkindDbs m \<and> dbs m' = dbs m
     \<and> dbPerKind m' = dbPerKind m \<and> shardMin m' = shardMin m \<and> shardRange m' = shardRange m"
  by (cases m; cases m') simp

lemma server_start_manager:
  assumes "server_start opt0 files junk argv = Inr (Serve st m cmds)"
  shows "no_dbs m" "shardMin m = st_shardMin st" "shardRange m = st_shardRange st"
    "parse_args (tl argv) startup0 = Inr (Some st)"
proof -
  obtain fs where l: "Manager_load opt0 fs (new_manager opt0 st junk) = Inr m"
    and p: "parse_args (tl argv) startup0 = Inr (Some st)"
  proof -
    obtain r where r: "parse_args (tl argv) startup0 = Inr r" "(case r of None \<Rightarrow> Inr (Exit 0)
       | Some st \<Rightarrow>
         res_bind (Manager_load opt0 (case files (initfile st) of None \<Rightarrow> [] | Some s \<Rightarrow> s) (new_manager opt0 st junk)) (\<lambda>m.
           Inr (Serve st m (if clearOnStartup st
             then [''rm -rf '' @ basedir m, ''mkdir -p '' @ basedir m] else [])))) = Inr (Serve st m cmds)"
      using assms unfolding server_start_def res_bind_Inr_iff by blast
    obtain st' where st': "r = Some st'" using r(2) by (cases r) simp_all
    obtain m' where "Manager_load opt0 (case files (initfile st') of None \<Rightarrow> [] | Some s \<Rightarrow> s) (new_manager opt0 st' junk) = Inr m'"
      "Serve st' m' (if clearOnStartup st' then [''rm -rf '' @ basedir m', ''mkdir -p '' @ basedir m'] else []) = Serve st m cmds"
      using r(2) unfolding st' option.case res_bind_Inr_iff by blast
    then show ?thesis using that r(1) st' by blast
  qed
  note more_manager [OF more_load [OF l]]
  then show "no_dbs m" "shardMin m = st_shardMin st" "shardRange m = st_shardRange st"
    by (simp_all add: no_dbs_def new_manager_def config.defs)
  show "parse_args (tl argv) startup0 = Inr (Some st)" by (rule p)
qed

section \<open>Numbers on the command line\<close>

lemma takeWhile_digits: "takeWhile is_digit (dec_digits n) = dec_digits n"
  using dec_digits_chars by (auto simp: takeWhile_eq_all_conv is_digit_def)

lemma digit_not_space: "is_digit c \<Longrightarrow> \<not> is_space c \<and> c \<noteq> CHR ''-'' \<and> c \<noteq> CHR ''+''"
  by (auto simp: is_digit_def is_space_def is_ws_def nl_def cr_def tab_def)

lemma stoi_to_string:
  assumes "int_min \<le> n" "n \<le> int_max"
  shows "stoi (to_string n) = Inr n"
proof -
  have d: "dec_digits k \<noteq> [] \<and> is_digit (hd (dec_digits k))" for k
    using dec_digits_chars [of "hd (dec_digits k)" k] by (simp add: is_digit_def)
  have h: "dropWhile is_space (dec_digits k) = dec_digits k" for k
    using d [of k] digit_not_space by (cases "dec_digits k") auto
  show ?thesis
  proof (cases "n < 0")
    case True
    then show ?thesis
      using assms by (simp add: stoi_def to_string_def is_space_def is_ws_def nl_def cr_def tab_def takeWhile_digits Let_def)
  next
    case False
    then show ?thesis
      using assms d [of "nat n"] digit_not_space [of "hd (dec_digits (nat n))"]
      by (simp add: stoi_def to_string_def h takeWhile_digits Let_def)
  qed
qed

lemma is_true_flag: "is_true (if b then ''true'' else ''false'') = Inr b"
  by (cases b) (simp_all add: is_true_def bytes_of_def)

section \<open>Properties\<close>

text \<open>The options of a configuration as they are written on the command line.\<close>

definition flag :: "bool \<Rightarrow> string" where
  "flag b = (if b then ''true'' else ''false'')"

definition command_line :: "startup \<Rightarrow> bool \<Rightarrow> string list" where
  "command_line st perkind = [''-p'', to_string (port st), ''-s'', to_string (uint (st_shardMin st)),
     to_string (uint (st_shardRange st)), ''-w'', to_string (workers st), ''-x'', flag (clearOnStartup st),
     ''-k'', flag perkind, ''-i'', initfile st]"

text \<open>
  C36. The command line: every configuration can be written on it and is read back, whatever was set
  before; after it comes whatever follows.
\<close>

theorem command_line_roundtrip:
  assumes "st_dbPerKind st = Some perkind" "int_min \<le> port st" "port st \<le> int_max"
    and "int_min \<le> workers st" "workers st \<le> int_max"
  shows "parse_args (command_line st perkind @ args) st0 = parse_args args st"
proof -
  have u: "stoi (to_string (uint w)) = Inr (uint w)" for w :: u16
  proof (rule stoi_to_string)
    show "int_min \<le> uint w" by (rule order_trans [OF _ uint_ge_0]) (simp add: int_min_def)
    show "uint w \<le> int_max" using uint_lt2p [of w] by (simp add: int_max_def)
  qed
  show ?thesis
    by (simp add: command_line_def u stoi_to_string assms flag_def is_true_flag)
      (cases st; cases st0; use assms(1) in simp)
qed

theorem command_line_roundtrip_witness:
  "parse_args ([''-p'', ''9999'', ''-s'', ''1'', ''16'', ''-w'', ''-1'', ''-x'', ''true'', ''-k'', ''false'', ''-i'', ''a.cfg''] @ [])
     startup0 = Inr (Some \<lparr>port = 9999, workers = -1, clearOnStartup = True, initfile = ''a.cfg'',
       st_dbPerKind = Some False, st_shardMin = 1, st_shardRange = 16\<rparr>)"
proof -
  let ?st = "\<lparr>port = 9999, workers = -1, clearOnStartup = True, initfile = ''a.cfg'',
       st_dbPerKind = Some False, st_shardMin = 1, st_shardRange = 16\<rparr>"
  have n: "to_string 9999 = ''9999''" "to_string 1 = ''1''" "to_string 16 = ''16''" "to_string (-1) = ''-1''"
    by (simp_all add: to_string_def dec_digits.simps char_of_def bit_0)
  from command_line_roundtrip [of ?st False "[]" startup0] show ?thesis
    by (simp add: command_line_def flag_def n int_min_def int_max_def)
qed

text \<open>A run that some signals do not change, and one without any.\<close>

definition stops :: "'c event \<Rightarrow> bool" where
  "stops ev \<longleftrightarrow> ev = Signal SIGINT \<or> ev = Signal SIGTERM"

definition runs_on :: "'c event \<Rightarrow> 'c \<Rightarrow> 'c" where
  "runs_on ev = (case ev of Progress f \<Rightarrow> f | _ \<Rightarrow> id)"

lemma on_event_quiet:
  assumes "\<not> stops ev \<or> \<not> s_connmgr sv"
  shows "s_connmgr (on_event L ev sv) = s_connmgr sv" "conn_mgr (on_event L ev sv) = runs_on ev (conn_mgr sv)"
    "hdlrs (on_event L ev sv) = hdlrs sv @ (if ev = Worker then [Map.empty] else [])"
proof -
  have "s_connmgr (on_event L ev sv) = s_connmgr sv \<and> conn_mgr (on_event L ev sv) = runs_on ev (conn_mgr sv)
     \<and> hdlrs (on_event L ev sv) = hdlrs sv @ (if ev = Worker then [Map.empty] else [])"
  proof (cases ev)
    case (Signal s)
    then show ?thesis using assms by (cases s) (simp_all add: stops_def runs_on_def sighdlr_def)
  qed (simp_all add: runs_on_def new_handler_def)
  then show "s_connmgr (on_event L ev sv) = s_connmgr sv" "conn_mgr (on_event L ev sv) = runs_on ev (conn_mgr sv)"
    "hdlrs (on_event L ev sv) = hdlrs sv @ (if ev = Worker then [Map.empty] else [])" by simp_all
qed

lemma events_quiet:
  assumes "(\<forall>ev \<in> set evs. \<not> stops ev) \<or> \<not> s_connmgr sv"
  shows "s_connmgr (fold (on_event L) evs sv) = s_connmgr sv"
    "conn_mgr (fold (on_event L) evs sv) = fold runs_on evs (conn_mgr sv)"
    "length (hdlrs (fold (on_event L) evs sv)) = length (hdlrs sv) + length (filter (\<lambda>ev. ev = Worker) evs)"
proof -
  have "s_connmgr (fold (on_event L) evs sv) = s_connmgr sv
     \<and> conn_mgr (fold (on_event L) evs sv) = fold runs_on evs (conn_mgr sv)
     \<and> length (hdlrs (fold (on_event L) evs sv)) = length (hdlrs sv) + length (filter (\<lambda>ev. ev = Worker) evs)"
    using assms
  proof (induction evs arbitrary: sv)
    case (Cons ev evs)
    have "\<not> stops ev \<or> \<not> s_connmgr sv" using Cons.prems by auto
    note q = on_event_quiet [OF this, of L]
    show ?case using Cons.IH [of "on_event L ev sv"] Cons.prems q by auto
  qed simp
  then show "s_connmgr (fold (on_event L) evs sv) = s_connmgr sv"
    "conn_mgr (fold (on_event L) evs sv) = fold runs_on evs (conn_mgr sv)"
    "length (hdlrs (fold (on_event L) evs sv)) = length (hdlrs sv) + length (filter (\<lambda>ev. ev = Worker) evs)" by simp_all
qed

text \<open>
  Shutdown: once the connections are open, the first SIGINT or SIGTERM closes the connection manager, and no
  signal before or after it does anything; every worker has a handler of its own, and the exit code is 1
  exactly if the library reports errors.
\<close>

theorem first_signal_closes:
  assumes "cm_open L (cm_new L (port st) (workers st)) = (cm, [])"
    and "stops ev" "\<forall>ev \<in> set before. \<not> stops ev"
  shows "\<exists>sv. serve L st [] (before @ ev # after) = (if cm_hasServerErrors L (conn_mgr sv) then 1 else 0, sv)
     \<and> conn_mgr sv = fold runs_on after (cm_close L (fold runs_on before cm)) \<and> \<not> s_connmgr sv
     \<and> length (hdlrs sv) = length (filter (\<lambda>ev. ev = Worker) (before @ after))"
proof -
  define sv0 :: "('a, 'b) serving" where "sv0 = \<lparr>s_connmgr = True, conn_mgr = cm, hdlrs = []\<rparr>"
  define sv1 where "sv1 = fold (on_event L) before sv0"
  define sv2 where "sv2 = on_event L ev sv1"
  note b = events_quiet [of before sv0 L, folded sv1_def]
  have sv2: "sv2 = sighdlr L sv1" using assms(2) by (auto simp: sv2_def stops_def)
  then have n: "\<not> s_connmgr sv2" by (simp add: sighdlr_def)
  note a = events_quiet [of after sv2 L]
  have "serve L st [] (before @ ev # after) = (let sv = fold (on_event L) after sv2 in (if cm_hasServerErrors L (conn_mgr sv) then 1 else 0, sv))"
    using assms(1) by (simp add: serve_def connected_def sv2_def sv1_def sv0_def)
  then show ?thesis
    using assms(3) a b n by (simp add: Let_def sv2 sighdlr_def sv0_def)
qed

definition demo_connmgr :: "nat connmgr" where
  "demo_connmgr = \<lparr>cm_new = (\<lambda>p w. 0), cm_open = (\<lambda>n. (n, [])), cm_close = (\<lambda>n. n + 10),
     cm_hasServerErrors = (\<lambda>n. n = 22)\<rparr>"

theorem first_signal_closes_witness:
  "\<exists>sv :: (nat, unit) serving. serve demo_connmgr startup0 []
      ([Worker, Progress Suc, Signal SIGUSR1] @ Signal SIGTERM # [Progress Suc, Signal SIGINT]) = (0, sv)
   \<and> conn_mgr sv = 12 \<and> length (hdlrs sv) = 1"
proof -
  have o: "cm_open demo_connmgr (cm_new demo_connmgr (port startup0) (workers startup0)) = (0, [])"
    by (simp add: demo_connmgr_def)
  have s: "stops (Signal SIGTERM)" "\<forall>ev \<in> set [Worker, Progress Suc, Signal SIGUSR1]. \<not> stops ev"
    by (simp_all add: stops_def)
  obtain sv :: "(nat, unit) serving" where sv: "serve demo_connmgr startup0 []
      ([Worker, Progress Suc, Signal SIGUSR1] @ Signal SIGTERM # [Progress Suc, Signal SIGINT]) =
      (if cm_hasServerErrors demo_connmgr (conn_mgr sv) then 1 else 0, sv)"
    "conn_mgr sv = fold runs_on [Progress Suc, Signal SIGINT]
       (cm_close demo_connmgr (fold runs_on [Worker, Progress Suc, Signal SIGUSR1] 0))"
    "length (hdlrs sv) = length (filter (\<lambda>ev. ev = Worker) ([Worker, Progress Suc, Signal SIGUSR1] @ [Progress Suc, Signal SIGINT]))"
    using first_signal_closes [OF o s, of "[Progress Suc, Signal SIGINT]", where 'b = unit] by blast
  have c: "conn_mgr sv = 12" using sv(2) by (simp add: runs_on_def demo_connmgr_def)
  have "\<not> cm_hasServerErrors demo_connmgr (conn_mgr sv)" unfolding c by (simp add: demo_connmgr_def)
  then show ?thesis
    using sv(1,3) c by (intro exI [of _ sv]) simp
qed

end
