(* ===== verification/Spec2Isabelle.thy ===== *)
theory Spec2Isabelle
  imports QueryResults Locking Updates Threads Counters OldConn OldCapi Server
begin

text \<open>
  A verification development for \<^verbatim>\<open>ndb\<close>: a database server over RocksDB that stores the entities and
  index rows of a data store under structured keys, answers binary requests over sockets, and is
  also a C library.

  \<^bold>\<open>The program\<close>

  \<^verbatim>\<open>ndbserver_main.cc\<close> reads the command line and \<^verbatim>\<open>init.cfg\<close> into a \<^verbatim>\<open>Manager\<close> and gives the
  sockets to one \<^verbatim>\<open>ConnHandler\<close> per worker.  A \<^verbatim>\<open>ConnHandler\<close> (\<^verbatim>\<open>conn.h\<close>, \<^verbatim>\<open>conn.cc\<close>) keeps a state machine per
  socket; a complete request goes to the one \<^verbatim>\<open>ReqHandler\<close> (\<^verbatim>\<open>conn.cc\<close>), which decodes it, asks the
  \<^verbatim>\<open>Manager\<close> (\<^verbatim>\<open>manager.h\<close>, \<^verbatim>\<open>manager.cc\<close>) for the database of each key and calls \<^verbatim>\<open>Ndb\<close> (\<^verbatim>\<open>ndb.h\<close>,
  \<^verbatim>\<open>ndb.cc\<close>) on it.  \<^verbatim>\<open>ndb-c.cc\<close> wraps \<^verbatim>\<open>Ndb\<close> for callers in C and Go.

  \<^bold>\<open>The theories\<close>

  \<^item> \<open>Prelude\<close>: machine types, the faults of C++ (reads and writes out of bounds, wrong union members,
    null and freed pointers, handles of databases that are gone, uninitialised variables, signed overflow, escaping exceptions), results
    \<open>fault + 'a\<close> and, for code that may not return, \<open>(fault + 'a) option\<close>; \<open>memcmp\<close>,
    \<open>std::to_string\<close>; the rules of \<open>safe\<close> that bound the faults of a computation.
  \<^item> \<open>Keys\<close>: the enums of \<^verbatim>\<open>ndb.h\<close>, \<open>extractKeyParts\<close> (\<^verbatim>\<open>manager.cc\<close>) and the row filter
    \<open>ndbEntityBytesFromSlice\<close> (\<^verbatim>\<open>ndb.cc\<close>), with the key layout of \<^verbatim>\<open>doc.md\<close> as a specification: the
    parts of every well formed key are recovered, the entity key is recovered from its index rows.
  \<^item> \<open>RocksDB\<close>: the database library as a parameter, a record of its operations, with the laws of its
    documentation (\<open>iterator_laws\<close>, \<open>db_laws\<close>) and a database in memory that keeps them, on
    which the witnesses run.
  \<^item> \<open>Query\<close>, \<open>QueryResults\<close>: \<open>Ndb::query\<close>, from its plan to its loops, and a specification of its
    results as a function of the sorted keys; the loops return and compute the specification, and what
    it means for each filter operator.
  \<^item> \<open>Store\<close>: \<open>get\<close>, \<open>gets\<close>, \<open>getViaIter\<close>, \<open>update\<close>, \<open>incrdecr\<close> of \<open>Ndb\<close>; the contract of a
    point read as a locale, which \<open>get\<close> and the iterator both keep.
  \<^item> \<open>Locking\<close>: \<open>incrdecr\<close> and \<open>update\<close> run by several threads, as a step relation that
    interleaves the locking, reading and writing of the increments with whole updates.
  \<^item> \<open>Config\<close>: \<open>Manager::load\<close> on the text of the configuration, with the operations of
    \<open>std::string\<close> it uses.
  \<^item> \<open>Manager\<close>: the open databases and the three maps to them; \<open>ndbForKey\<close> routes a key.  The locales
    \<open>find_or_create\<close> and \<open>fresh_entries\<close> are the contract of a table that is filled on demand;
    they are interpreted on the manager here, on the batches of an update in \<open>Handler\<close>, and on the
    connections in \<open>Conn\<close>.
  \<^item> \<open>Handler\<close>: \<open>ReqHandler::handle\<close> with its four commands; union members and the owner of the
    memory of a response are tracked.
  \<^item> \<open>Updates\<close>: the write loops of update requests (\<^verbatim>\<open>conn.cc\<close>) that run at the same time, as a step relation that
    interleaves the writes of the batches that the loops of the requests leave: in one database an update is atomic, over
    several it is not, and what a request leaves when one of its writes fails.
  \<^item> \<open>Workers\<close>, \<open>Concurrent\<close>: requests that several workers serve at the same time, each a sequence of actions on the
    manager and its databases; alone a request is what \<open>Handler\<close> says, and under any interleaving its faults are the
    same, no handle goes stale and every key stays where a lookup finds it.  The locale \<open>interference\<close> is the contract: an
    invariant, and what others may change meanwhile.
  \<^item> \<open>Conn\<close>, \<open>ConnSpec\<close>: \<open>ConnHandler\<close>; the slices with the memory behind them, the loops that read and write
    in pieces, and what is true of every connection in every reachable state of a handler.  The constructor of a connection
    sets the lengths of its two slices only; whether \<^verbatim>\<open>slice_bytes\<close>, a type that is not in the repository, sets pointer and
    capacity is the parameter \<open>ce_init\<close>, a slice records whether they are set (\<open>sl_set\<close>), and the use of one where they are not is a fault.
  \<^item> \<open>Threads\<close>: the calls of \<open>handleFd\<close> of several threads, with the actions of their requests; a call that is not
    interrupted is that of \<open>Conn\<close> (\<open>alone_handleFd\<close>), and every thread keeps its connections well formed whatever the others do.
  \<^item> \<open>Service\<close>: the handler as its clients see it: an abstract service that takes requests out of the frames of a
    byte stream and answers them in order, which a handler refines, call by call, on connections whose headers come in
    one read and whose reads do not fail in a request.
  \<^item> \<open>Counters\<close>: what the clients of the service see of a counter that is open and that only they change: no change is lost, every
    answer is a running total.
  \<^item> \<open>OldConn\<close>: \<^verbatim>\<open>handler.cc\<close>, the earlier handler, and where the two agree.
  \<^item> \<open>Capi\<close>: \<^verbatim>\<open>ndb-c.cc\<close>, the request keys, what they keep alive and for how many calls, and what is read
    back after a write.
  \<^item> \<open>OldCapi\<close>: \<^verbatim>\<open>c.cc\<close>, the earlier C interface where it differs, and up to how many elements its loops do what those of \<open>Capi\<close> do.
  \<^item> \<open>Server\<close>: the command line, the start of the server, its signal handlers and its exit code.

  This theory has the property that spans them: a server with its workers, from its command line on.

  \<^bold>\<open>State and effects\<close>

  Operations take and return the state they change: the database \<open>'d\<close>, the manager, the world \<open>'w\<close>
  of the file system, the state of a connection.  The state of a call to \<open>handleFd\<close> also records the bytes the socket
  took and gave in it (\<open>csent\<close>, \<open>creceived\<close>), which the code does not keep.  \<open>errno\<close> is state as well.  A pointer to a database is its
  index in the vector that owns it.  Every access to memory whose bounds the code does not know is checked,
  and a fault ends the computation; theorems say which faults can happen, or that none does.

  \<^bold>\<open>Loops, scripts, fuel\<close>

  Loops over arguments, rows or arrays are recursive functions that return always.  The loops of a
  query run until the iterator is invalid and are \<open>partial_function (option)\<close>; that they return is part of
  \<open>query_refines\<close>.  The loops over \<open>read\<close> and \<open>write\<close> take the results of these calls from a
  script and do not return (\<open>None\<close>) when it is used up, so no property holds because a loop does not end;
  \<open>request_answered\<close> says what scripts are enough.  There is no fuel.

  \<^bold>\<open>Parameters\<close>

  Code outside the repository is a parameter: RocksDB; \<open>stat\<close>, \<open>mkdir\<close>, \<open>read\<close> and \<open>write\<close>;
  the codec (decoder and encoder), the type \<^verbatim>\<open>slice_bytes\<close> and \<open>slice_bytes_expand\<close>, the big-endian routines and the lock set of
  the utility library; the order of an \<open>unordered_map\<close>; the contents of uninitialised memory.  Where a
  property needs their documented behaviour it has a named hypothesis (\<open>db_laws\<close>, \<open>expand_laws\<close>,
  \<open>lock_laws\<close>, \<open>order_laws\<close> and the like), and its witness discharges it on a concrete instance.

  \<^bold>\<open>Not modelled\<close>

  Logging; the connection manager (threads, \<open>epoll\<close>), a library whose calls are parameters of \<open>Server\<close>;
  \<open>ndb_noop\<close> and \<open>ndb_trigger_crash\<close>; the debug output of the C interface.  Of \<^verbatim>\<open>c.cc\<close> and \<^verbatim>\<open>c.h\<close>, which the
  makefile does not build, only what differs from \<^verbatim>\<open>ndb-c.cc\<close>; the \<open>Ndb\<close> they were written against no longer exists
  and is a parameter.  The tuning options that are only passed on to RocksDB are values here without effect.
  Threads are modelled where they share the manager or a database (\<open>Locking\<close>, \<open>Updates\<close>, \<open>Workers\<close>,
  \<open>Threads\<close>), down to the calls of RocksDB, each of which is one step, and the lookups, which the mutex of the manager
  makes one step; \<open>Service\<close> and \<open>Counters\<close> are about one thread, for which a call of \<open>handleFd\<close> is one step.  Data races inside a step are not modelled.  A signal handler runs to its end.
\<close>

section \<open>The server as a whole\<close>

text \<open>
  C1. From the command line on: whatever the arguments and the configuration file, once the server has started,
  whatever its threads do for whatever sockets, with any results of their system calls, and however their actions
  interleave: none writes out of bounds, uses a null pointer, or a database the manager does not have; every database
  handle of the manager is valid.  Where a new \<^verbatim>\<open>slice_bytes\<close> is set by its type, a thread ends in no other fault than a
  read out of bounds, the wrong member of a request's value, or a freed row of a query, and every connection of a thread that is
  not in a call is well formed.  Where it is not set, the one fault a thread ends in is the use of the uninitialised slice of a
  new connection, and no connection gets beyond that.
\<close>

theorem server_safe:
  assumes "conn_laws E" "server_start opt0 files junk argv = Inr (Serve st m cmds)"
    and "\<forall>i. \<exists>e. ts0 i = Idle Map.empty e"
    and "(threads_step E)\<^sup>*\<^sup>* ((w, m), ts0) ((w', m'), ts)"
  shows "owned m' \<and> (\<forall>i. case ts i of
      Idle cs e \<Rightarrow> \<forall>fd x. cs fd = Some x \<longrightarrow> xfd x = fd \<and> (if ce_init E then conn_ok x else x = new_conn False fd)
    | Busy r \<Rightarrow> \<forall>f. r = Fail f \<longrightarrow> f \<in> (if ce_init E then {OobRead, BadUnion, UseAfterFree} else {Uninit}))"
proof -
  have m: "owned m" by (rule no_dbs_owned [OF server_start_manager(1) [OF assms(2)]])
  have laws: "server_laws (ce_server E) (\<lambda>_. {}) m"
    using conn_lawsD(4,5) [OF assms(1)] by (simp add: server_laws_def opens_placed_def writes_contained_def)
  have "thread_ok (ce_init E) (\<lambda>_. {}) m (w, m) (ts0 i)" for i
    using assms(3) by (metis conns_ok_def option.distinct(1) thread_ok.simps(1))
  then have "threads_ok (ce_init E) (\<lambda>_. {}) m ((w, m), ts0)"
    using m by (simp add: threads_ok_def well_kept_def in_place_def)
  note ok = threads_okD [OF threads_ok_steps [OF assms(1) laws assms(4) this]]
  have "case ts i of
      Idle cs e \<Rightarrow> \<forall>fd x. cs fd = Some x \<longrightarrow> xfd x = fd \<and> (if ce_init E then conn_ok x else x = new_conn False fd)
    | Busy r \<Rightarrow> \<forall>f. r = Fail f \<longrightarrow> f \<in> (if ce_init E then {OobRead, BadUnion, UseAfterFree} else {Uninit})" for i
    using ok(2) [of i "ts i"] by (cases "ts i") (auto simp: conns_ok_def conn_kept_def handler_faults_def split: if_splits)
  then show ?thesis using well_keptD(1) [OF ok(1)] by simp
qed

theorem server_safe_witness:
  "\<exists>opt0 st m cmds w' m' ts. server_start opt0 (\<lambda>_. None) False [''ndbserver'', ''-s'', ''1'', ''16''] = Inr (Serve st m cmds)
     \<and> (threads_step demo_conn)\<^sup>*\<^sup>* (([], m), \<lambda>_. Idle Map.empty EINTR) ((w', m'), ts)
     \<and> (\<exists>cs e x. ts 3 = Idle cs e \<and> cs 4 = Some x \<and> conn_ok x) \<and> owned m'"
proof -
  have n: "stoi ''1'' = Inr 1" "stoi ''16'' = Inr 16"
    using stoi_to_string [of 1] stoi_to_string [of 16]
    by (simp_all add: to_string_def dec_digits.simps char_of_def bit_0 int_min_def int_max_def)
  obtain opt0 st cmds and m :: "mem_db manager" where s: "server_start opt0 (\<lambda>_. None) False [''ndbserver'', ''-s'', ''1'', ''16''] = Inr (Serve st m cmds)"
    by (simp add: server_start_def n startup0_def Manager_load_def)
  obtain cs c where h: "handleFd demo_conn 4 Map.empty (new_call [] m EINTR [Got [7, 0, 0, 0, 0, 0, 9, 9], Got []] []) = Some (Inr (cs, c))"
    "4 \<in> dom cs"
    by (simp add: handleFd_def stateFor_def handle_state_def new_conn_def reinit_def doStartFd_def new_call_def
      start_request_def Let_def demo_conn_def length_array_def be64_def be_value_def
      doReadFd_def read_loop_fd.simps read_count_def FD_BUF_INCR_def set_in_def expand_def write_at_def)
  let ?ts = "(\<lambda>_. Idle Map.empty EINTR)(3 := Idle cs (cerrno c))"
  have run: "(threads_step demo_conn)\<^sup>*\<^sup>* (([], m), \<lambda>_. Idle Map.empty EINTR) ((cworld c, cmgr c), ?ts)"
    by (rule call_steps [OF refl h(1)])
  note safe = server_safe [OF demo_conn_laws s _ run]
  have "owned (cmgr c)" "\<forall>fd x. cs fd = Some x \<longrightarrow> xfd x = fd \<and> conn_ok x"
    using safe spec [OF conjunct2 [OF safe], of 3] by simp_all
  then show ?thesis using s run h(2) by fastforce
qed

end
